(* ===== verification/Go_Prelude.thy ===== *)
theory Go_Prelude
  imports Main "HOL-Library.AList" "HOL-Library.Signed_Division" "HOL-Library.Word"
begin

text \<open>
  Shared vocabulary of the development: what the modelled Go code uses of the language
  and of its standard library.

  \<^item> Signed 64-bit integers (\<^verbatim>\<open>int64\<close>, \<^verbatim>\<open>time.Duration\<close>) are \<^typ>\<open>int\<close> with
    the wrap-around written out by \<open>wrap64\<close>; \<open>in_i64\<close> is the range.
  \<^item> \<^verbatim>\<open>time.Time\<close> is a number of nanoseconds since the Unix epoch; \<^verbatim>\<open>time.Time{}\<close> is
    \<open>zero_time\<close>.
  \<^item> A \<^verbatim>\<open>context.Context\<close> is nil or a function that gives the value of the n-th
    \<^verbatim>\<open>ctx.Err()\<close> observed within one call, so a context may be cancelled between two checks.
  \<^item> A Go map is an association list with distinct keys; the order in which \<^verbatim>\<open>range\<close>
    visits the keys is an argument, constrained only by \<open>range_order\<close>.
\<close>

named_theorems gomap_simps \<open>rewrite rules for Go maps\<close>
named_theorems i64_simps \<open>rewrite rules that remove a wrap-around that cannot happen\<close>

section \<open>Integers of 64 bits\<close>

abbreviation (input) i64_min :: int where
  "i64_min \<equiv> -9223372036854775808"

abbreviation (input) i64_max :: int where
  "i64_max \<equiv> 9223372036854775807"

definition in_i64 :: "int \<Rightarrow> bool" where
  "in_i64 x \<longleftrightarrow> i64_min \<le> x \<and> x \<le> i64_max"

definition wrap64 :: "int \<Rightarrow> int" where
  "wrap64 x = (x + 9223372036854775808) mod 18446744073709551616 - 9223372036854775808"

text \<open>Go's integer division truncates towards zero.\<close>

definition div64 :: "int \<Rightarrow> int \<Rightarrow> int" where
  "div64 a b = wrap64 (a sdiv b)"

section \<open>Time\<close>

type_synonym time = int
type_synonym duration = int

definition zero_time :: time where
  "zero_time = -62135596800000000000"

abbreviation is_zero :: "time \<Rightarrow> bool" where
  "is_zero t \<equiv> t = zero_time"

text \<open>\<^verbatim>\<open>Time.Sub\<close> saturates at the ends of the range of durations.\<close>

definition time_sub :: "time \<Rightarrow> time \<Rightarrow> duration" where
  "time_sub t u = max i64_min (min i64_max (t - u))"

section \<open>Contexts\<close>

datatype ctx_error = Canceled | DeadlineExceeded

datatype ctxt = NilCtx | Ctx "nat \<Rightarrow> ctx_error option"

fun ctx_obs :: "ctxt \<Rightarrow> nat \<Rightarrow> ctx_error option" where
  "ctx_obs NilCtx n = None"
| "ctx_obs (Ctx f) n = f n"

abbreviation background :: ctxt where
  "background \<equiv> Ctx (\<lambda>_. None)"

section \<open>Go maps\<close>

type_synonym ('k, 'v) gomap = "('k \<times> 'v) list"

definition gm_wf :: "('k, 'v) gomap \<Rightarrow> bool" where
  "gm_wf m \<longleftrightarrow> distinct (map fst m)"

text \<open>The keys a \<^verbatim>\<open>range\<close> loop visits: every key once, in an order the runtime chooses.\<close>

definition range_order :: "'k list \<Rightarrow> ('k, 'v) gomap \<Rightarrow> bool" where
  "range_order ks m \<longleftrightarrow> distinct ks \<and> set ks = fst ` set m"

text \<open>\<^verbatim>\<open>for k, v := range m { if p(v) { delete(m, k) } }\<close>\<close>

fun range_delete :: "('v \<Rightarrow> bool) \<Rightarrow> 'k list \<Rightarrow> ('k, 'v) gomap \<Rightarrow> ('k, 'v) gomap" where
  "range_delete p [] m = m"
| "range_delete p (k # ks) m =
     range_delete p ks
       (case map_of m k of
          None \<Rightarrow> m
        | Some v \<Rightarrow> if p v then AList.delete k m else m)"

section \<open>Facts on integers\<close>

lemma wrap64_id [i64_simps]: "in_i64 x \<Longrightarrow> wrap64 x = x"
  by (simp add: in_i64_def wrap64_def)

lemma in_i64_wrap64 [simp, intro]: "in_i64 (wrap64 x)"
proof -
  have "0 \<le> (x + 9223372036854775808) mod 18446744073709551616"
    and "(x + 9223372036854775808) mod 18446744073709551616 < 18446744073709551616"
    by simp_all
  then show ?thesis
    unfolding in_i64_def wrap64_def by linarith
qed

lemma wrap64_wrap64 [simp]: "wrap64 (wrap64 x) = wrap64 x"
  by (simp add: wrap64_id)

lemma wrap64_signed_take_bit: "wrap64 x = signed_take_bit 63 x"
  by (simp add: wrap64_def signed_take_bit_eq_take_bit_shift take_bit_eq_mod)

text \<open>The wrap-around is the two's complement of \<^typ>\<open>64 word\<close>.\<close>

lemma wrap64_sint: "wrap64 x = sint (word_of_int x :: 64 word)"
  by (simp add: wrap64_signed_take_bit sint_sbintrunc')

lemma div64_nonneg:
  assumes "0 \<le> a" and "0 < b" and "in_i64 a"
  shows "div64 a b = a div b"
proof -
  have "a div b \<le> a"
    using assms by (metis div_by_1 div_le_mono2 zless_iff_Suc_zadd int_one_le_iff_zero_less zdiv_mono2 zero_less_one)
  moreover have "0 \<le> a div b"
    using assms by (simp add: pos_imp_zdiv_nonneg_iff)
  ultimately have "in_i64 (a div b)"
    using assms(3) by (simp add: in_i64_def)
  then show ?thesis
    using assms by (auto simp: div64_def signed_divide_int_def wrap64_id sgn_if in_i64_def)
qed

lemma time_sub_in [i64_simps]: "in_i64 (t - u) \<Longrightarrow> time_sub t u = t - u"
  by (auto simp: in_i64_def time_sub_def)

section \<open>Facts on Go maps\<close>

lemma gm_wf_Nil [simp]: "gm_wf []"
  by (simp add: gm_wf_def)

lemma gm_wf_update [simp, intro]: "gm_wf m \<Longrightarrow> gm_wf (AList.update k v m)"
  by (simp add: gm_wf_def distinct_update)

lemma gm_wf_delete [simp, intro]: "gm_wf m \<Longrightarrow> gm_wf (AList.delete k m)"
  by (simp add: gm_wf_def distinct_delete)

lemma gm_get_update [gomap_simps]:
  "map_of (AList.update k v m) x = (if x = k then Some v else map_of m x)"
  by (simp add: update_conv')

lemma gm_get_delete [gomap_simps]:
  "map_of (AList.delete k m) x = (if x = k then None else map_of m x)"
  by (simp add: delete_conv')

lemma gm_key_iff: "k \<in> fst ` set m \<longleftrightarrow> (\<exists>v. map_of m k = Some v)"
  by (metis domD domI dom_map_of_conv_image_fst)

lemma length_gm_update:
  "length (AList.update k v m) = (if map_of m k = None then Suc (length m) else length m)"
  by (induction m) auto

lemma length_gm_delete:
  "gm_wf m \<Longrightarrow> length (AList.delete k m) = (if map_of m k = None then length m else length m - 1)"
proof (induction m)
  case Nil
  then show ?case by simp
next
  case (Cons p m)
  obtain k' v where p: "p = (k', v)" by (cases p)
  have wf: "gm_wf m" and fresh: "k' \<notin> fst ` set m"
    using Cons.prems p by (auto simp: gm_wf_def)
  show ?case
  proof (cases "k = k'")
    case True
    with fresh have "map_of m k = None" by (simp add: map_of_eq_None_iff)
    then show ?thesis using Cons.IH [OF wf] True p by simp
  next
    case False
    have "m \<noteq> []" if "map_of m k \<noteq> None" using that by auto
    then show ?thesis using Cons.IH [OF wf] False p by (auto simp: Suc_diff_Suc neq_Nil_conv)
  qed
qed

lemma range_order_map_fst: "gm_wf m \<Longrightarrow> range_order (map fst m) m"
  by (simp add: range_order_def gm_wf_def)

lemma get_range_delete [gomap_simps]:
  "map_of (range_delete p ks m) x =
     (case map_of m x of
        None \<Rightarrow> None
      | Some v \<Rightarrow> if x \<in> set ks \<and> p v then None else Some v)"
  by (induction p ks m rule: range_delete.induct)
     (auto simp: gomap_simps split: option.splits)

lemma gm_wf_range_delete [simp, intro]: "gm_wf m \<Longrightarrow> gm_wf (range_delete p ks m)"
  by (induction p ks m rule: range_delete.induct) (auto split: option.splits)

lemma length_range_delete: "length (range_delete p ks m) \<le> length m"
proof (induction p ks m rule: range_delete.induct)
  case (1 p m)
  then show ?case by simp
next
  case (2 p k ks m)
  have "length (AList.delete k m) \<le> length m" by (rule length_delete_le)
  then show ?case using 2 by (auto split: option.splits intro: order_trans)
qed

lemma sum_list_length_bound:
  "\<forall>xs \<in> set xss. int (length xs) \<le> c \<Longrightarrow> int (sum_list (map length xss)) \<le> int (length xss) * c"
  by (induction xss) (auto simp: algebra_simps)

lemma sum_list_update_int: "i < length xs \<Longrightarrow> sum_list (map f (xs[i := y])) = sum_list (map f xs) - f (xs ! i) + (f y :: int)"
  by (induction xs arbitrary: i) (auto split: nat.split)

end
