(* ===== verification/Go_Strings.thy ===== *)
theory Go_Strings
  imports Go_Prelude
begin

text \<open>
  Go strings are byte strings: \<^typ>\<open>string\<close> with one \<^typ>\<open>char\<close> per byte, so
  \<^const>\<open>length\<close> is Go's \<^verbatim>\<open>len\<close>.

  This theory models the parts of \<^verbatim>\<open>unicode/utf8\<close>, \<^verbatim>\<open>unicode\<close> and \<^verbatim>\<open>strconv\<close> that the
  validators of the toolkit use: decoding of UTF-8 (with the accept ranges of the second
  byte, so that overlong forms and surrogates are refused), the control and white-space
  classes, and \<^verbatim>\<open>strconv.Itoa\<close> on lengths.  The character-class check
  \<open>containsInvalidKeyRune\<close> is declared in four packages with the same body; it is modelled
  once here and used by each of them.
\<close>

section \<open>UTF-8\<close>

type_synonym rune = nat

abbreviation cont_byte :: "nat \<Rightarrow> bool" where
  "cont_byte b \<equiv> 0x80 \<le> b \<and> b \<le> 0xBF"

text \<open>The range of the second byte, by first byte.\<close>

definition second_lo :: "nat \<Rightarrow> nat" where
  "second_lo b = (if b = 0xE0 then 0xA0 else if b = 0xF0 then 0x90 else 0x80)"

definition second_hi :: "nat \<Rightarrow> nat" where
  "second_hi b = (if b = 0xED then 0x9F else if b = 0xF4 then 0x8F else 0xBF)"

text \<open>
  \<^verbatim>\<open>utf8.DecodeRune\<close>: the first rune and the remaining bytes; \<^const>\<open>None\<close> where the
  library answers \<^verbatim>\<open>(RuneError, 1)\<close> or the input is empty.
\<close>

fun decode_rune :: "nat list \<Rightarrow> (rune \<times> nat list) option" where
  "decode_rune [] = None"
| "decode_rune (b0 # r) =
     (if b0 < 0x80 then Some (b0, r)
      else if 0xC2 \<le> b0 \<and> b0 \<le> 0xDF then
        (case r of
           b1 # r1 \<Rightarrow>
             if cont_byte b1 then Some ((b0 - 0xC0) * 0x40 + (b1 - 0x80), r1) else None
         | _ \<Rightarrow> None)
      else if 0xE0 \<le> b0 \<and> b0 \<le> 0xEF then
        (case r of
           b1 # b2 # r2 \<Rightarrow>
             if second_lo b0 \<le> b1 \<and> b1 \<le> second_hi b0 \<and> cont_byte b2
             then Some ((b0 - 0xE0) * 0x1000 + (b1 - 0x80) * 0x40 + (b2 - 0x80), r2)
             else None
         | _ \<Rightarrow> None)
      else if 0xF0 \<le> b0 \<and> b0 \<le> 0xF4 then
        (case r of
           b1 # b2 # b3 # r3 \<Rightarrow>
             if second_lo b0 \<le> b1 \<and> b1 \<le> second_hi b0 \<and> cont_byte b2 \<and> cont_byte b3
             then Some ((b0 - 0xF0) * 0x40000 + (b1 - 0x80) * 0x1000
                        + (b2 - 0x80) * 0x40 + (b3 - 0x80), r3)
             else None
         | _ \<Rightarrow> None)
      else None)"

lemma decode_rune_shorter: "decode_rune bs = Some (r, rest) \<Longrightarrow> length rest < length bs"
  by (cases bs) (auto split: if_splits list.splits)

text \<open>All runes of a byte string, \<^const>\<open>None\<close> when it is not valid UTF-8.\<close>

function decode_runes :: "nat list \<Rightarrow> rune list option" where
  "decode_runes bs =
     (if bs = [] then Some []
      else case decode_rune bs of
             None \<Rightarrow> None
           | Some (r, rest) \<Rightarrow> map_option (Cons r) (decode_runes rest))"
  by pat_completeness auto
termination
  by (relation "measure length") (auto dest: decode_rune_shorter)

declare decode_runes.simps [simp del]

definition runes :: "string \<Rightarrow> rune list option" where
  "runes s = decode_runes (map of_char s)"

definition valid_string :: "string \<Rightarrow> bool" where
  "valid_string s \<longleftrightarrow> runes s \<noteq> None"

section \<open>Character classes\<close>

definition is_control :: "rune \<Rightarrow> bool" where
  "is_control r \<longleftrightarrow> r < 0x20 \<or> (0x7F \<le> r \<and> r \<le> 0x9F)"

definition is_space :: "rune \<Rightarrow> bool" where
  "is_space r \<longleftrightarrow>
     (0x09 \<le> r \<and> r \<le> 0x0D) \<or> r = 0x20 \<or> r = 0x85 \<or> r = 0xA0 \<or> r = 0x1680
     \<or> (0x2000 \<le> r \<and> r \<le> 0x200A) \<or> r = 0x2028 \<or> r = 0x2029 \<or> r = 0x202F
     \<or> r = 0x205F \<or> r = 0x3000"

text \<open>
  The shared body of \<^verbatim>\<open>containsInvalidKeyRune\<close>: invalid UTF-8, or a control or white-space
  rune.
\<close>

definition containsInvalidKeyRune :: "string \<Rightarrow> bool" where
  "containsInvalidKeyRune s =
     (case runes s of
        None \<Rightarrow> True
      | Some rs \<Rightarrow> list_ex (\<lambda>r. is_control r \<or> is_space r) rs)"

section \<open>Decimal numerals\<close>

definition digit_char :: "nat \<Rightarrow> char" where
  "digit_char d = char_of (48 + d)"

fun itoa :: "nat \<Rightarrow> string" where
  "itoa n = (if n < 10 then [digit_char n] else itoa (n div 10) @ [digit_char (n mod 10)])"

declare itoa.simps [simp del]

section \<open>Facts on UTF-8\<close>

lemma decode_runes_ascii:
  "(\<forall>b \<in> set bs. b < 0x80) \<Longrightarrow> decode_runes bs = Some bs"
  by (induction bs) (simp_all add: decode_runes.simps)

lemma runes_ascii:
  "(\<forall>c \<in> set s. (of_char c :: nat) < 0x80) \<Longrightarrow> runes s = Some (map of_char s)"
  unfolding runes_def by (rule decode_runes_ascii) auto

lemma runes_Nil [simp]: "runes [] = Some []"
  by (simp add: runes_def decode_runes.simps)

text \<open>A plain ASCII token passes the character-class check.\<close>

lemma containsInvalidKeyRune_ascii:
  assumes "\<forall>c \<in> set s. 0x21 \<le> (of_char c :: nat) \<and> (of_char c :: nat) < 0x7F"
  shows "\<not> containsInvalidKeyRune s"
proof -
  have "runes s = Some (map of_char s)"
    by (rule runes_ascii) (use assms in fastforce)
  moreover have "\<not> is_control (of_char c) \<and> \<not> is_space (of_char c)" if "c \<in> set s" for c
    using assms that by (fastforce simp: is_control_def is_space_def)
  ultimately show ?thesis
    by (auto simp: containsInvalidKeyRune_def list_ex_iff)
qed

lemma valid_string_ascii:
  "(\<forall>c \<in> set s. (of_char c :: nat) < 0x80) \<Longrightarrow> valid_string s"
  by (simp add: valid_string_def runes_ascii)

section \<open>Facts on decimal numerals\<close>

lemma digit_char_inj:
  assumes "digit_char a = digit_char b" and "a < 10" and "b < 10"
  shows "a = b"
proof -
  have "(of_char (digit_char a) :: nat) = of_char (digit_char b)" using assms(1) by simp
  then show ?thesis using assms(2,3) by (simp add: digit_char_def)
qed

lemma itoa_not_Nil [simp]: "itoa n \<noteq> []"
  by (subst itoa.simps) simp

lemma itoa_digits: "c \<in> set (itoa n) \<Longrightarrow> \<exists>d<10. c = digit_char d"
proof (induction n rule: itoa.induct)
  case (1 n)
  show ?case
  proof (cases "n < 10")
    case True
    with "1.prems" show ?thesis by (auto simp: itoa.simps [of n])
  next
    case False
    with "1.prems" have "c \<in> set (itoa (n div 10)) \<or> c = digit_char (n mod 10)"
      by (auto simp: itoa.simps [of n])
    with "1.IH" [OF False] show ?thesis by (metis mod_less_divisor zero_less_numeral)
  qed
qed

lemma colon_not_in_itoa [simp]: "CHR '':'' \<notin> set (itoa n)"
proof
  assume "CHR '':'' \<in> set (itoa n)"
  then obtain d where "d < 10" and "CHR '':'' = digit_char d"
    using itoa_digits by blast
  then have "(of_char (CHR '':'') :: nat) = of_char (digit_char d)" by simp
  with \<open>d < 10\<close> show False by (simp add: digit_char_def)
qed

lemma itoa_inj: "itoa a = itoa b \<Longrightarrow> a = b"
proof (induction a arbitrary: b rule: itoa.induct)
  case (1 a)
  show ?case
  proof (cases "a < 10")
    case True
    then have "itoa b = [digit_char a]" using "1.prems" by (simp add: itoa.simps [of a])
    then have "b < 10" and "digit_char b = digit_char a"
      by (auto simp: itoa.simps [of b] split: if_splits)
    with True show ?thesis using digit_char_inj by metis
  next
    case False
    then have ea: "itoa b = itoa (a div 10) @ [digit_char (a mod 10)]"
      using "1.prems" by (simp add: itoa.simps [of a])
    have "\<not> b < 10"
      using ea itoa_not_Nil [of "a div 10"] by (auto simp: itoa.simps [of b] simp del: itoa_not_Nil)
    then have q: "itoa (a div 10) = itoa (b div 10)"
      and r: "digit_char (a mod 10) = digit_char (b mod 10)"
      using ea by (simp_all add: itoa.simps [of b])
    have "a div 10 = b div 10" by (rule "1.IH" [OF False q])
    moreover have "a mod 10 = b mod 10" by (rule digit_char_inj [OF r]) simp_all
    ultimately show ?thesis by (metis div_mult_mod_eq)
  qed
qed

end
