(* ===== verification/Core_Tenant.thy ===== *)
theory Core_Tenant
  imports Go_Strings
begin

text \<open>
  Tenant identifiers and tenant-scoped keys: \<^verbatim>\<open>core/tenant/tenant.go\<close> and
  \<^verbatim>\<open>core/tenant/key.go\<close>.

  \<open>ValidateID\<close> is the identifier check, \<open>WithID\<close> and \<open>Required\<close> the context plumbing (a
  context is seen here only through the tenant it carries), and \<open>KeyFor\<close> builds the
  length-prefixed key.  Error values keep the sentinel an \<^verbatim>\<open>errors.Is\<close> test would find, not
  the message.  The main result is that \<open>KeyFor\<close> is injective, which is what keeps two
  tenants out of each other's keys in every backend that stores them.
\<close>

section \<open>Identifiers\<close>

datatype tenant_error = ErrTenantMissing | ErrAlreadySet | ErrTenantInvalid | ErrKeyInvalid

definition MaxIDLen :: nat where
  "MaxIDLen = 256"

definition forbiddenBytes :: string where
  "forbiddenBytes = [CHR '':'', CHR ''/'', CHR 0x0A, CHR 0x0D, CHR 0x09, CHR 0x00]"

text \<open>\<^verbatim>\<open>strings.TrimSpace(s) != s\<close>: the first or the last rune is white space.\<close>

definition trim_space_changes :: "string \<Rightarrow> bool" where
  "trim_space_changes s =
     (case runes s of
        None \<Rightarrow> False
      | Some rs \<Rightarrow> rs \<noteq> [] \<and> (is_space (hd rs) \<or> is_space (last rs)))"

definition ValidateID :: "string \<Rightarrow> tenant_error option" where
  "ValidateID s =
     (if s = [] then Some ErrTenantInvalid
      else if length s > MaxIDLen then Some ErrTenantInvalid
      else if trim_space_changes s then Some ErrTenantInvalid
      else case runes s of
             None \<Rightarrow> Some ErrTenantInvalid
           | Some rs \<Rightarrow>
               if list_ex is_space rs then Some ErrTenantInvalid
               else if list_ex (\<lambda>c. c \<in> set forbiddenBytes) s then Some ErrTenantInvalid
               else None)"

definition NewID :: "string \<Rightarrow> tenant_error + string" where
  "NewID s = (case ValidateID s of Some e \<Rightarrow> Inl e | None \<Rightarrow> Inr s)"

section \<open>The tenant of a context\<close>

text \<open>A context carries at most one value under the tenant key.\<close>

type_synonym tenant_ctx = "string option"

definition FromContext :: "tenant_ctx \<Rightarrow> (string \<times> bool)" where
  "FromContext ctx =
     (case ctx of
        None \<Rightarrow> ([], False)
      | Some v \<Rightarrow> if v = [] then ([], False) else (v, True))"

definition WithID :: "tenant_ctx \<Rightarrow> string \<Rightarrow> tenant_ctx \<times> tenant_error option" where
  "WithID ctx tid =
     (if tid = [] then (ctx, None)
      else case FromContext ctx of
             (existing, True) \<Rightarrow>
               if existing \<noteq> tid then (ctx, Some ErrAlreadySet) else (ctx, None)
           | (_, False) \<Rightarrow> (Some tid, None))"

definition Required :: "tenant_ctx \<Rightarrow> tenant_error + string" where
  "Required ctx =
     (case FromContext ctx of
        (tid, True) \<Rightarrow> Inr tid
      | (_, False) \<Rightarrow> Inl ErrTenantMissing)"

section \<open>Tenant-scoped keys\<close>

definition MaxKeyPartLen :: nat where
  "MaxKeyPartLen = 1024"

definition MaxKeyParts :: nat where
  "MaxKeyParts = 32"

definition MaxKeyTotalLen :: nat where
  "MaxKeyTotalLen = 16384"

definition validateKeyPart :: "string \<Rightarrow> bool" where
  "validateKeyPart part \<longleftrightarrow>
     part \<noteq> [] \<and> length part \<le> MaxKeyPartLen \<and> \<not> containsInvalidKeyRune part"

text \<open>\<open>writeKeyField\<close> appends to the builder's contents.\<close>

definition writeKeyField :: "string \<Rightarrow> string \<Rightarrow> string" where
  "writeKeyField b value =
     (if b \<noteq> [] then b @ [CHR '':''] else b) @ itoa (length value) @ [CHR '':''] @ value"

fun writeKeyParts :: "string \<Rightarrow> string list \<Rightarrow> tenant_error + string" where
  "writeKeyParts b [] = Inr b"
| "writeKeyParts b (part # parts) =
     (if \<not> validateKeyPart part then Inl ErrKeyInvalid
      else writeKeyParts (writeKeyField b part) parts)"

definition KeyFor :: "string \<Rightarrow> string list \<Rightarrow> tenant_error + string" where
  "KeyFor tid parts =
     (if tid = [] then Inl ErrTenantMissing
      else if \<not> validateKeyPart tid then Inl ErrKeyInvalid
      else if parts = [] then Inl ErrKeyInvalid
      else if length parts > MaxKeyParts then Inl ErrKeyInvalid
      else case writeKeyParts (writeKeyField ''tenant'' tid) parts of
             Inl e \<Rightarrow> Inl e
           | Inr b \<Rightarrow> if length b > MaxKeyTotalLen then Inl ErrKeyInvalid else Inr b)"

definition Key :: "tenant_ctx \<Rightarrow> string list \<Rightarrow> tenant_error + string" where
  "Key ctx parts = (case Required ctx of Inl e \<Rightarrow> Inl e | Inr tid \<Rightarrow> KeyFor tid parts)"

section \<open>Identifiers and contexts\<close>

lemma ValidateID_ok:
  assumes "ValidateID s = None"
  shows "s \<noteq> []" and "length s \<le> MaxIDLen" and "\<not> (\<exists>c \<in> set s. c \<in> set forbiddenBytes)"
  using assms by (auto simp: ValidateID_def list_ex_iff split: if_splits option.splits)

text \<open>
  Once a context carries a tenant, no sequence of \<open>WithID\<close> calls, whatever
  identifiers they try to stamp, makes \<open>Required\<close> return another one: a request cannot change
  its tenant after the trust boundary resolved it.
\<close>

lemma WithID_keeps_tenant:
  assumes "Required ctx = Inr t"
  shows "Required (fold (\<lambda>tid c. fst (WithID c tid)) tids ctx) = Inr t"
  using assms
proof (induction tids arbitrary: ctx)
  case Nil
  then show ?case by simp
next
  case (Cons tid tids)
  have "fst (WithID ctx tid) = ctx"
    using Cons.prems
    by (auto simp: WithID_def Required_def FromContext_def split: option.splits if_splits)
  with Cons show ?case by simp
qed

lemma WithID_keeps_tenant_example:
  "Required (fold (\<lambda>tid c. fst (WithID c tid)) [''evil'', ''acme'', ''''] (Some ''acme'')) = Inr ''acme''"
proof -
  have "Required (Some ''acme'') = Inr ''acme''"
    by (simp add: Required_def FromContext_def)
  then show ?thesis by (rule WithID_keeps_tenant)
qed

section \<open>Keys\<close>

text \<open>What the builder holds, written as one expression.\<close>

definition key_field :: "string \<Rightarrow> string" where
  "key_field v = CHR '':'' # itoa (length v) @ CHR '':'' # v"

lemma writeKeyField_eq: "b \<noteq> [] \<Longrightarrow> writeKeyField b v = b @ key_field v"
  by (simp add: writeKeyField_def key_field_def)

lemma writeKeyParts_Inr:
  "b \<noteq> [] \<Longrightarrow> writeKeyParts b parts = Inr k \<longleftrightarrow>
     k = b @ concat (map key_field parts) \<and> list_all validateKeyPart parts"
proof (induction parts arbitrary: b)
  case Nil
  then show ?case by auto
next
  case (Cons p ps)
  have "writeKeyField b p \<noteq> []"
    by (simp add: writeKeyField_def)
  from Cons.IH [OF this] show ?case
    using Cons.prems by (auto simp: writeKeyField_eq)
qed

lemma KeyFor_Inr:
  "KeyFor tid parts = Inr k \<longleftrightarrow>
     k = ''tenant'' @ concat (map key_field (tid # parts)) \<and> length k \<le> MaxKeyTotalLen
     \<and> list_all validateKeyPart (tid # parts) \<and> parts \<noteq> [] \<and> length parts \<le> MaxKeyParts"
proof -
  let ?w = "writeKeyParts (writeKeyField ''tenant'' tid) parts"
  have ne: "writeKeyField ''tenant'' tid \<noteq> []"
    by (simp add: writeKeyField_def)
  have w: "?w = Inr b \<longleftrightarrow>
      b = ''tenant'' @ concat (map key_field (tid # parts)) \<and> list_all validateKeyPart parts" for b
    unfolding writeKeyParts_Inr [OF ne] by (simp add: writeKeyField_eq)
  have "KeyFor tid parts = Inr k \<longleftrightarrow>
      validateKeyPart tid \<and> parts \<noteq> [] \<and> length parts \<le> MaxKeyParts
      \<and> ?w = Inr k \<and> length k \<le> MaxKeyTotalLen"
    by (auto simp: KeyFor_def validateKeyPart_def split: sum.splits)
  then show ?thesis
    unfolding w by (simp add: conj_ac)
qed

lemma key_field_append_inj:
  assumes "key_field v @ r = key_field v' @ r'"
  shows "v = v' \<and> r = r'"
proof -
  let ?d = "\<lambda>c. c \<noteq> CHR '':''"
  have split: "takeWhile ?d (itoa n @ CHR '':'' # z) = itoa n" for n z
    by (subst takeWhile_append2) (auto simp: colon_not_in_itoa)
  have eq: "itoa (length v) @ CHR '':'' # v @ r = itoa (length v') @ CHR '':'' # v' @ r'"
    using assms by (simp add: key_field_def)
  then have "itoa (length v) = itoa (length v')"
    by (metis split)
  then have "length v = length v'"
    by (rule itoa_inj)
  with eq show ?thesis by simp
qed

lemma key_fields_inj:
  "concat (map key_field vs) = concat (map key_field vs') \<Longrightarrow> vs = vs'"
proof (induction vs arbitrary: vs')
  case Nil
  then show ?case by (cases vs') (auto simp: key_field_def)
next
  case (Cons v vs)
  then obtain v' ws where vs': "vs' = v' # ws"
    by (cases vs') (auto simp: key_field_def)
  with Cons.prems have "v = v' \<and> concat (map key_field vs) = concat (map key_field ws)"
    by (intro key_field_append_inj) simp
  with Cons.IH vs' show ?case by simp
qed

lemma KeyFor_Inr_inj:
  assumes "KeyFor tid parts = Inr k" and "KeyFor tid' parts' = Inr k"
  shows "tid # parts = tid' # parts'"
proof (rule key_fields_inj)
  show "concat (map key_field (tid # parts)) = concat (map key_field (tid' # parts'))"
    using assms unfolding KeyFor_Inr by simp
qed

text \<open>
  Property C15. Tenant-scoped keys never collide: two successful \<open>KeyFor\<close> calls return the
  same key only for the same tenant and the same parts, whatever colons and digits the
  tenant identifiers and the parts contain.
\<close>

theorem KeyFor_injective:
  assumes "KeyFor tid parts = Inr k" and "KeyFor tid' parts' = Inr k"
  shows "tid = tid' \<and> parts = parts'"
  using KeyFor_Inr_inj [OF assms] by simp

lemma itoa_1_3: "itoa (Suc 0) = ''1''" "itoa (Suc (Suc (Suc 0))) = ''3''"
  by code_simp+

theorem KeyFor_injective_witness:
  "KeyFor ''a:b'' [''c''] = Inr ''tenant:3:a:b:1:c''
   \<and> KeyFor ''a'' [''b:c''] \<noteq> Inr ''tenant:3:a:b:1:c''"
proof -
  have v: "validateKeyPart ''a:b'' \<and> validateKeyPart ''c''"
    by (simp add: validateKeyPart_def MaxKeyPartLen_def containsInvalidKeyRune_ascii)
  have k: "KeyFor ''a:b'' [''c''] = Inr ''tenant:3:a:b:1:c''"
    unfolding KeyFor_Inr
    using v by (simp add: key_field_def itoa_1_3 MaxKeyTotalLen_def MaxKeyParts_def)
  moreover have "KeyFor ''a'' [''b:c''] \<noteq> Inr ''tenant:3:a:b:1:c''"
    using KeyFor_injective [OF k, of "''a''" "[''b:c'']"] by auto
  ultimately show ?thesis by simp
qed

text \<open>
  An identifier the validation admits can be unusable.  The escape character is a
  control code, yet \<open>ValidateID\<close> accepts an identifier that contains it; \<open>KeyFor\<close> rejects every key of
  that tenant.
\<close>

lemma ValidateID_accepts_control:
  "ValidateID [CHR ''a'', CHR 0x1B] = None \<and> (\<forall>parts. KeyFor [CHR ''a'', CHR 0x1B] parts = Inl ErrKeyInvalid)"
proof -
  have r: "runes [CHR ''a'', CHR 0x1B] = Some [97, 27]"
    by (simp add: runes_ascii)
  have "ValidateID [CHR ''a'', CHR 0x1B] = None"
    by (simp add: ValidateID_def MaxIDLen_def trim_space_changes_def r is_space_def forbiddenBytes_def)
  moreover have "\<not> validateKeyPart [CHR ''a'', CHR 0x1B]"
    by (simp add: validateKeyPart_def containsInvalidKeyRune_def r is_control_def)
  ultimately show ?thesis by (simp add: KeyFor_def)
qed

end
