(* ===== verification/Ratelimit.thy ===== *)
theory Ratelimit
  imports Go_Strings
begin

text \<open>
  The rate-limit contract: \<^verbatim>\<open>data/ratelimit/ratelimit.go\<close>.

  \<open>rl_ValidateKey\<close> is the key check of every backend; the locale \<open>limiter\<close> is the interface
  \<^verbatim>\<open>ratelimit.Limiter\<close> with the promises its comment makes about the three kinds of answer.
  \<open>clock_ok\<close> says which clock readings a backend's delay arithmetic is good for.  A backend
  provides the interface by an interpretation (theory \<open>Gcra\<close>); what a caller may rely on is
  proved once from the promises.
\<close>

datatype rl_error = RlInvalidKey | RlInvalidLimiter | RlCtx ctx_error

definition rl_MaxKeyLen :: nat where
  "rl_MaxKeyLen = 256"

definition rl_ValidateKey :: "string \<Rightarrow> rl_error option" where
  "rl_ValidateKey key =
     (if key = [] then Some RlInvalidKey
      else if length key > rl_MaxKeyLen then Some RlInvalidKey
      else if containsInvalidKeyRune key then Some RlInvalidKey
      else None)"

text \<open>The results \<^verbatim>\<open>(allowed, retryAfter, err)\<close> of \<^verbatim>\<open>Allow\<close>.\<close>

type_synonym allow_result = "bool \<times> duration \<times> rl_error option"

locale limiter =
  fixes allow :: "'s \<Rightarrow> ctxt \<Rightarrow> time \<Rightarrow> string \<Rightarrow> allow_result \<times> 's"
    and linv :: "'s \<Rightarrow> bool"
    and clock_ok :: "'s \<Rightarrow> time \<Rightarrow> bool"
  assumes linv_allow: "linv s \<Longrightarrow> linv (snd (allow s ctx now key))"
    and allowed_no_wait: "linv s \<Longrightarrow> fst (allow s ctx now key) = (True, r, e) \<Longrightarrow> r = 0 \<and> e = None"
    and error_no_change: "linv s \<Longrightarrow> fst (allow s ctx now key) = (a, r, Some x) \<Longrightarrow>
          \<not> a \<and> r = 0 \<and> snd (allow s ctx now key) = s"
    and denied_wait: "linv s \<Longrightarrow> clock_ok s now \<Longrightarrow> fst (allow s ctx now key) = (False, r, None) \<Longrightarrow> 0 < r"
begin

text \<open>
  A caller that reads the answer as the comment says sees exactly one of: admitted, throttled
  with a usable delay, failed.
\<close>

lemma allow_cases:
  assumes "linv s" and ok: "clock_ok s now"
  obtains (admitted) "fst (allow s ctx now key) = (True, 0, None)"
  | (throttled) r where "fst (allow s ctx now key) = (False, r, None)" and "0 < r"
  | (failed) e where "fst (allow s ctx now key) = (False, 0, Some e)"
      and "snd (allow s ctx now key) = s"
proof -
  obtain a r e where res: "fst (allow s ctx now key) = (a, r, e)"
    by (cases "fst (allow s ctx now key)")
  show thesis
  proof (cases e)
    case (Some x)
    with res error_no_change [OF assms(1), of ctx now key a r x] show ?thesis
      by (auto intro: failed)
  next
    case None
    show ?thesis
    proof (cases a)
      case True
      with None res allowed_no_wait [OF assms(1), of ctx now key r e] show ?thesis
        by (auto intro: admitted)
    next
      case False
      with None res denied_wait [OF assms(1) ok, of ctx key r] show ?thesis
        by (auto intro: throttled)
    qed
  qed
qed

text \<open>A sequence of calls keeps the limiter in its invariant.\<close>

lemma linv_calls:
  "linv s \<Longrightarrow> linv (fold (\<lambda>(ctx, now, key) t. snd (allow t ctx now key)) calls s)"
  by (induction calls arbitrary: s) (auto intro: linv_allow)

text \<open>The retry delay a caller is given is never negative, so it can be waited for.\<close>

lemma retry_nonneg: "linv s \<Longrightarrow> clock_ok s now \<Longrightarrow> 0 \<le> fst (snd (fst (allow s ctx now key)))"
  by (rule allow_cases [of s now ctx key]) auto

end

end
