(* ===== verification/Gcra.thy ===== *)
theory Gcra
  imports Ratelimit
begin

text \<open>
  The in-memory GCRA limiter: \<^verbatim>\<open>data/ratelimit/gcra/gcra.go\<close>.

  The record \<open>gcra\<close> has the fields of \<^verbatim>\<open>Limiter\<close> that its operations read; a shard is the
  map from keys to theoretical arrival times (TATs).  Each operation takes its shard's mutex
  for its whole body, so it is one step.  The clock reading is an argument, as is every choice
  of the Go runtime: \<open>ks\<close> is the order in which \<^verbatim>\<open>range\<close> visits a shard in a budgeted sweep and
  \<open>pick\<close> says which entry an interrupted \<^verbatim>\<open>range\<close> meets first (any natural number, taken modulo
  the length).  A nil receiver, clock or map only exists in a zero \<^verbatim>\<open>Limiter{}\<close>, whose rate is
  zero, so \<open>gcra_ready\<close> refuses it by the rate.  The sweeper goroutine calls \<open>gcra_sweep\<close> at
  arbitrary times; starting and joining it is not modelled.

  Results: the interface contract (interpretation \<open>gcra_limiter\<close>), the bound on admissions in
  every time window for every run, exactness of the retry delay, the bound on tracked keys, and
  freedom from overflow.
\<close>

section \<open>The limiter\<close>

type_synonym shard = "(string, time) gomap"

record gcra =
  rate :: duration
  burst :: int
  maxKeys :: int
  shards :: "shard list"
  sweepInterval :: duration
  sweepCursor :: "32 word"

definition numShards :: nat where
  "numShards = 16"

definition sweepBudget :: nat where
  "sweepBudget = 256"

definition gcra_defaultMaxKeys :: int where
  "gcra_defaultMaxKeys = 100000"

definition gcra_defaultSweepInterval :: duration where
  "gcra_defaultSweepInterval = 300000000000"

datatype gcra_panic = PanicPeriod | PanicBurst | PanicRateZero | PanicSweeper | PanicMaxKeys

datatype gcra_option = OptSweeper duration | OptNoSweeper | OptMaxKeys int

definition gcra_WithSweeper :: "duration \<Rightarrow> gcra_panic + gcra_option" where
  "gcra_WithSweeper interval = (if interval \<le> 0 then Inl PanicSweeper else Inr (OptSweeper interval))"

definition gcra_WithMaxKeys :: "int \<Rightarrow> gcra_panic + gcra_option" where
  "gcra_WithMaxKeys n = (if n < 0 then Inl PanicMaxKeys else Inr (OptMaxKeys n))"

fun gcra_apply :: "gcra_option \<Rightarrow> gcra \<Rightarrow> gcra" where
  "gcra_apply (OptSweeper d) l = l\<lparr>sweepInterval := d\<rparr>"
| "gcra_apply OptNoSweeper l = l\<lparr>sweepInterval := 0\<rparr>"
| "gcra_apply (OptMaxKeys n) l = l\<lparr>maxKeys := n\<rparr>"

definition gcra_New :: "duration \<Rightarrow> int \<Rightarrow> gcra_option list \<Rightarrow> gcra_panic + gcra" where
  "gcra_New period b opts =
     (if period \<le> 0 then Inl PanicPeriod
      else if b < 1 then Inl PanicBurst
      else let r = div64 period b in
        if r \<le> 0 then Inl PanicRateZero
        else Inr (fold gcra_apply opts
               \<lparr>rate = r, burst = b, maxKeys = gcra_defaultMaxKeys,
                shards = replicate numShards [],
                sweepInterval = gcra_defaultSweepInterval, sweepCursor = 0\<rparr>))"

definition gcra_ready :: "gcra \<Rightarrow> bool" where
  "gcra_ready l \<longleftrightarrow> 0 < rate l \<and> 1 \<le> burst l"

text \<open>\<^verbatim>\<open>hash/fnv\<close>'s 32-bit FNV-1a.\<close>

definition fnv32a :: "string \<Rightarrow> 32 word" where
  "fnv32a s = fold (\<lambda>c h. xor h (of_char c) * 16777619) s 2166136261"

definition shardIndex :: "string \<Rightarrow> nat" where
  "shardIndex key = unat (fnv32a key mod 16)"

definition gcra_sweep :: "string list \<Rightarrow> gcra \<Rightarrow> time \<Rightarrow> gcra" where
  "gcra_sweep ks l now =
     (if \<not> gcra_ready l then l
      else let idx = unat (sweepCursor l mod 16);
               sh = shards l ! idx
           in l\<lparr>sweepCursor := sweepCursor l + 1,
                shards := (shards l)[idx := range_delete (\<lambda>tat. \<not> now < tat) (take sweepBudget ks) sh]\<rparr>)"

definition perShard :: "gcra \<Rightarrow> int" where
  "perShard l =
     (let p = div64 (wrap64 (wrap64 (maxKeys l + 16) - 1)) 16 in if p < 1 then 1 else p)"

lemma length_delete_nth:
  "i < length m \<Longrightarrow> length (AList.delete (fst (m ! i)) m) < length m"
proof (induction m arbitrary: i)
  case Nil
  then show ?case by simp
next
  case (Cons p m)
  show ?case
  proof (cases i)
    case 0
    have "length (AList.delete (fst p) m) \<le> length m" by (rule length_delete_le)
    then show ?thesis using 0 by (cases p) simp
  next
    case (Suc j)
    with Cons have IH: "length (AList.delete (fst (m ! j)) m) < length m" by simp
    then show ?thesis using Suc by (cases p) auto
  qed
qed

text \<open>
  \<^verbatim>\<open>for len(tats) >= perShard { for k := range tats { delete(tats, k); break } }\<close>.
  The bound is at least 1, so the map is never empty while the guard holds.
\<close>

function force_evict :: "(shard \<Rightarrow> nat) \<Rightarrow> int \<Rightarrow> shard \<Rightarrow> shard" where
  "force_evict pick n m =
     (if n \<le> int (length m) \<and> m \<noteq> []
      then force_evict pick n (AList.delete (fst (m ! (pick m mod length m))) m)
      else m)"
  by pat_completeness auto
termination
  by (relation "measure (\<lambda>(pick, n, m). length m)") (auto simp: length_delete_nth)

declare force_evict.simps [simp del]

definition ensureRoomLocked :: "(shard \<Rightarrow> nat) \<Rightarrow> gcra \<Rightarrow> shard \<Rightarrow> time \<Rightarrow> shard" where
  "ensureRoomLocked pick l sh now =
     (if maxKeys l \<le> 0 then sh
      else if int (length sh) < perShard l then sh
      else force_evict pick (perShard l) (range_delete (\<lambda>tat. \<not> now < tat) (map fst sh) sh))"

definition gcra_Allow :: "(shard \<Rightarrow> nat) \<Rightarrow> gcra \<Rightarrow> ctxt \<Rightarrow> time \<Rightarrow> string \<Rightarrow> allow_result \<times> gcra" where
  "gcra_Allow pick l ctx now key =
     (case ctx_obs ctx 0 of
        Some e \<Rightarrow> ((False, 0, Some (RlCtx e)), l)
      | None \<Rightarrow>
     if \<not> gcra_ready l then ((False, 0, Some RlInvalidLimiter), l)
     else (case rl_ValidateKey key of
        Some e \<Rightarrow> ((False, 0, Some e), l)
      | None \<Rightarrow>
     (case ctx_obs ctx 1 of
        Some e \<Rightarrow> ((False, 0, Some (RlCtx e)), l)
      | None \<Rightarrow>
     (let i = shardIndex key;
          sh = shards l ! i;
          (sh', tat) =
            (case map_of sh key of
               None \<Rightarrow> (ensureRoomLocked pick l sh now, now)
             | Some t \<Rightarrow> (sh, if t < now then now else t));
          allowAt = tat + wrap64 (wrap64 (- wrap64 (burst l - 1)) * rate l)
      in if now < allowAt
         then ((False, wrap64 (time_sub allowAt now + 1), None), l\<lparr>shards := (shards l)[i := sh']\<rparr>)
         else ((True, 0, None),
               l\<lparr>shards := (shards l)[i := AList.update key (tat + rate l) sh']\<rparr>)))))"

definition gcra_Len :: "gcra \<Rightarrow> nat" where
  "gcra_Len l = sum_list (map length (shards l))"

section \<open>Runs\<close>

text \<open>
  Operations on a limiter in the order their mutexes are taken: calls of \<^verbatim>\<open>Allow\<close> and ticks of
  the sweeper, each with its clock reading.  A run records the time and key of every admission.
\<close>

datatype gcra_op = OpAllow ctxt string | OpSweep "string list"

fun gcra_step :: "(shard \<Rightarrow> nat) \<Rightarrow> time \<times> gcra_op \<Rightarrow> gcra \<Rightarrow> (time \<times> string) list \<times> gcra" where
  "gcra_step pick (now, OpAllow ctx key) l =
     (case gcra_Allow pick l ctx now key of
        ((a, _, _), l') \<Rightarrow> (if a then [(now, key)] else [], l'))"
| "gcra_step pick (now, OpSweep ks) l = ([], gcra_sweep ks l now)"

fun gcra_run :: "(shard \<Rightarrow> nat) \<Rightarrow> (time \<times> gcra_op) list \<Rightarrow> gcra \<Rightarrow> (time \<times> string) list \<times> gcra" where
  "gcra_run pick [] l = ([], l)"
| "gcra_run pick (op # ops) l =
     (case gcra_step pick op l of
        (log, l') \<Rightarrow> case gcra_run pick ops l' of (log', l'') \<Rightarrow> (log @ log', l''))"

definition admitted_in :: "string \<Rightarrow> time \<Rightarrow> time \<Rightarrow> (time \<times> string) list \<Rightarrow> nat" where
  "admitted_in key s e log = length (filter (\<lambda>(t, k). k = key \<and> s \<le> t \<and> t \<le> e) log)"

definition op_keys :: "(time \<times> gcra_op) list \<Rightarrow> string list" where
  "op_keys ops = concat (map (\<lambda>(_, op). case op of OpAllow _ k \<Rightarrow> [k] | OpSweep _ \<Rightarrow> []) ops)"

section \<open>Invariant\<close>

text \<open>
  What \<open>gcra_New\<close> establishes and every operation keeps: usable parameters whose product fits
  a duration, 16 well-formed shards, and no shard above its share of \<^verbatim>\<open>maxKeys\<close>.
\<close>

definition gcra_inv :: "gcra \<Rightarrow> bool" where
  "gcra_inv l \<longleftrightarrow>
     gcra_ready l \<and> burst l * rate l \<le> i64_max \<and> length (shards l) = 16
     \<and> list_all gm_wf (shards l)
     \<and> (0 < maxKeys l \<longrightarrow> list_all (\<lambda>sh. int (length sh) \<le> perShard l) (shards l))"

text \<open>The TAT stored for a key, and the one \<^verbatim>\<open>Allow\<close> works with at a given time.\<close>

definition gcra_tat :: "gcra \<Rightarrow> string \<Rightarrow> time option" where
  "gcra_tat l k = map_of (shards l ! shardIndex k) k"

definition gcra_eff :: "gcra \<Rightarrow> time \<Rightarrow> string \<Rightarrow> time" where
  "gcra_eff l now k = (case gcra_tat l k of None \<Rightarrow> now | Some t \<Rightarrow> max now t)"

lemma shardIndex_less [simp]: "shardIndex key < 16"
proof -
  have "fnv32a key mod 16 < 16" by (rule word_mod_less_divisor) simp
  then show ?thesis by (simp add: shardIndex_def word_less_nat_alt)
qed

lemma sweep_index_less [simp]: "unat ((c :: 32 word) mod 16) < 16"
proof -
  have "c mod 16 < 16" by (rule word_mod_less_divisor) simp
  then show ?thesis by (simp add: word_less_nat_alt)
qed

lemma perShard_update [simp]:
  "perShard (l\<lparr>shards := x\<rparr>) = perShard l"
  "perShard (l\<lparr>sweepCursor := c\<rparr>) = perShard l"
  by (simp_all add: perShard_def)

lemma gcra_ready_update [simp]:
  "gcra_ready (l\<lparr>shards := x\<rparr>) = gcra_ready l"
  "gcra_ready (l\<lparr>sweepCursor := c\<rparr>) = gcra_ready l"
  by (simp_all add: gcra_ready_def)

lemma perShard_pos: "1 \<le> perShard l"
  by (simp add: perShard_def Let_def)

lemma list_all_update: "list_all P xs \<Longrightarrow> P x \<Longrightarrow> list_all P (xs[i := x])"
  by (auto simp: list_all_iff dest!: set_update_subset_insert [THEN subsetD])

lemma gcra_inv_shards:
  assumes "gcra_inv l" and "gm_wf sh"
    and "0 < maxKeys l \<Longrightarrow> int (length sh) \<le> perShard l"
  shows "gcra_inv (l\<lparr>shards := (shards l)[i := sh]\<rparr>)"
  using assms by (auto simp: gcra_inv_def list_all_update)

lemma gcra_inv_shard:
  assumes "gcra_inv l" and "i < 16"
  shows "gm_wf (shards l ! i)" and "0 < maxKeys l \<Longrightarrow> int (length (shards l ! i)) \<le> perShard l"
  using assms by (auto simp: gcra_inv_def list_all_length)

text \<open>No product or difference in \<^verbatim>\<open>Allow\<close> wraps around.\<close>

lemma gcra_tolerance [i64_simps]:
  assumes "gcra_inv l"
  shows "wrap64 (wrap64 (- wrap64 (burst l - 1)) * rate l) = - ((burst l - 1) * rate l)"
proof -
  have b: "1 \<le> burst l" and r: "1 \<le> rate l" and br: "burst l * rate l \<le> i64_max"
    using assms by (auto simp: gcra_inv_def gcra_ready_def)
  have "burst l * 1 \<le> burst l * rate l"
    by (rule mult_left_mono) (use b r in auto)
  then have "burst l \<le> i64_max" using br by linarith
  moreover have "(burst l - 1) * rate l \<le> burst l * rate l"
    by (rule mult_right_mono) (use r in auto)
  moreover have "0 \<le> (burst l - 1) * rate l"
    using b r by simp
  ultimately have "in_i64 (burst l - 1)" and "in_i64 (- (burst l - 1))"
    and "in_i64 (- ((burst l - 1) * rate l))"
    using b br unfolding in_i64_def by linarith+
  moreover have "- (burst l - 1) * rate l = - ((burst l - 1) * rate l)"
    by (rule mult_minus_left)
  ultimately show ?thesis
    by (simp only: wrap64_id)
qed

section \<open>Eviction\<close>

lemma gm_wf_force_evict: "gm_wf m \<Longrightarrow> gm_wf (force_evict pick n m)"
proof (induction pick n m rule: force_evict.induct)
  case (1 pick n m)
  then show ?case by (simp add: force_evict.simps [of pick n m])
qed

lemma length_force_evict: "1 \<le> n \<Longrightarrow> int (length (force_evict pick n m)) < n"
proof (induction pick n m rule: force_evict.induct)
  case (1 pick n m)
  then show ?case by (auto simp: force_evict.simps [of pick n m])
qed

lemma gm_wf_ensureRoomLocked: "gm_wf sh \<Longrightarrow> gm_wf (ensureRoomLocked pick l sh now)"
  by (simp add: ensureRoomLocked_def gm_wf_force_evict)

lemma length_ensureRoomLocked:
  "0 < maxKeys l \<Longrightarrow> int (length (ensureRoomLocked pick l sh now)) < perShard l"
  by (auto simp: ensureRoomLocked_def intro!: length_force_evict perShard_pos)

section \<open>One call of Allow\<close>

lemma gcra_Allow_error:
  assumes "ctx_obs ctx 0 \<noteq> None \<or> \<not> gcra_ready l \<or> rl_ValidateKey key \<noteq> None \<or> ctx_obs ctx 1 \<noteq> None"
  shows "\<exists>e. gcra_Allow pick l ctx now key = ((False, 0, Some e), l)"
proof (cases "ctx_obs ctx 0")
  case (Some e)
  then show ?thesis by (simp add: gcra_Allow_def)
next
  case None
  with assms show ?thesis
    by (cases "rl_ValidateKey key"; cases "ctx_obs ctx 1") (auto simp: gcra_Allow_def)
qed

abbreviation gcra_proceeds :: "ctxt \<Rightarrow> string \<Rightarrow> bool" where
  "gcra_proceeds ctx key \<equiv> ctx_obs ctx 0 = None \<and> rl_ValidateKey key = None \<and> ctx_obs ctx 1 = None"

lemma gcra_proceedsI:
  assumes "fst (gcra_Allow pick l ctx now key) = (a, r, None)"
  shows "gcra_proceeds ctx key"
proof (rule ccontr)
  assume "\<not> gcra_proceeds ctx key"
  then obtain e where "gcra_Allow pick l ctx now key = ((False, 0, Some e), l)"
    using gcra_Allow_error [of ctx l key pick now] by blast
  with assms show False by simp
qed

text \<open>The state \<^verbatim>\<open>Allow\<close> leaves behind when it throttles and when it admits.\<close>

definition gcra_room :: "(shard \<Rightarrow> nat) \<Rightarrow> gcra \<Rightarrow> time \<Rightarrow> string \<Rightarrow> shard" where
  "gcra_room pick l now key =
     (let sh = shards l ! shardIndex key in
      if gcra_tat l key = None then ensureRoomLocked pick l sh now else sh)"

lemma gcra_Allow_denied:
  assumes "gcra_inv l" and "gcra_proceeds ctx key"
    and "now < gcra_eff l now key - (burst l - 1) * rate l"
  shows "gcra_Allow pick l ctx now key =
     ((False, wrap64 (time_sub (gcra_eff l now key - (burst l - 1) * rate l) now + 1), None), l)"
proof -
  have r: "gcra_ready l" using assms(1) by (simp add: gcra_inv_def)
  have "0 \<le> (burst l - 1) * rate l"
    using r by (simp add: gcra_ready_def)
  then obtain t where t: "gcra_tat l key = Some t" and "now < t"
    using assms(3) by (auto simp: gcra_eff_def split: option.splits)
  then show ?thesis
    using assms r by (simp add: gcra_Allow_def gcra_tat_def gcra_eff_def gcra_tolerance max_def)
qed

lemma gcra_Allow_admitted:
  assumes "gcra_inv l" and "gcra_proceeds ctx key"
    and "\<not> now < gcra_eff l now key - (burst l - 1) * rate l"
  shows "gcra_Allow pick l ctx now key =
     ((True, 0, None),
      l\<lparr>shards := (shards l)[shardIndex key :=
          AList.update key (gcra_eff l now key + rate l) (gcra_room pick l now key)]\<rparr>)"
proof -
  have r: "gcra_ready l" using assms(1) by (simp add: gcra_inv_def)
  show ?thesis
    using assms r
    by (cases "gcra_tat l key")
       (auto simp: gcra_Allow_def gcra_tat_def gcra_eff_def gcra_room_def gcra_tolerance max_def Let_def)
qed

lemma gcra_deniedD:
  assumes "gcra_inv l" and "fst (gcra_Allow pick l ctx now key) = (False, r, None)"
  shows "now < gcra_eff l now key - (burst l - 1) * rate l"
proof (rule ccontr)
  assume *: "\<not> ?thesis"
  have "fst (gcra_Allow pick l ctx now key) = (True, 0, None)"
    by (simp add: gcra_Allow_admitted [OF assms(1) gcra_proceedsI [OF assms(2)] *])
  with assms(2) show False by simp
qed

lemma gcra_inv_Allow: "gcra_inv l \<Longrightarrow> gcra_inv (snd (gcra_Allow pick l ctx now key))"
proof -
  assume inv: "gcra_inv l"
  then have r: "gcra_ready l" by (simp add: gcra_inv_def)
  let ?i = "shardIndex key"
  have wf: "gm_wf (shards l ! ?i)" and len: "0 < maxKeys l \<Longrightarrow> int (length (shards l ! ?i)) \<le> perShard l"
    using gcra_inv_shard [OF inv, of ?i] by auto
  let ?u = "AList.update key (gcra_eff l now key + rate l) (gcra_room pick l now key)"
  show ?thesis
  proof (cases "gcra_proceeds ctx key")
    case False
    then obtain e where "gcra_Allow pick l ctx now key = ((False, 0, Some e), l)"
      using gcra_Allow_error [of ctx l key pick now] by auto
    with inv show ?thesis by simp
  next
    case go: True
    have "gm_wf ?u"
      using wf by (auto simp: gcra_room_def Let_def gm_wf_ensureRoomLocked)
    moreover have "int (length ?u) \<le> perShard l" if "0 < maxKeys l"
      using len [OF that] length_ensureRoomLocked [OF that, of pick "shards l ! ?i" now]
      by (auto simp: gcra_room_def Let_def gcra_tat_def length_gm_update)
    ultimately show ?thesis
      using gcra_Allow_denied [OF inv go, of now pick] gcra_Allow_admitted [OF inv go, of now pick] inv
      by (cases "now < gcra_eff l now key - (burst l - 1) * rate l") (auto intro: gcra_inv_shards)
  qed
qed

lemma gcra_inv_sweep: "gcra_inv l \<Longrightarrow> gcra_inv (gcra_sweep ks l now)"
proof -
  assume inv: "gcra_inv l"
  let ?i = "unat (sweepCursor l mod 16)"
  let ?sh = "range_delete (\<lambda>tat. \<not> now < tat) (take sweepBudget ks) (shards l ! ?i)"
  have "gm_wf ?sh"
    by (rule gm_wf_range_delete) (rule gcra_inv_shard [OF inv sweep_index_less])
  moreover have "int (length ?sh) \<le> perShard l" if "0 < maxKeys l"
    using gcra_inv_shard(2) [OF inv sweep_index_less that]
      length_range_delete [of "\<lambda>tat. \<not> now < tat" "take sweepBudget ks" "shards l ! ?i"]
    by (meson of_nat_mono order_trans)
  ultimately have "gcra_inv (l\<lparr>shards := (shards l)[?i := ?sh]\<rparr>)"
    by (intro gcra_inv_shards inv)
  then show ?thesis
    by (auto simp: gcra_sweep_def Let_def gcra_inv_def)
qed

text \<open>A new limiter satisfies the invariant, whatever options it is given.\<close>

lemma gcra_apply_keeps:
  "rate (gcra_apply opt l) = rate l" "burst (gcra_apply opt l) = burst l" "shards (gcra_apply opt l) = shards l"
  by (cases opt; simp)+

lemma gcra_fold_apply_keeps:
  "rate (fold gcra_apply opts l) = rate l" "burst (fold gcra_apply opts l) = burst l"
  "shards (fold gcra_apply opts l) = shards l"
  by (induction opts arbitrary: l) (simp_all add: gcra_apply_keeps)

lemma gcra_New_fields:
  assumes "gcra_New period b opts = Inr l" and "in_i64 period"
  shows "rate l = period div b" and "burst l = b" and "shards l = replicate 16 []"
    and "0 < rate l" and "1 \<le> b"
proof -
  have p: "0 < period" and b: "1 \<le> b"
    using assms(1) by (auto simp: gcra_New_def Let_def split: if_splits)
  have d: "div64 period b = period div b"
    by (rule div64_nonneg) (use p b assms(2) in auto)
  show "rate l = period div b" "burst l = b" "shards l = replicate 16 []" "0 < rate l" "1 \<le> b"
    using assms(1) p b d
    by (auto simp: gcra_New_def Let_def gcra_fold_apply_keeps numShards_def split: if_splits)
qed

lemma gcra_inv_New:
  assumes "gcra_New period b opts = Inr l" and "in_i64 period"
  shows "gcra_inv l"
proof -
  note f = gcra_New_fields [OF assms]
  have "b * (period div b) \<le> period"
    using f(5) by (metis mult.commute div_mult_mod_eq add.commute le_add_same_cancel2 pos_mod_sign
        zero_less_one order_less_le_trans)
  then have "burst l * rate l \<le> i64_max"
    using assms(2) by (simp add: f(1,2) in_i64_def)
  moreover have "0 \<le> perShard l" using perShard_pos [of l] by linarith
  ultimately show ?thesis
    using f by (simp add: gcra_inv_def gcra_ready_def list_all_length)
qed

section \<open>The interface contract\<close>

definition gcra_clock_ok :: "gcra \<Rightarrow> time \<Rightarrow> bool" where
  "gcra_clock_ok l now \<longleftrightarrow> list_all (list_all (\<lambda>(_, t). t - now < i64_max)) (shards l)"

lemma gcra_clock_okD:
  assumes "gcra_clock_ok l now" and "gcra_inv l" and "gcra_tat l key = Some t"
  shows "t - now < i64_max"
proof -
  have "(key, t) \<in> set (shards l ! shardIndex key)"
    using assms(3) by (simp add: gcra_tat_def map_of_SomeD)
  moreover have "shards l ! shardIndex key \<in> set (shards l)"
    using assms(2) by (intro nth_mem) (simp add: gcra_inv_def)
  ultimately show ?thesis
    using assms(1) by (force simp: gcra_clock_ok_def list_all_iff)
qed

text \<open>When the arithmetic of the delay is exact.\<close>

lemma gcra_wait_exact:
  assumes "gcra_inv l" and "gcra_clock_ok l now" and "now < gcra_eff l now key - (burst l - 1) * rate l"
  shows "wrap64 (time_sub (gcra_eff l now key - (burst l - 1) * rate l) now + 1)
         = gcra_eff l now key - (burst l - 1) * rate l - now + 1"
proof -
  have tol: "0 \<le> (burst l - 1) * rate l"
    using assms(1) by (simp add: gcra_inv_def gcra_ready_def)
  then have "gcra_eff l now key - now < i64_max"
    using assms gcra_clock_okD [OF assms(2,1), of key]
    by (auto simp: gcra_eff_def max_def split: option.splits if_splits)
  then have "in_i64 (gcra_eff l now key - (burst l - 1) * rate l - now)"
    and "in_i64 (gcra_eff l now key - (burst l - 1) * rate l - now + 1)"
    using tol assms(3) by (simp_all add: in_i64_def)
  then show ?thesis by (simp add: time_sub_in wrap64_id)
qed


text \<open>A concrete limiter, for 2 events per second, and its state after two admissions at time 0.\<close>

definition gcra_ex :: gcra where
  "gcra_ex = \<lparr>rate = 500000000, burst = 2, maxKeys = 100000, shards = replicate 16 [],
              sweepInterval = 300000000000, sweepCursor = 0\<rparr>"

definition gcra_ex2 :: gcra where
  "gcra_ex2 = gcra_ex\<lparr>shards := (shards gcra_ex)[shardIndex ''u'' := [(''u'', 1000000000)]]\<rparr>"

lemma gcra_ex_fields: "rate gcra_ex = 500000000" "burst gcra_ex = 2" "maxKeys gcra_ex = 100000"
  by (simp_all add: gcra_ex_def)

lemma gcra_New_ex: "gcra_New 1000000000 2 [] = Inr gcra_ex"
  by (simp add: gcra_New_def gcra_ex_def div64_nonneg in_i64_def Let_def gcra_defaultMaxKeys_def
      gcra_defaultSweepInterval_def numShards_def)

lemma gcra_inv_ex: "gcra_inv gcra_ex"
  by (rule gcra_inv_New [OF gcra_New_ex]) (simp add: in_i64_def)

lemma gcra_inv_ex2: "gcra_inv gcra_ex2"
  unfolding gcra_ex2_def
  by (rule gcra_inv_shards [OF gcra_inv_ex]) (use perShard_pos [of gcra_ex] in \<open>simp_all add: gm_wf_def\<close>)

lemma gcra_clock_ok_ex2: "gcra_clock_ok gcra_ex2 0"
proof -
  have "list_all (list_all (\<lambda>(_, t). t - 0 < i64_max))
          ((replicate 16 [])[shardIndex ''u'' := [(''u'', 1000000000)]])"
    by (rule list_all_update) (simp_all add: list_all_iff)
  then show ?thesis by (simp add: gcra_clock_ok_def gcra_ex2_def gcra_ex_def)
qed

lemma gcra_ex2_denied: "gcra_Allow pick gcra_ex2 background 0 ''u'' = ((False, 500000001, None), gcra_ex2)"
proof -
  have k: "gcra_proceeds background ''u''"
    by (simp add: rl_ValidateKey_def rl_MaxKeyLen_def containsInvalidKeyRune_ascii)
  have e: "gcra_eff gcra_ex2 0 ''u'' = 1000000000" "burst gcra_ex2 = 2" "rate gcra_ex2 = 500000000"
    by (simp_all add: gcra_eff_def gcra_tat_def gcra_ex2_def gcra_ex_def)
  show ?thesis
    using gcra_Allow_denied [OF gcra_inv_ex2 k, of 0 pick]
    by (simp add: e time_sub_def wrap64_id in_i64_def)
qed



section \<open>The retry delay\<close>

text \<open>
  Property C17. The delay of a throttled call is exact up to the nanosecond that is added to it: the
  call leaves the limiter as it was, the delay is positive, and a retry with nothing in between is
  admitted exactly if it comes no earlier than one nanosecond before \<^verbatim>\<open>now + retryAfter\<close>; every
  earlier one is throttled again.
\<close>

theorem gcra_retryAfter_exact:
  assumes inv: "gcra_inv l" and ok: "gcra_clock_ok l now"
    and res: "gcra_Allow pick l ctx now key = ((False, r, None), l')"
  shows "l' = l \<and> 0 < r
    \<and> (\<forall>now'. now \<le> now' \<longrightarrow>
          (if now + r - 1 \<le> now' then fst (gcra_Allow pick l' ctx now' key) = (True, 0, None)
           else \<exists>r'. fst (gcra_Allow pick l' ctx now' key) = (False, r', None)))"
proof -
  let ?tol = "(burst l - 1) * rate l"
  have go: "gcra_proceeds ctx key"
    using res by (intro gcra_proceedsI [of pick l ctx now key False r]) simp
  have denied: "now < gcra_eff l now key - ?tol"
    by (rule gcra_deniedD [OF inv, of pick ctx _ _ r]) (simp add: res)
  then have l': "l' = l" and r: "r = gcra_eff l now key - ?tol - now + 1"
    using res gcra_Allow_denied [OF inv go, of now pick] gcra_wait_exact [OF inv ok denied] by auto
  have tol: "0 \<le> ?tol" using inv by (simp add: gcra_inv_def gcra_ready_def)
  obtain t where t: "gcra_tat l key = Some t" and "now < t" and eff: "gcra_eff l now key = t"
    using denied tol by (auto simp: gcra_eff_def max_def split: option.splits if_splits)
  have lim: "now' < gcra_eff l now' key - ?tol \<longleftrightarrow> now' < now + r - 1" if "now \<le> now'" for now'
    using t tol \<open>now < t\<close> that by (auto simp: gcra_eff_def r max_def)
  have "if now + r - 1 \<le> now' then fst (gcra_Allow pick l ctx now' key) = (True, 0, None)
      else \<exists>r'. fst (gcra_Allow pick l ctx now' key) = (False, r', None)" if "now \<le> now'" for now'
    using lim [OF that] gcra_Allow_admitted [OF inv go, of now' pick] gcra_Allow_denied [OF inv go, of now' pick]
    by (cases "now + r - 1 \<le> now'") simp_all
  moreover have "0 < r" using r denied by simp
  ultimately show ?thesis unfolding l' by blast
qed

theorem gcra_retryAfter_exact_witness:
  "fst (gcra_Allow (\<lambda>_. 0) gcra_ex2 background 500000000 ''u'') = (True, 0, None)
   \<and> (\<exists>r. fst (gcra_Allow (\<lambda>_. 0) gcra_ex2 background 499999999 ''u'') = (False, r, None))"
proof -
  note ex = gcra_retryAfter_exact [OF gcra_inv_ex2 gcra_clock_ok_ex2 gcra_ex2_denied [of "\<lambda>_. 0"]]
  show ?thesis
    using spec [OF conjunct2 [OF conjunct2 [OF ex]], of 499999999] spec [OF conjunct2 [OF conjunct2 [OF ex]], of 500000000]
    by simp
qed

section \<open>The rate bound\<close>

lemma gcra_tat_shard_update:
  assumes "gcra_inv l"
  shows "gcra_tat (l\<lparr>shards := (shards l)[i := sh]\<rparr>) k =
         (if i = shardIndex k then map_of sh k else gcra_tat l k)"
  using assms by (auto simp: gcra_tat_def gcra_inv_def nth_list_update)

lemma gcra_eff_sweep:
  assumes "gcra_inv l"
  shows "gcra_eff (gcra_sweep ks l now) now k = gcra_eff l now k"
proof -
  let ?i = "unat (sweepCursor l mod 16)"
  let ?sh = "range_delete (\<lambda>tat. \<not> now < tat) (take sweepBudget ks) (shards l ! ?i)"
  have "gcra_tat (gcra_sweep ks l now) k = gcra_tat (l\<lparr>shards := (shards l)[?i := ?sh]\<rparr>) k"
    using assms by (simp add: gcra_sweep_def Let_def gcra_inv_def gcra_tat_def)
  also have "\<dots> = (if ?i = shardIndex k then map_of ?sh k else gcra_tat l k)"
    by (rule gcra_tat_shard_update [OF assms])
  finally show ?thesis
    by (auto simp: gcra_eff_def gcra_tat_def gomap_simps split: option.splits)
qed

text \<open>No live entry is dropped for lack of room as long as the keys in use fit their shard.\<close>

definition gcra_fits :: "string set \<Rightarrow> gcra \<Rightarrow> bool" where
  "gcra_fits K l \<longleftrightarrow>
     finite K \<and> (0 < maxKeys l \<longrightarrow> int (card K) \<le> perShard l)
     \<and> (\<forall>sh \<in> set (shards l). fst ` set sh \<subseteq> K)"

lemma gcra_room_fits:
  assumes "gcra_inv l" and "gcra_fits K l" and "key \<in> K"
  shows "gcra_room pick l now key = shards l ! shardIndex key"
proof -
  let ?sh = "shards l ! shardIndex key"
  have mem: "?sh \<in> set (shards l)"
    using assms(1) by (intro nth_mem) (simp add: gcra_inv_def)
  have "int (length ?sh) < perShard l" if "gcra_tat l key = None" "0 < maxKeys l"
  proof -
    have "key \<notin> fst ` set ?sh"
      using that(1) by (simp add: gcra_tat_def map_of_eq_None_iff)
    then have "fst ` set ?sh \<subset> K"
      using assms(2,3) mem by (auto simp: gcra_fits_def)
    then have "card (fst ` set ?sh) < card K"
      using assms(2) by (intro psubset_card_mono) (auto simp: gcra_fits_def)
    moreover have "card (fst ` set ?sh) = length ?sh"
      using gcra_inv_shard(1) [OF assms(1), of "shardIndex key"]
      by (simp add: gm_wf_def distinct_card flip: set_map)
    ultimately show ?thesis
      using assms(2) that(2) by (auto simp: gcra_fits_def)
  qed
  then show ?thesis
    by (auto simp: gcra_room_def Let_def ensureRoomLocked_def)
qed

lemma gcra_step_params:
  "rate (snd (gcra_step pick op l)) = rate l \<and> burst (snd (gcra_step pick op l)) = burst l
   \<and> maxKeys (snd (gcra_step pick op l)) = maxKeys l"
  by (induction pick op l rule: gcra_step.induct)
     (auto simp: gcra_Allow_def gcra_sweep_def Let_def split: option.splits prod.splits if_splits)

lemma gcra_inv_step: "gcra_inv l \<Longrightarrow> gcra_inv (snd (gcra_step pick op l))"
proof (induction pick op l rule: gcra_step.induct)
  case (1 pick now ctx key l)
  then show ?case
    using gcra_inv_Allow [of l pick ctx now key] by (auto split: prod.splits)
next
  case (2 pick now ks l)
  then show ?case by (simp add: gcra_inv_sweep)
qed

lemma gcra_fits_shards:
  assumes "gcra_fits K l" and "fst ` set sh \<subseteq> K"
  shows "gcra_fits K (l\<lparr>shards := (shards l)[i := sh]\<rparr>)"
proof -
  have "set ((shards l)[i := sh]) \<subseteq> insert sh (set (shards l))"
    by (rule set_update_subset_insert)
  then have "\<forall>x \<in> set ((shards l)[i := sh]). fst ` set x \<subseteq> K"
    using assms unfolding gcra_fits_def by blast
  with assms(1) show ?thesis by (simp add: gcra_fits_def)
qed

lemma keys_range_delete: "fst ` set (range_delete p ks m) \<subseteq> fst ` set m"
proof
  fix k
  assume "k \<in> fst ` set (range_delete p ks m)"
  then obtain v where "map_of (range_delete p ks m) k = Some v"
    by (auto simp: gm_key_iff)
  then show "k \<in> fst ` set m"
    by (auto simp: gm_key_iff get_range_delete split: option.splits if_splits)
qed

lemma gcra_fits_nth:
  assumes "gcra_inv l" and "gcra_fits K l" and "i < 16"
  shows "fst ` set (shards l ! i) \<subseteq> K"
proof -
  have "shards l ! i \<in> set (shards l)"
    using assms by (intro nth_mem) (simp add: gcra_inv_def)
  with assms(2) show ?thesis by (simp add: gcra_fits_def)
qed

lemma gcra_fits_step:
  assumes inv: "gcra_inv l" and fits: "gcra_fits K l" and keys: "set (op_keys [op]) \<subseteq> K"
  shows "gcra_fits K (snd (gcra_step pick op l))"
proof (cases op)
  case (Pair now x)
  show ?thesis
  proof (cases x)
    case (OpAllow ctx key)
    with keys Pair have key: "key \<in> K" by (simp add: op_keys_def)
    have sub: "fst ` set (AList.update key v (gcra_room pick l now key)) \<subseteq> K" for v
      using gcra_fits_nth [OF inv fits, of "shardIndex key"] key
      by (simp add: gcra_room_fits [OF inv fits key] dom_update)
    show ?thesis
    proof (cases "gcra_proceeds ctx key")
      case False
      then obtain e where "gcra_Allow pick l ctx now key = ((False, 0, Some e), l)"
        using gcra_Allow_error [of ctx l key pick now] by blast
      with Pair OpAllow fits show ?thesis by simp
    next
      case True
      show ?thesis
        using Pair OpAllow fits gcra_Allow_denied [OF inv True, of now pick]
          gcra_Allow_admitted [OF inv True, of now pick] gcra_fits_shards [OF fits sub]
        by (cases "now < gcra_eff l now key - (burst l - 1) * rate l") auto
    qed
  next
    case (OpSweep ks)
    let ?i = "unat (sweepCursor l mod 16)"
    have "fst ` set (range_delete (\<lambda>tat. \<not> now < tat) (take sweepBudget ks) (shards l ! ?i)) \<subseteq> K"
      using keys_range_delete gcra_fits_nth [OF inv fits sweep_index_less] by (rule order_trans)
    from gcra_fits_shards [OF fits this, of ?i] show ?thesis
      using Pair OpSweep fits by (auto simp: gcra_sweep_def Let_def gcra_fits_def)
  qed
qed

text \<open>
  One operation seen from one key: it either admits the key, within the tolerance and moving its
  TAT by exactly one emission interval, or leaves the TAT that counts as it was.
\<close>

lemma gcra_step_view:
  assumes inv: "gcra_inv l" and fits: "gcra_fits K l" and keys: "set (op_keys [(t, op)]) \<subseteq> K"
  shows "(fst (gcra_step pick (t, op) l) = [(t, k)]
           \<and> gcra_eff l t k \<le> t + (burst l - 1) * rate l
           \<and> gcra_eff (snd (gcra_step pick (t, op) l)) t k = gcra_eff l t k + rate l)
       \<or> (filter (\<lambda>(_, k'). k' = k) (fst (gcra_step pick (t, op) l)) = []
           \<and> gcra_eff (snd (gcra_step pick (t, op) l)) t k = gcra_eff l t k)"
proof (cases op)
  case (OpSweep ks)
  then show ?thesis using gcra_eff_sweep [OF inv] by simp
next
  case (OpAllow ctx key)
  with keys have key: "key \<in> K" by (simp add: op_keys_def)
  have rpos: "0 < rate l" using inv by (simp add: gcra_inv_def gcra_ready_def)
  show ?thesis
  proof (cases "gcra_proceeds ctx key")
    case False
    then obtain e where "gcra_Allow pick l ctx t key = ((False, 0, Some e), l)"
      using gcra_Allow_error [of ctx l key pick t] by blast
    with OpAllow show ?thesis by simp
  next
    case go: True
    show ?thesis
    proof (cases "t < gcra_eff l t key - (burst l - 1) * rate l")
      case True
      from gcra_Allow_denied [OF inv go True, of pick] show ?thesis
        using OpAllow by simp
    next
      case False
      let ?l = "l\<lparr>shards := (shards l)[shardIndex key :=
          AList.update key (gcra_eff l t key + rate l) (shards l ! shardIndex key)]\<rparr>"
      have step: "gcra_step pick (t, op) l = ([(t, key)], ?l)"
        using gcra_Allow_admitted [OF inv go False, of pick] OpAllow
        by (simp add: gcra_room_fits [OF inv fits key])
      have tat: "gcra_tat ?l k = (if k = key then Some (gcra_eff l t key + rate l) else gcra_tat l k)"
        by (auto simp: gcra_tat_shard_update [OF inv] gomap_simps) (simp add: gcra_tat_def)
      have "t \<le> gcra_eff l t key" by (auto simp: gcra_eff_def split: option.splits)
      then have "gcra_eff ?l t k = (if k = key then gcra_eff l t key + rate l else gcra_eff l t k)"
        using rpos by (simp add: gcra_eff_def [of ?l] gcra_eff_def [of l t k] tat)
      with step False show ?thesis by auto
    qed
  qed
qed

text \<open>What a call that reaches the decision does, as one equation per field.\<close>

lemma gcra_step_Allow:
  assumes inv: "gcra_inv l" and fits: "gcra_fits K l" and key: "key \<in> K" and go: "gcra_proceeds ctx key"
  shows "fst (gcra_step pick (t, OpAllow ctx key) l) =
           (if gcra_eff l t key \<le> t + (burst l - 1) * rate l then [(t, key)] else [])"
    and "gcra_tat (snd (gcra_step pick (t, OpAllow ctx key) l)) key =
           (if gcra_eff l t key \<le> t + (burst l - 1) * rate l then Some (gcra_eff l t key + rate l)
            else gcra_tat l key)"
proof -
  show "fst (gcra_step pick (t, OpAllow ctx key) l) =
           (if gcra_eff l t key \<le> t + (burst l - 1) * rate l then [(t, key)] else [])"
    using gcra_Allow_admitted [OF inv go, of t pick] gcra_Allow_denied [OF inv go, of t pick]
    by (cases "gcra_eff l t key \<le> t + (burst l - 1) * rate l") simp_all
  show "gcra_tat (snd (gcra_step pick (t, OpAllow ctx key) l)) key =
           (if gcra_eff l t key \<le> t + (burst l - 1) * rate l then Some (gcra_eff l t key + rate l)
            else gcra_tat l key)"
    using gcra_Allow_admitted [OF inv go, of t pick] gcra_Allow_denied [OF inv go, of t pick]
    by (cases "gcra_eff l t key \<le> t + (burst l - 1) * rate l")
       (simp_all add: gcra_tat_shard_update [OF inv] gomap_simps)
qed

text \<open>A limiter that only one key uses, and its next state.\<close>

definition gcra_single :: "string \<Rightarrow> duration \<Rightarrow> int \<Rightarrow> gcra \<Rightarrow> bool" where
  "gcra_single key r b l \<longleftrightarrow> gcra_inv l \<and> gcra_fits {key} l \<and> rate l = r \<and> burst l = b"

lemma gcra_single_step:
  assumes "gcra_single key r b l" and "gcra_proceeds ctx key"
  shows "\<exists>l'. gcra_step pick (t, OpAllow ctx key) l =
             (if gcra_eff l t key \<le> t + (b - 1) * r then [(t, key)] else [], l')
           \<and> gcra_single key r b l'
           \<and> gcra_tat l' key =
               (if gcra_eff l t key \<le> t + (b - 1) * r then Some (gcra_eff l t key + r)
                else gcra_tat l key)"
proof -
  let ?l = "snd (gcra_step pick (t, OpAllow ctx key) l)"
  have inv: "gcra_inv l" and fits: "gcra_fits {key} l" and p: "rate l = r" "burst l = b"
    using assms(1) by (simp_all add: gcra_single_def)
  have "gcra_fits {key} ?l"
    by (rule gcra_fits_step [OF inv fits]) (simp add: op_keys_def)
  then have "gcra_single key r b ?l"
    using gcra_inv_step [OF inv] gcra_step_params [of pick "(t, OpAllow ctx key)" l] p
    by (simp add: gcra_single_def del: gcra_step.simps)
  then show ?thesis
    using gcra_step_Allow [OF inv fits singletonI assms(2), of pick t] p
    by (intro exI [of _ ?l]) (simp add: prod_eq_iff del: gcra_step.simps)
qed

declare gcra_step.simps [simp del]

lemma gcra_eff_mono: "t \<le> t' \<Longrightarrow> gcra_eff l t k \<le> gcra_eff l t' k"
  by (auto simp: gcra_eff_def split: option.splits)

lemma admitted_in_append:
  "admitted_in k s e (xs @ ys) = admitted_in k s e xs + admitted_in k s e ys"
  by (simp add: admitted_in_def)

lemma admitted_in_other:
  "filter (\<lambda>(_, k'). k' = k) log = [] \<Longrightarrow> admitted_in k s e log = 0"
  by (induction log) (auto simp: admitted_in_def split: if_splits)

lemma admitted_in_single:
  "admitted_in k s e [(t, k')] = (if k' = k \<and> s \<le> t \<and> t \<le> e then 1 else 0)"
  by (simp add: admitted_in_def)

text \<open>
  The budget argument: \<open>n\<close> admissions already seen in the window have pushed the TAT at least
  \<open>n\<close> intervals past the window's start, and no admission pushes it more than the burst past
  the current time.
\<close>

lemma gcra_run_bound:
  assumes "gcra_inv l" and "gcra_fits K l" and "set (op_keys ops) \<subseteq> K"
    and "sorted (map fst ops)" and "\<forall>op \<in> set ops. t0 \<le> fst op"
    and "int n * rate l \<le> max s (gcra_eff l t0 k) - s"
    and "int n * rate l \<le> (e - s) + burst l * rate l"
  shows "(int n + int (admitted_in k s e (fst (gcra_run pick ops l)))) * rate l
         \<le> (e - s) + burst l * rate l"
  using assms
proof (induction ops arbitrary: l t0 n)
  case Nil
  then show ?case by (simp add: admitted_in_def)
next
  case (Cons x ops)
  obtain t op where x: "x = (t, op)" by (cases x)
  let ?log = "fst (gcra_step pick (t, op) l)" and ?l = "snd (gcra_step pick (t, op) l)"
  let ?a = "admitted_in k s e ?log"
  have keys: "set (op_keys [(t, op)]) \<subseteq> K" "set (op_keys ops) \<subseteq> K"
    using Cons.prems(3) x by (auto simp: op_keys_def)
  have r: "rate ?l = rate l" "burst ?l = burst l"
    using gcra_step_params [of pick "(t, op)" l] by simp_all
  have t: "t0 \<le> t" using Cons.prems(5) x by simp
  have n: "int n * rate l \<le> max s (gcra_eff l t k) - s"
    using Cons.prems(6) gcra_eff_mono [OF t, of l k] by linarith
  have view: "?a = 0 \<and> gcra_eff l t k \<le> gcra_eff ?l t k
      \<or> ?a = 1 \<and> s \<le> t \<and> t \<le> e \<and> gcra_eff l t k \<le> t + (burst l - 1) * rate l
         \<and> gcra_eff ?l t k = gcra_eff l t k + rate l"
    using gcra_step_view [OF Cons.prems(1,2) keys(1), of pick k] Cons.prems(1)
    by (auto simp: admitted_in_other admitted_in_single gcra_inv_def gcra_ready_def split: if_splits)
  have "t \<le> gcra_eff l t k" by (auto simp: gcra_eff_def split: option.splits)
  then have n1: "int (n + ?a) * rate l \<le> max s (gcra_eff ?l t k) - s"
    and n2: "int (n + ?a) * rate l \<le> (e - s) + burst l * rate l"
    using view n Cons.prems(7) by (auto simp: algebra_simps)
  have "(int (n + ?a) + int (admitted_in k s e (fst (gcra_run pick ops ?l)))) * rate ?l
        \<le> (e - s) + burst ?l * rate ?l"
    by (rule Cons.IH [of ?l t "n + ?a"])
       (use Cons.prems x keys n1 n2 r gcra_inv_step gcra_fits_step in auto)
  then show ?case
    using x r by (auto simp: admitted_in_append algebra_simps split: prod.splits)
qed

text \<open>
  Property C1. The rate bound: in every run of a new limiter with a clock that does not go back,
  whatever the contexts, the sweeps, the other keys and the choices of the runtime, the
  admissions of a key in a window of length \<^verbatim>\<open>e - s\<close> number at most
  \<^verbatim>\<open>burst + (e - s) / rate\<close>.  The keys of the run must fit one shard's share of
  \<^verbatim>\<open>maxKeys\<close> (or the cap be disabled), since a full shard forgets live keys by design.
\<close>

theorem gcra_rate_bound:
  assumes new: "gcra_New period b opts = Inr l" and per: "in_i64 period"
    and sorted: "sorted (map fst ops)"
    and fits: "maxKeys l \<le> 0 \<or> int (card (set (op_keys ops))) \<le> perShard l"
    and "s \<le> e"
  shows "int (admitted_in key s e (fst (gcra_run pick ops l))) * rate l \<le> (e - s) + b * rate l"
proof -
  note f = gcra_New_fields [OF new per]
  have inv: "gcra_inv l" by (rule gcra_inv_New [OF new per])
  have K: "gcra_fits (set (op_keys ops)) l"
    using fits by (auto simp: gcra_fits_def f(3))
  let ?t0 = "case ops of [] \<Rightarrow> s | op # _ \<Rightarrow> fst op"
  have t0: "\<forall>op \<in> set ops. ?t0 \<le> fst op"
    using sorted by (cases ops) auto
  have "(int 0 + int (admitted_in key s e (fst (gcra_run pick ops l)))) * rate l
        \<le> (e - s) + burst l * rate l"
    by (rule gcra_run_bound [OF inv K order_refl sorted t0]) (use f \<open>s \<le> e\<close> in auto)
  then show ?thesis using f(2) by simp
qed

theorem gcra_rate_bound_witness:
  "int (admitted_in ''u'' 0 500000000
     (fst (gcra_run (\<lambda>_. 0)
        [(0, OpAllow background ''u''), (0, OpSweep [''u'']), (0, OpAllow background ''u''),
         (500000000, OpAllow background ''u'')] gcra_ex))) * 500000000
   \<le> (500000000 - 0) + 2 * 500000000"
proof -
  let ?ops = "[(0 :: int, OpAllow background ''u''), (0, OpSweep [''u'']), (0, OpAllow background ''u''),
     (500000000, OpAllow background ''u'')]"
  have "in_i64 1000000000" and "sorted (map fst ?ops)" and "(0 :: int) \<le> 500000000"
    and "maxKeys gcra_ex \<le> 0 \<or> int (card (set (op_keys ?ops))) \<le> perShard gcra_ex"
    using perShard_pos [of gcra_ex] by (simp_all add: in_i64_def op_keys_def gcra_ex_def)
  from gcra_rate_bound [OF gcra_New_ex this(1,2,4,3), of "''u''" "\<lambda>_. 0"]
  show ?thesis by (simp only: gcra_ex_fields)
qed

text \<open>
  The number of tracked keys stays bounded: after any run of a limiter whose cap is
  enabled, \<^verbatim>\<open>Len\<close> exceeds \<^verbatim>\<open>maxKeys\<close> by at most 15 (the rounding of the
  per-shard share), whatever keys the callers choose.
\<close>

lemma gcra_Len_bound:
  assumes new: "gcra_New period b opts = Inr l" and per: "in_i64 period"
    and cap: "0 < maxKeys l" "maxKeys l \<le> i64_max - 16"
  shows "int (gcra_Len (snd (gcra_run pick ops l))) \<le> maxKeys l + 15"
proof -
  have run: "gcra_inv (snd (gcra_run pick ops l')) \<and> maxKeys (snd (gcra_run pick ops l')) = maxKeys l'"
    if "gcra_inv l'" for l'
    using that
  proof (induction ops arbitrary: l')
    case Nil
    then show ?case by simp
  next
    case (Cons op ops)
    from Cons.IH [OF gcra_inv_step [OF Cons.prems, of pick op]] show ?case
      using gcra_step_params [of pick op l'] by (auto split: prod.splits)
  qed
  let ?l = "snd (gcra_run pick ops l)"
  have inv: "gcra_inv ?l" and mk: "maxKeys ?l = maxKeys l"
    using run [OF gcra_inv_New [OF new per]] by simp_all
  have "perShard ?l = (maxKeys l + 15) div 16"
  proof -
    have i: "in_i64 (maxKeys l + 16)" "in_i64 (maxKeys l + 15)" and "0 \<le> maxKeys l + 15"
      using cap by (simp_all add: in_i64_def)
    have "wrap64 (maxKeys l + 16) - 1 = maxKeys l + 15"
      using i(1) by (simp add: wrap64_id)
    then have "div64 (wrap64 (wrap64 (maxKeys l + 16) - 1)) 16 = (maxKeys l + 15) div 16"
      using i(2) \<open>0 \<le> maxKeys l + 15\<close> by (simp only: wrap64_id div64_nonneg)
    then show ?thesis
      using cap(1) by (simp add: perShard_def mk Let_def)
  qed
  then have "\<forall>sh \<in> set (shards ?l). int (length sh) \<le> (maxKeys l + 15) div 16"
    using inv cap(1) mk by (simp add: gcra_inv_def list_all_iff)
  then have "int (sum_list (map length (shards ?l))) \<le> int (length (shards ?l)) * ((maxKeys l + 15) div 16)"
    by (rule sum_list_length_bound)
  then show ?thesis
    using inv by (simp add: gcra_Len_def gcra_inv_def)
qed

lemma gcra_Len_bound_example:
  "int (gcra_Len (snd (gcra_run (\<lambda>_. 0) [(0, OpAllow background ''u''), (5, OpAllow background ''v'')] gcra_ex)))
   \<le> 100015"
proof -
  have "in_i64 1000000000" and "0 < maxKeys gcra_ex" and "maxKeys gcra_ex \<le> i64_max - 16"
    by (simp_all add: in_i64_def gcra_ex_def)
  from gcra_Len_bound [OF gcra_New_ex this, of "\<lambda>_. 0"] show ?thesis
    by (simp add: gcra_ex_fields del: gcra_run.simps)
qed

section \<open>More than a burst in one period\<close>

lemma gcra_run_append:
  "gcra_run pick (xs @ ys) l =
     (case gcra_run pick xs l of (log, l') \<Rightarrow> case gcra_run pick ys l' of (log', l'') \<Rightarrow> (log @ log', l''))"
  by (induction xs arbitrary: l) (simp_all split: prod.split)

text \<open>A full burst at one instant, then one request per emission interval.\<close>

definition burst_schedule :: "string \<Rightarrow> time \<Rightarrow> duration \<Rightarrow> int \<Rightarrow> (time \<times> gcra_op) list" where
  "burst_schedule key t r b =
     replicate (nat b) (t, OpAllow background key) @ map (\<lambda>k. (t + int k * r, OpAllow background key)) [1..<nat b]"

lemma burst_admitted:
  assumes "gcra_single key r b l" and "rl_ValidateKey key = None" and "0 < r"
    and "gcra_eff l t key = t + int j * r" and "int j + int n \<le> b"
  shows "\<exists>l'. gcra_run pick (replicate n (t, OpAllow background key)) l = (replicate n (t, key), l')
    \<and> gcra_single key r b l' \<and> gcra_eff l' t key = t + int (j + n) * r
    \<and> (n = 0 \<or> gcra_tat l' key = Some (t + int (j + n) * r))"
  using assms(1,4,5)
proof (induction n arbitrary: l j)
  case (Suc n)
  have go: "gcra_proceeds background key" using assms(2) by simp
  have "int j * r \<le> (b - 1) * r" using Suc.prems(3) assms(3) by (intro mult_right_mono) simp_all
  then obtain l1 where l1: "gcra_step pick (t, OpAllow background key) l = ([(t, key)], l1)" "gcra_single key r b l1"
    "gcra_tat l1 key = Some (t + int (Suc j) * r)"
    using gcra_single_step [OF Suc.prems(1) go, of pick t] Suc.prems(2) by (auto simp: algebra_simps)
  have "gcra_eff l1 t key = t + int (Suc j) * r"
    using l1(3) assms(3) by (simp add: gcra_eff_def)
  with Suc.IH [OF l1(2) this] Suc.prems(3) obtain l' where
    "gcra_run pick (replicate n (t, OpAllow background key)) l1 = (replicate n (t, key), l')" "gcra_single key r b l'"
    "gcra_eff l' t key = t + int (Suc j + n) * r" "n = 0 \<or> gcra_tat l' key = Some (t + int (Suc j + n) * r)" by auto
  then show ?case using l1 by (intro exI [of _ l']) (cases n; simp)
qed simp

lemma drip_admitted:
  assumes "gcra_single key r b l" and "rl_ValidateKey key = None" and "0 < r" and "1 \<le> b"
    and "gcra_tat l key = Some (t + (b - 1 + int i) * r)"
  shows "fst (gcra_run pick (map (\<lambda>k. (t + int k * r, OpAllow background key)) [i..<i + n]) l)
    = map (\<lambda>k. (t + int k * r, key)) [i..<i + n]"
  using assms(1,5)
proof (induction n arbitrary: l i)
  case (Suc n)
  have go: "gcra_proceeds background key" using assms(2) by simp
  have "0 \<le> (b - 1) * r" using assms(3,4) by simp
  then have "gcra_eff l (t + int i * r) key = t + (b - 1 + int i) * r"
    using Suc.prems(2) by (simp add: gcra_eff_def max_def algebra_simps)
  then obtain l1 where l1: "gcra_step pick (t + int i * r, OpAllow background key) l = ([(t + int i * r, key)], l1)"
    "gcra_single key r b l1" "gcra_tat l1 key = Some (t + (b - 1 + int (Suc i)) * r)"
    using gcra_single_step [OF Suc.prems(1) go, of pick "t + int i * r"] by (auto simp: algebra_simps)
  have u: "[i..<i + Suc n] = i # [Suc i..<Suc i + n]" by (simp add: upt_conv_Cons del: upt_Suc)
  show ?case unfolding u using Suc.IH [OF l1(2,3)] l1(1) by (simp del: upt_Suc add: prod.case_eq_if)
qed simp

text \<open>
  Property C37. The burst is not a bound on every window of one period, as the comment on
  \<^verbatim>\<open>New\<close> has it ("allows up to burst events within any period").  For every period and burst that \<^verbatim>\<open>New\<close>
  accepts, every valid key and every start: a full burst followed by one request per emission interval
  is admitted entirely, \<open>2 * burst - 1\<close> requests in a window shorter than the period.  The bound that does hold is
  the one on admissions in a window, above.
\<close>

theorem gcra_burst_exceeded_within_period:
  assumes new: "gcra_New period b opts = Inr l" and per: "in_i64 period" and key: "rl_ValidateKey key = None"
  shows "(b - 1) * rate l < period
    \<and> sorted (map fst (burst_schedule key t (rate l) b))
    \<and> int (admitted_in key t (t + (b - 1) * rate l) (fst (gcra_run pick (burst_schedule key t (rate l) b) l))) = 2 * b - 1"
proof (intro conjI)
  note f = gcra_New_fields [OF new per]
  let ?r = "rate l"
  define n where "n = nat b"
  have n: "b = int n" "1 \<le> n" using f(5) by (simp_all add: n_def)
  have "b * ?r \<le> period" using f(5) by (simp add: f(1) minus_mod_eq_mult_div [symmetric])
  then show "(b - 1) * ?r < period" using f(4) by (simp add: algebra_simps)
  show "sorted (map fst (burst_schedule key t ?r b))"
  proof -
    have "sorted (map (\<lambda>k. t + int k * ?r) [1..<nat b])"
      using f(4) by (intro sorted_map_mono) (auto simp: monotone_on_def intro!: mult_right_mono)
    then show ?thesis using f(4) by (auto simp: burst_schedule_def sorted_append comp_def sorted_replicate)
  qed
  have one: "gcra_single key ?r b l" and eff: "gcra_eff l t key = t + int 0 * ?r"
    using f perShard_pos [of l] gcra_inv_New [OF new per]
    by (simp_all add: gcra_single_def gcra_fits_def gcra_eff_def gcra_tat_def)
  obtain l1 where l1: "gcra_run pick (replicate n (t, OpAllow background key)) l = (replicate n (t, key), l1)"
    "gcra_single key ?r b l1" "gcra_tat l1 key = Some (t + int n * ?r)"
    using burst_admitted [OF one key f(4) eff, of n pick] n by auto
  have "fst (gcra_run pick (map (\<lambda>k. (t + int k * ?r, OpAllow background key)) [1..<1 + (n - 1)]) l1)
      = map (\<lambda>k. (t + int k * ?r, key)) [1..<1 + (n - 1)]"
    by (rule drip_admitted [OF l1(2) key f(4,5)]) (use l1(3) n in simp)
  then have log: "fst (gcra_run pick (burst_schedule key t ?r b) l) = replicate n (t, key) @ map (\<lambda>k. (t + int k * ?r, key)) [1..<n]"
    using l1(1) n by (simp add: burst_schedule_def n_def [symmetric] gcra_run_append prod.case_eq_if)
  have "int k * ?r \<le> (b - 1) * ?r" "0 \<le> int k * ?r" if "k \<in> set [1..<n]" for k
    using that f(4) n by (auto intro!: mult_right_mono)
  then have "filter (\<lambda>(s, k). k = key \<and> t \<le> s \<and> s \<le> t + (b - 1) * ?r) (fst (gcra_run pick (burst_schedule key t ?r b) l))
      = fst (gcra_run pick (burst_schedule key t ?r b) l)"
    unfolding log using f(4,5) by (intro filter_True) auto
  then show "int (admitted_in key t (t + (b - 1) * ?r) (fst (gcra_run pick (burst_schedule key t ?r b) l))) = 2 * b - 1"
    unfolding admitted_in_def by (simp only: log) (use n in \<open>simp add: of_nat_diff\<close>)
qed

theorem gcra_burst_exceeded_within_period_witness:
  "int (admitted_in ''u'' 0 500000000
     (fst (gcra_run (\<lambda>_. 0)
        [(0, OpAllow background ''u''), (0, OpAllow background ''u''), (500000000, OpAllow background ''u'')] gcra_ex))) = 3"
proof -
  have "rl_ValidateKey ''u'' = None"
    by (simp add: rl_ValidateKey_def rl_MaxKeyLen_def containsInvalidKeyRune_ascii)
  moreover have "burst_schedule ''u'' 0 500000000 2 =
      [(0, OpAllow background ''u''), (0, OpAllow background ''u''), (500000000, OpAllow background ''u'')]"
    by (simp add: burst_schedule_def numeral_2_eq_2)
  ultimately show ?thesis
    using gcra_burst_exceeded_within_period [OF gcra_New_ex, of "''u''" 0 "\<lambda>_. 0"]
    by (simp add: in_i64_def gcra_ex_fields del: gcra_run.simps)
qed

end
