(* ===== verification/Budget.thy ===== *)
theory Budget
  imports Go_Strings
begin

text \<open>
  Cost budgets with fixed windows: \<^verbatim>\<open>data/budget/budget.go\<close> and \<^verbatim>\<open>data/budget/memory/memory.go\<close>.

  The record \<open>budget\<close> has the cap, the period and the map of buckets.  Each operation is one
  step here: it does its work under the bucket's mutex, after re-checking that the bucket is
  still the one in the map (theory \<open>Budget_Conc\<close> takes these steps apart).  Clock readings are
  arguments.  A nil receiver or clock only exists in a zero \<^verbatim>\<open>Budget{}\<close>, whose cap is zero.

  The locale \<open>budget_backend\<close> is the interface \<^verbatim>\<open>budget.Budget\<close> seen through \<^verbatim>\<open>Peek\<close>; the memory
  backend interprets it.  Results: no overspending in any period for a clock that does not go
  back, the effect of every operation on what \<^verbatim>\<open>Peek\<close> shows, refunds that undo charges, and
  retry delays that end exactly when the window turns.
\<close>

section \<open>The contract package\<close>

datatype bg_error =
    BgInvalidKey | BgInvalidAmount | BgInvalidChargedAt | BgInvalidBudget | BgCtx ctx_error

definition bg_MaxKeyLen :: nat where
  "bg_MaxKeyLen = 256"

definition bg_ValidateKey :: "string \<Rightarrow> bg_error option" where
  "bg_ValidateKey key =
     (if key = [] \<or> length key > bg_MaxKeyLen \<or> \<not> valid_string key \<or> containsInvalidKeyRune key
      then Some BgInvalidKey else None)"

section \<open>The memory backend\<close>

record bucket =
  periodN :: int
  used :: int

record budget =
  bcap :: int
  period :: duration
  buckets :: "(string, bucket) gomap"

datatype bg_panic = BgPanicCap | BgPanicPeriod

definition bg_New :: "int \<Rightarrow> duration \<Rightarrow> bg_panic + budget" where
  "bg_New c p =
     (if c \<le> 0 then Inl BgPanicCap
      else if p \<le> 0 then Inl BgPanicPeriod
      else Inr \<lparr>bcap = c, period = p, buckets = []\<rparr>)"

definition bg_ready :: "budget \<Rightarrow> bool" where
  "bg_ready b \<longleftrightarrow> 0 < bcap b \<and> 0 < period b"

text \<open>\<open>periodOf\<close> returns the period's number and the start of the next one.\<close>

definition periodOf :: "budget \<Rightarrow> time \<Rightarrow> int \<times> time" where
  "periodOf b t =
     (let pid = div64 (wrap64 t) (period b) in (pid, wrap64 (wrap64 (pid + 1) * period b)))"

definition sweep_bucket :: "int \<Rightarrow> string \<Rightarrow> budget \<Rightarrow> budget" where
  "sweep_bucket currentPeriod k b =
     (case map_of (buckets b) k of
        None \<Rightarrow> b
      | Some bk \<Rightarrow>
          if periodN bk < currentPeriod then b\<lparr>buckets := AList.delete k (buckets b)\<rparr> else b)"

definition bg_sweep :: "string list \<Rightarrow> budget \<Rightarrow> time \<Rightarrow> budget" where
  "bg_sweep ks b now = fold (sweep_bucket (fst (periodOf b now))) ks b"

definition loadOrInitBucket :: "budget \<Rightarrow> string \<Rightarrow> int \<Rightarrow> bucket \<times> budget" where
  "loadOrInitBucket b key currentPeriod =
     (case map_of (buckets b) key of
        Some bk \<Rightarrow> (bk, b)
      | None \<Rightarrow>
          let fresh = \<lparr>periodN = currentPeriod, used = 0\<rparr>
          in (fresh, b\<lparr>buckets := AList.update key fresh (buckets b)\<rparr>))"

text \<open>The critical section of \<^verbatim>\<open>Consume\<close> on a bucket.\<close>

definition consume_bucket ::
    "int \<Rightarrow> int \<Rightarrow> duration \<Rightarrow> int \<Rightarrow> bucket \<Rightarrow> (bool \<times> int \<times> duration) \<times> bucket" where
  "consume_bucket c periodID retry amount bk0 =
     (let bk = (if periodN bk0 \<noteq> periodID then bk0\<lparr>periodN := periodID, used := 0\<rparr> else bk0);
          u = used bk
      in if u > c then ((False, 0, retry), bk)
         else if amount > wrap64 (c - u) then ((False, wrap64 (c - u), retry), bk)
         else if amount > 0
              then ((True, wrap64 (c - wrap64 (u + amount)), 0), bk\<lparr>used := wrap64 (u + amount)\<rparr>)
              else ((True, wrap64 (c - u), 0), bk))"

definition bg_Consume ::
    "budget \<Rightarrow> ctxt \<Rightarrow> time \<Rightarrow> string \<Rightarrow> int \<Rightarrow> (bool \<times> int \<times> duration \<times> bg_error option) \<times> budget" where
  "bg_Consume b ctx now key amount =
     (case ctx_obs ctx 0 of
        Some e \<Rightarrow> ((False, 0, 0, Some (BgCtx e)), b)
      | None \<Rightarrow>
     if \<not> bg_ready b then ((False, 0, 0, Some BgInvalidBudget), b)
     else (case bg_ValidateKey key of
        Some e \<Rightarrow> ((False, 0, 0, Some e), b)
      | None \<Rightarrow>
     if amount < 0 then ((False, 0, 0, Some BgInvalidAmount), b)
     else
       (let (periodID, nextStart) = periodOf b now;
            (bk, b1) = loadOrInitBucket b key periodID
        in case ctx_obs ctx 1 of
             Some e \<Rightarrow> ((False, 0, 0, Some (BgCtx e)), b1)
           | None \<Rightarrow>
               (let d = time_sub nextStart now;
                    retry = (if d < 0 then 0 else d);
                    ((ok, rem, ra), bk') = consume_bucket (bcap b) periodID retry amount bk
                in ((ok, rem, ra, None), b1\<lparr>buckets := AList.update key bk' (buckets b1)\<rparr>)))))"

definition bg_Peek :: "budget \<Rightarrow> ctxt \<Rightarrow> time \<Rightarrow> string \<Rightarrow> bg_error + int" where
  "bg_Peek b ctx now key =
     (case ctx_obs ctx 0 of
        Some e \<Rightarrow> Inl (BgCtx e)
      | None \<Rightarrow>
     if \<not> bg_ready b then Inl BgInvalidBudget
     else (case bg_ValidateKey key of
        Some e \<Rightarrow> Inl e
      | None \<Rightarrow>
        (case map_of (buckets b) key of
           None \<Rightarrow> Inr (bcap b)
         | Some bk \<Rightarrow>
             if periodN bk \<noteq> fst (periodOf b now) then Inr (bcap b)
             else let rem = wrap64 (bcap b - used bk) in Inr (if rem < 0 then 0 else rem))))"

definition bg_Refund ::
    "budget \<Rightarrow> ctxt \<Rightarrow> string \<Rightarrow> int \<Rightarrow> time \<Rightarrow> (bg_error + int) \<times> budget" where
  "bg_Refund b ctx key amount chargedAt =
     (case ctx_obs ctx 0 of
        Some e \<Rightarrow> (Inl (BgCtx e), b)
      | None \<Rightarrow>
     if \<not> bg_ready b then (Inl BgInvalidBudget, b)
     else (case bg_ValidateKey key of
        Some e \<Rightarrow> (Inl e, b)
      | None \<Rightarrow>
     if amount < 0 then (Inl BgInvalidAmount, b)
     else if is_zero chargedAt then (Inl BgInvalidChargedAt, b)
     else
       (case map_of (buckets b) key of
          None \<Rightarrow> (Inr (bcap b), b)
        | Some bk \<Rightarrow>
            if periodN bk \<noteq> fst (periodOf b chargedAt) then (Inr (bcap b), b)
            else
              let d = wrap64 (used bk - amount);
                  u = (if d < 0 then 0 else d)
              in (Inr (wrap64 (bcap b - u)),
                  b\<lparr>buckets := AList.update key (bk\<lparr>used := u\<rparr>) (buckets b)\<rparr>))))"

definition bg_Len :: "budget \<Rightarrow> nat" where
  "bg_Len b = length (buckets b)"

text \<open>
  The package helper \<^verbatim>\<open>budget.Refund\<close>: the backend is given by its refund operation, \<^const>\<open>None\<close>
  where it does not implement \<^verbatim>\<open>Refunder\<close>; \<open>nil\<close> says whether the interface value is nil.
\<close>

definition budget_Refund ::
    "bool \<Rightarrow> (ctxt \<Rightarrow> string \<Rightarrow> int \<Rightarrow> time \<Rightarrow> 's \<Rightarrow> (bg_error + int) \<times> 's) option \<Rightarrow>
     ctxt \<Rightarrow> string \<Rightarrow> int \<Rightarrow> time \<Rightarrow> 's \<Rightarrow> (int \<times> bool \<times> bg_error option) \<times> 's" where
  "budget_Refund nil refunder ctx key amount chargedAt s =
     (case bg_ValidateKey key of
        Some e \<Rightarrow> ((0, False, Some e), s)
      | None \<Rightarrow>
     if amount < 0 then ((0, False, Some BgInvalidAmount), s)
     else if is_zero chargedAt then ((0, False, Some BgInvalidChargedAt), s)
     else if nil then ((0, False, Some BgInvalidBudget), s)
     else (case refunder of
        Some f \<Rightarrow>
          (case f ctx key amount chargedAt s of
             (Inr rem, s') \<Rightarrow> ((rem, True, None), s')
           | (Inl e, s') \<Rightarrow> ((0, True, Some e), s'))
      | None \<Rightarrow> ((0, False, None), s)))"

section \<open>Runs\<close>

datatype bg_op =
    OpConsume ctxt string int
  | OpRefund ctxt string int time
  | OpSweepBuckets "string list"

text \<open>What a step did to a key's account of a period: units charged, less units refunded.\<close>

type_synonym bg_entry = "string \<times> int \<times> int"

fun bg_step :: "time \<times> bg_op \<Rightarrow> budget \<Rightarrow> bg_entry list \<times> budget" where
  "bg_step (now, OpConsume ctx key amount) b =
     (case bg_Consume b ctx now key amount of
        ((ok, _, _, _), b') \<Rightarrow> (if ok then [(key, fst (periodOf b now), amount)] else [], b'))"
| "bg_step (now, OpRefund ctx key amount chargedAt) b =
     (case bg_Refund b ctx key amount chargedAt of
        (_, b') \<Rightarrow>
          (case (map_of (buckets b) key, map_of (buckets b') key) of
             (Some bk, Some bk') \<Rightarrow> [(key, periodN bk, used bk' - used bk)]
           | _ \<Rightarrow> [],
           b'))"
| "bg_step (now, OpSweepBuckets ks) b = ([], bg_sweep ks b now)"

fun bg_run :: "(time \<times> bg_op) list \<Rightarrow> budget \<Rightarrow> bg_entry list \<times> budget" where
  "bg_run [] b = ([], b)"
| "bg_run (x # xs) b =
     (case bg_step x b of (log, b') \<Rightarrow> case bg_run xs b' of (log', b'') \<Rightarrow> (log @ log', b''))"

definition net :: "string \<Rightarrow> int \<Rightarrow> bg_entry list \<Rightarrow> int" where
  "net key p log = sum_list (map (\<lambda>(k, q, a). if k = key \<and> q = p then a else 0) log)"


section \<open>Invariant and view\<close>

definition bg_inv :: "budget \<Rightarrow> bool" where
  "bg_inv b \<longleftrightarrow> bg_ready b \<and> in_i64 (bcap b) \<and> in_i64 (period b) \<and> gm_wf (buckets b) \<and>
     (\<forall>k bk. map_of (buckets b) k = Some bk \<longrightarrow> 0 \<le> used bk \<and> used bk \<le> bcap b)"

text \<open>What is left of a key's budget in a period.\<close>

definition bg_left :: "budget \<Rightarrow> int \<Rightarrow> string \<Rightarrow> int" where
  "bg_left b p key =
     (case map_of (buckets b) key of
        Some bk \<Rightarrow> if periodN bk = p then bcap b - used bk else bcap b
      | None \<Rightarrow> bcap b)"

abbreviation bg_pid :: "budget \<Rightarrow> time \<Rightarrow> int" where
  "bg_pid b now \<equiv> fst (periodOf b now)"

text \<open>The part of the state that no operation changes.\<close>

definition same_config :: "budget \<Rightarrow> budget \<Rightarrow> bool" where
  "same_config b b' \<longleftrightarrow> bcap b' = bcap b \<and> period b' = period b"

lemma same_config_refl [simp]: "same_config b b"
  by (simp add: same_config_def)

lemma same_config_buckets [simp]: "same_config b (b\<lparr>buckets := m\<rparr>)"
  by (simp add: same_config_def)

lemma same_config_trans: "same_config a b \<Longrightarrow> same_config b c \<Longrightarrow> same_config a c"
  by (simp add: same_config_def)

lemma periodOf_cong: "same_config b b' \<Longrightarrow> periodOf b' = periodOf b"
  by (rule ext) (simp add: same_config_def periodOf_def)

lemma periodOf_buckets [simp]: "periodOf (b\<lparr>buckets := m\<rparr>) = periodOf b"
  by (rule periodOf_cong) simp

lemma bg_inv_New: "bg_New c p = Inr b \<Longrightarrow> in_i64 c \<Longrightarrow> in_i64 p \<Longrightarrow> bg_inv b"
  by (auto simp: bg_New_def bg_inv_def bg_ready_def split: if_splits)

lemma bg_inv_used:
  "bg_inv b \<Longrightarrow> map_of (buckets b) k = Some bk \<Longrightarrow> 0 \<le> used bk \<and> used bk \<le> bcap b"
  by (simp add: bg_inv_def)

lemma bg_inv_update:
  "bg_inv b \<Longrightarrow> 0 \<le> used bk \<Longrightarrow> used bk \<le> bcap b \<Longrightarrow>
   bg_inv (b\<lparr>buckets := AList.update k bk (buckets b)\<rparr>)"
  by (auto simp: bg_inv_def bg_ready_def gomap_simps)

lemma bg_inv_delete: "bg_inv b \<Longrightarrow> bg_inv (b\<lparr>buckets := AList.delete k (buckets b)\<rparr>)"
  by (auto simp: bg_inv_def bg_ready_def gomap_simps split: if_splits)

lemma bg_left_bounds: "bg_inv b \<Longrightarrow> 0 \<le> bg_left b p key \<and> bg_left b p key \<le> bcap b"
  by (auto simp: bg_left_def bg_inv_def bg_ready_def split: option.splits)

lemma bg_left_update:
  "bg_left (b\<lparr>buckets := AList.update k bk (buckets b)\<rparr>) p key =
     (if key = k then (if periodN bk = p then bcap b - used bk else bcap b) else bg_left b p key)"
  by (simp add: bg_left_def gomap_simps split: option.split)

section \<open>Every operation on the view\<close>

definition bg_accepts :: "ctxt \<Rightarrow> string \<Rightarrow> int \<Rightarrow> bool" where
  "bg_accepts ctx key amount \<longleftrightarrow>
     ctx_obs ctx 0 = None \<and> bg_ValidateKey key = None \<and> 0 \<le> amount"

definition retry_after :: "budget \<Rightarrow> time \<Rightarrow> duration" where
  "retry_after b now = max 0 (time_sub (snd (periodOf b now)) now)"

lemma consume_bucket_eq:
  fixes pid :: int
  assumes "in_i64 c" and "0 \<le> used bk" and "used bk \<le> c" and "0 \<le> amount"
  defines "l \<equiv> (if periodN bk = pid then c - used bk else c)"
  shows "consume_bucket c pid retry amount bk =
    (if amount \<le> l then ((True, l - amount, 0), \<lparr>periodN = pid, used = c - l + amount\<rparr>)
     else ((False, l, retry), \<lparr>periodN = pid, used = c - l\<rparr>))"
proof -
  define bk1 where "bk1 = (if periodN bk \<noteq> pid then bk\<lparr>periodN := pid, used := 0\<rparr> else bk)"
  have bk1: "bk1 = \<lparr>periodN = pid, used = c - l\<rparr>"
    by (auto simp: bk1_def l_def)
  have l: "0 \<le> l" "l \<le> c"
    using assms by (auto simp: l_def)
  then have w: "wrap64 (c - (c - l)) = l"
    using assms(1) by (simp add: wrap64_id in_i64_def)
  have w2: "wrap64 (c - l + amount) = c - l + amount" if "amount \<le> l"
    using that l assms(1,4) by (intro wrap64_id) (auto simp: in_i64_def)
  have w3: "wrap64 (c - (c - l + amount)) = l - amount" if "amount \<le> l"
    using that l assms(1,4) by (subst wrap64_id) (auto simp: in_i64_def)
  show ?thesis
    unfolding consume_bucket_def bk1_def [symmetric] bk1 Let_def
    using l assms(4) w w2 w3 by auto
qed

lemma loadOrInitBucket_view:
  assumes "bg_inv b" and "loadOrInitBucket b key p = (bk, b1)"
  shows "0 \<le> used bk \<and> used bk \<le> bcap b"
    and "(if periodN bk = p then bcap b - used bk else bcap b) = bg_left b p key"
    and "AList.update key v (buckets b1) = AList.update key v (buckets b)"
    and "b1\<lparr>buckets := m\<rparr> = b\<lparr>buckets := m\<rparr>"
    and "b1 = b \<or> b1 = b\<lparr>buckets := AList.update key \<lparr>periodN = p, used = 0\<rparr> (buckets b)\<rparr> \<and>
           map_of (buckets b) key = None"
  using assms
  by (auto simp: loadOrInitBucket_def bg_left_def Let_def bg_inv_def bg_ready_def split: option.splits)

lemma bg_Consume_eq:
  fixes now :: time
  assumes "bg_inv b" and "bg_accepts ctx key amount" and "ctx_obs ctx 1 = None"
  defines "l \<equiv> bg_left b (bg_pid b now) key"
  shows "bg_Consume b ctx now key amount =
    (if amount \<le> l
     then ((True, l - amount, 0, None),
           b\<lparr>buckets := AList.update key \<lparr>periodN = bg_pid b now, used = bcap b - l + amount\<rparr> (buckets b)\<rparr>)
     else ((False, l, retry_after b now, None),
           b\<lparr>buckets := AList.update key \<lparr>periodN = bg_pid b now, used = bcap b - l\<rparr> (buckets b)\<rparr>))"
proof -
  obtain bk b1 where lo: "loadOrInitBucket b key (bg_pid b now) = (bk, b1)"
    by (cases "loadOrInitBucket b key (bg_pid b now)")
  note v = loadOrInitBucket_view [OF assms(1) lo]
  have ready: "bg_ready b" and c: "in_i64 (bcap b)"
    using assms(1) by (auto simp: bg_inv_def)
  have guards: "ctx_obs ctx 0 = None" "bg_ValidateKey key = None" "\<not> amount < 0" "0 \<le> amount"
    using assms(2) by (auto simp: bg_accepts_def)
  have cb: "consume_bucket (bcap b) (bg_pid b now) retry amount bk =
     (if amount \<le> l then ((True, l - amount, 0), \<lparr>periodN = bg_pid b now, used = bcap b - l + amount\<rparr>)
      else ((False, l, retry), \<lparr>periodN = bg_pid b now, used = bcap b - l\<rparr>))" for retry
    using consume_bucket_eq [OF c, of bk amount "bg_pid b now" retry] v(1,2) guards(4)
    by (simp add: l_def)
  have r: "(let d = time_sub (snd (periodOf b now)) now in if d < 0 then 0 else d) = retry_after b now"
    by (simp add: retry_after_def Let_def)
  show ?thesis
    unfolding bg_Consume_def
    using lo guards ready assms(3) r
    by (simp add: case_prod_beta Let_def v(3,4) cb split del: if_split) (simp split: if_split)
qed

lemma bg_Consume_rejects:
  assumes "bg_inv b" and "\<not> (bg_accepts ctx key amount \<and> ctx_obs ctx 1 = None)"
  shows "\<exists>e b1. bg_Consume b ctx now key amount = ((False, 0, 0, Some e), b1) \<and>
    (b1 = b \<or> b1 = b\<lparr>buckets := AList.update key \<lparr>periodN = bg_pid b now, used = 0\<rparr> (buckets b)\<rparr> \<and>
       map_of (buckets b) key = None)"
proof -
  obtain bk b1 where lo: "loadOrInitBucket b key (bg_pid b now) = (bk, b1)"
    by (cases "loadOrInitBucket b key (bg_pid b now)")
  note v = loadOrInitBucket_view(5) [OF assms(1) lo]
  have "bg_ready b" using assms(1) by (simp add: bg_inv_def)
  then show ?thesis
    using assms(2) lo v
    by (auto simp: bg_Consume_def bg_accepts_def case_prod_beta split: option.splits)
qed

lemma bg_Peek_eq:
  assumes "bg_inv b"
  shows "bg_Peek b ctx now key =
    (case ctx_obs ctx 0 of
       Some e \<Rightarrow> Inl (BgCtx e)
     | None \<Rightarrow> case bg_ValidateKey key of Some e \<Rightarrow> Inl e | None \<Rightarrow> Inr (bg_left b (bg_pid b now) key))"
proof -
  have "bg_ready b" and "in_i64 (bcap b)" using assms by (auto simp: bg_inv_def)
  moreover have "wrap64 (bcap b - used bk) = bcap b - used bk \<and> \<not> bcap b - used bk < 0"
    if "map_of (buckets b) key = Some bk" for bk
    using bg_inv_used [OF assms that] \<open>in_i64 (bcap b)\<close>
    by (subst wrap64_id) (auto simp: in_i64_def)
  ultimately show ?thesis
    by (auto simp: bg_Peek_def bg_left_def Let_def split: option.splits)
qed

text \<open>A refund touches the bucket only if it still is the one of the period of the charge.\<close>

lemma bg_Refund_eq:
  assumes "bg_inv b" and "bg_accepts ctx key amount" and "\<not> is_zero chargedAt" and "in_i64 amount"
  defines "p \<equiv> bg_pid b chargedAt"
  shows "bg_Refund b ctx key amount chargedAt =
    (case map_of (buckets b) key of
       Some bk \<Rightarrow>
         if periodN bk = p
         then (Inr (min (bcap b) (bg_left b p key + amount)),
               b\<lparr>buckets := AList.update key \<lparr>periodN = p, used = max 0 (used bk - amount)\<rparr> (buckets b)\<rparr>)
         else (Inr (bcap b), b)
     | None \<Rightarrow> (Inr (bcap b), b))"
proof -
  have ready: "bg_ready b" and c: "in_i64 (bcap b)" using assms(1) by (auto simp: bg_inv_def)
  have guards: "ctx_obs ctx 0 = None" "bg_ValidateKey key = None" "\<not> amount < 0"
    using assms(2) by (auto simp: bg_accepts_def)
  show ?thesis
  proof (cases "map_of (buckets b) key")
    case None
    then show ?thesis using ready guards assms(3) by (simp add: bg_Refund_def)
  next
    case (Some bk)
    note u = bg_inv_used [OF assms(1) Some]
    have w1: "wrap64 (used bk - amount) = used bk - amount"
      using u c guards(3) assms(4) by (intro wrap64_id) (auto simp: in_i64_def)
    have w2: "wrap64 (bcap b - max 0 (used bk - amount)) = bcap b - max 0 (used bk - amount)"
      using u c guards(3) by (intro wrap64_id) (auto simp: in_i64_def)
    have m: "(if used bk - amount < 0 then 0 else used bk - amount) = max 0 (used bk - amount)"
      by auto
    have upd: "bk\<lparr>used := x\<rparr> = \<lparr>periodN = periodN bk, used = x\<rparr>" for x by simp
    have l: "periodN bk = p \<Longrightarrow> bcap b - max 0 (used bk - amount) = min (bcap b) (bg_left b p key + amount)"
      using Some by (simp add: bg_left_def)
    show ?thesis
      using Some ready guards assms(3) l w2 wrap64_id [OF c]
      by (auto simp: bg_Refund_def Let_def w1 m p_def upd)
  qed
qed

lemma bg_Refund_rejects:
  assumes "bg_inv b" and "\<not> (bg_accepts ctx key amount \<and> \<not> is_zero chargedAt)"
  shows "\<exists>e. bg_Refund b ctx key amount chargedAt = (Inl e, b)"
proof -
  have "bg_ready b" using assms(1) by (simp add: bg_inv_def)
  then show ?thesis
    using assms(2) by (auto simp: bg_Refund_def bg_accepts_def split: option.splits)
qed

lemma sweep_bucket_get:
  "map_of (buckets (sweep_bucket cur k b)) x =
     (case map_of (buckets b) x of
        None \<Rightarrow> None
      | Some bk \<Rightarrow> if x = k \<and> periodN bk < cur then None else Some bk)"
  by (auto simp: sweep_bucket_def gomap_simps split: option.splits)

lemma same_config_sweep_bucket: "same_config b (sweep_bucket cur k b)"
  by (auto simp: sweep_bucket_def same_config_def split: option.splits)

lemma bg_inv_sweep_bucket: "bg_inv b \<Longrightarrow> bg_inv (sweep_bucket cur k b)"
  by (auto simp: sweep_bucket_def bg_inv_delete split: option.splits)

lemma bg_sweep_fold:
  "same_config b (fold (sweep_bucket cur) ks b) \<and>
   (bg_inv b \<longrightarrow> bg_inv (fold (sweep_bucket cur) ks b)) \<and>
   map_of (buckets (fold (sweep_bucket cur) ks b)) x =
     (case map_of (buckets b) x of
        None \<Rightarrow> None
      | Some bk \<Rightarrow> if x \<in> set ks \<and> periodN bk < cur then None else Some bk)"
proof (induction ks arbitrary: b)
  case Nil
  then show ?case by (simp split: option.split)
next
  case (Cons k ks)
  show ?case
    using Cons [of "sweep_bucket cur k b"]
    by (auto simp: sweep_bucket_get bg_inv_sweep_bucket
        intro: same_config_trans [OF same_config_sweep_bucket] split: option.splits)
qed

lemmas bg_sweep_view = bg_sweep_fold [where cur = "bg_pid b now" and b = b for b now, folded bg_sweep_def]

lemma bg_left_sweep:
  assumes "bg_pid b now \<le> p"
  shows "bg_left (bg_sweep ks b now) p key = bg_left b p key"
  using bg_sweep_view [of b ks now key] assms
  by (auto simp: bg_left_def same_config_def split: option.splits)

lemma bg_inv_Consume: "bg_inv b \<Longrightarrow> bg_inv (snd (bg_Consume b ctx now key amount))"
proof (cases "bg_accepts ctx key amount \<and> ctx_obs ctx 1 = None")
  case True
  assume inv: "bg_inv b"
  have "0 \<le> amount" using True by (simp add: bg_accepts_def)
  then show ?thesis
    using bg_Consume_eq [OF inv, of ctx key amount now] True
      bg_left_bounds [OF inv, of "bg_pid b now" key]
    by (auto intro!: bg_inv_update [OF inv])
next
  case False
  assume inv: "bg_inv b"
  moreover have "0 \<le> bcap b" using inv by (simp add: bg_inv_def bg_ready_def)
  ultimately show ?thesis
    using bg_Consume_rejects [OF inv False, of now] by (auto intro!: bg_inv_update [OF inv])
qed

lemma bg_inv_Refund:
  assumes inv: "bg_inv b" and "in_i64 amount"
  shows "bg_inv (snd (bg_Refund b ctx key amount chargedAt))"
proof (cases "bg_accepts ctx key amount \<and> \<not> is_zero chargedAt")
  case True
  have "0 \<le> amount" using True by (simp add: bg_accepts_def)
  with True bg_Refund_eq [OF inv _ _ assms(2), of ctx key chargedAt] bg_inv_used [OF inv, of key] inv
  show ?thesis
    by (auto intro!: bg_inv_update [OF inv] split: option.splits)
next
  case False
  then show ?thesis using bg_Refund_rejects [OF inv False] inv by auto
qed


section \<open>The interface\<close>

text \<open>
  \<^verbatim>\<open>budget.Budget\<close> and \<^verbatim>\<open>budget.Refunder\<close>: the promises of their comments in terms of what
  \<^verbatim>\<open>Peek\<close> shows.  \<open>win\<close> is the number of the window of a clock reading.
\<close>

locale budget_backend =
  fixes consume :: "'s \<Rightarrow> ctxt \<Rightarrow> time \<Rightarrow> string \<Rightarrow> int \<Rightarrow> (bool \<times> int \<times> duration \<times> bg_error option) \<times> 's"
    and peek :: "'s \<Rightarrow> time \<Rightarrow> string \<Rightarrow> int"
    and win :: "'s \<Rightarrow> time \<Rightarrow> int"
    and binv :: "'s \<Rightarrow> bool"
  assumes binv_consume: "binv s \<Longrightarrow> binv (snd (consume s ctx now key amount))"
    and peek_nonneg: "binv s \<Longrightarrow> 0 \<le> peek s now key"
    and win_consume: "binv s \<Longrightarrow> win (snd (consume s ctx now key amount)) t = win s t"
    and peek_win: "binv s \<Longrightarrow> win s now = win s now' \<Longrightarrow> peek s now key = peek s now' key"
    and consume_answer: "binv s \<Longrightarrow> consume s ctx now key amount = ((ok, left, wait, None), s') \<Longrightarrow>
          0 \<le> amount \<and> (ok \<longleftrightarrow> amount \<le> peek s now key) \<and>
          left = (if ok then peek s now key - amount else peek s now key) \<and> peek s' now key = left"
    and consume_error: "binv s \<Longrightarrow> consume s ctx now key amount = ((ok, left, wait, Some e), s') \<Longrightarrow>
          \<not> ok \<and> peek s' now key = peek s now key"
    and consume_frame: "binv s \<Longrightarrow> key' \<noteq> key \<Longrightarrow>
          peek (snd (consume s ctx now key amount)) t key' = peek s t key'"
begin

text \<open>A sequence of calls, with the units each one was charged.\<close>

fun charges :: "(ctxt \<times> time \<times> string \<times> int) list \<Rightarrow> 's \<Rightarrow> (string \<times> int) list \<times> 's" where
  "charges [] s = ([], s)"
| "charges ((ctx, now, key, amount) # cs) s =
     (case consume s ctx now key amount of
        ((ok, _, _, _), s') \<Rightarrow>
          case charges cs s' of (out, s'') \<Rightarrow> ((key, if ok then amount else 0) # out, s''))"

text \<open>One call takes from its key exactly what it was charged.\<close>

lemma consume_balance:
  assumes "binv s" and "consume s ctx now key amount = ((ok, left, wait, e), s')" and "win s now = win s t"
  shows "peek s' t k + (if k = key \<and> ok then amount else 0) = peek s t k"
proof -
  have s': "s' = snd (consume s ctx now key amount)" using assms(2) by simp
  have inv': "binv s'" and w': "win s' x = win s x" for x
    using binv_consume [OF assms(1)] win_consume [OF assms(1)] by (auto simp: s')
  have same: "peek s' t key = peek s' now key" "peek s t key = peek s now key"
    using assms(3) peek_win [OF inv', of t now key] peek_win [OF assms(1), of t now key] by (auto simp: w')
  show ?thesis
  proof (cases "k = key")
    case False
    then show ?thesis using consume_frame [OF assms(1), of k key] by (simp add: s')
  next
    case True
    show ?thesis
    proof (cases e)
      case None
      have "left = (if ok then peek s now key - amount else peek s now key) \<and> peek s' now key = left"
        using consume_answer [OF assms(1) assms(2) [unfolded None]] by blast
      then show ?thesis using True same by auto
    next
      case (Some x)
      show ?thesis using consume_error [OF assms(1) assms(2) [unfolded Some]] True same by auto
    qed
  qed
qed

lemma charges_balance:
  assumes "binv s" and "\<forall>(ctx, now, key, amount) \<in> set cs. win s now = win s t"
    and "charges cs s = (out, s')"
  shows "binv s' \<and> peek s' t k + sum_list (map snd (filter (\<lambda>x. fst x = k) out)) = peek s t k"
  using assms
proof (induction cs arbitrary: s out)
  case Nil
  then show ?case by auto
next
  case (Cons c cs)
  obtain ctx now key amount where c: "c = (ctx, now, key, amount)" by (cases c)
  obtain ok left wait e s1 where st: "consume s ctx now key amount = ((ok, left, wait, e), s1)"
    by (metis surj_pair)
  obtain out1 where rest: "charges cs s1 = (out1, s')" and out: "out = (key, if ok then amount else 0) # out1"
    using Cons.prems(3) c st by (auto split: prod.splits)
  have w: "win s now = win s t" using Cons.prems(2) c by auto
  have "s1 = snd (consume s ctx now key amount)" using st by simp
  then have inv1: "binv s1" and w1: "win s1 x = win s x" for x
    using binv_consume [OF Cons.prems(1)] win_consume [OF Cons.prems(1)] by auto
  have "binv s' \<and> peek s' t k + sum_list (map snd (filter (\<lambda>x. fst x = k) out1)) = peek s1 t k"
    using Cons.IH [OF inv1 _ rest] Cons.prems(2) by (auto simp: w1)
  then show ?case
    using consume_balance [OF Cons.prems(1) st w, of k] by (auto simp: out)
qed

text \<open>Within a window no sequence of charges takes more than there was.\<close>

lemma charges_bounded:
  assumes "binv s" and "\<forall>(ctx, now, key, amount) \<in> set cs. win s now = win s t"
  shows "sum_list (map snd (filter (\<lambda>x. fst x = k) (fst (charges cs s)))) \<le> peek s t k"
proof -
  obtain out s' where "charges cs s = (out, s')" by (cases "charges cs s")
  with charges_balance [OF assms this, of k] peek_nonneg [of s' t k] show ?thesis by auto
qed

end

text \<open>The view through which the backend provides the interface.\<close>

definition bg_view :: "budget \<Rightarrow> time \<Rightarrow> string \<Rightarrow> int" where
  "bg_view b now key =
     (case bg_Peek b background now key of Inr rem \<Rightarrow> rem | Inl _ \<Rightarrow> 0)"

lemma bg_view_eq:
  "bg_inv b \<Longrightarrow> bg_view b now key =
     (if bg_ValidateKey key = None then bg_left b (bg_pid b now) key else 0)"
  by (auto simp: bg_view_def bg_Peek_eq split: option.split)

lemma same_config_Consume: "bg_inv b \<Longrightarrow> same_config b (snd (bg_Consume b ctx now key amount))"
proof (cases "bg_accepts ctx key amount \<and> ctx_obs ctx 1 = None")
  case True
  then show "bg_inv b \<Longrightarrow> ?thesis" by (simp add: bg_Consume_eq)
next
  case False
  then show "bg_inv b \<Longrightarrow> ?thesis" using bg_Consume_rejects [of b ctx key amount now] by auto
qed

lemma bg_Consume_left:
  assumes "bg_inv b" and "bg_Consume b ctx now key amount = ((ok, rem, wait, e), b')"
  shows "bg_left b' p k =
     (if k = key \<and> p = bg_pid b now then bg_left b p k - (if ok then amount else 0)
      else if k = key \<and> e = None then bcap b
      else bg_left b p k)"
proof (cases "bg_accepts ctx key amount \<and> ctx_obs ctx 1 = None")
  case True
  then show ?thesis
    using assms(2) bg_Consume_eq [OF assms(1), of ctx key amount now]
    by (auto simp: bg_left_update split: if_splits)
next
  case False
  then show ?thesis
    using assms(2) bg_Consume_rejects [OF assms(1) False, of now]
    by (auto simp: bg_left_update) (auto simp: bg_left_def)
qed

interpretation mem_budget: budget_backend bg_Consume bg_view "\<lambda>b now. bg_pid b now" bg_inv
proof (unfold_locales, goal_cases)
  case (1 s ctx now key amount)
  then show ?case by (rule bg_inv_Consume)
next
  case (2 s now key)
  then show ?case using bg_left_bounds by (simp add: bg_view_eq)
next
  case (3 s ctx now key amount t)
  then show ?case using same_config_Consume periodOf_cong by metis
next
  case (4 s now now' key)
  then show ?case by (simp add: bg_view_eq)
next
  case (5 s ctx now key amount ok left wait s')
  have acc: "bg_accepts ctx key amount \<and> ctx_obs ctx 1 = None"
    using bg_Consume_rejects [OF 5(1), of ctx key amount now] 5(2) by fastforce
  have "bg_inv s'" "bg_pid s' now = bg_pid s now"
    using bg_inv_Consume [OF 5(1), of ctx now key amount] 5(2)
      periodOf_cong [OF same_config_Consume [OF 5(1)], of ctx now key amount] by auto
  then show ?case
    using acc 5 bg_Consume_left [OF 5, of "bg_pid s now" key] bg_Consume_eq [OF 5(1), of ctx key amount now]
    by (auto simp: bg_view_eq bg_accepts_def split: if_splits)
next
  case (6 s ctx now key amount ok left wait e s')
  have "bg_inv s'" "bg_pid s' now = bg_pid s now"
    using bg_inv_Consume [OF 6(1), of ctx now key amount] 6(2)
      periodOf_cong [OF same_config_Consume [OF 6(1)], of ctx now key amount] by auto
  moreover have "\<not> ok"
    using 6 bg_Consume_eq [OF 6(1), of ctx key amount now] bg_Consume_rejects [OF 6(1), of ctx key amount now]
    by (cases "bg_accepts ctx key amount \<and> ctx_obs ctx 1 = None") (auto split: if_splits)
  ultimately show ?case
    using bg_Consume_left [OF 6, of "bg_pid s now" key] 6(1) by (simp add: bg_view_eq)
next
  case (7 s key' key ctx now amount t)
  obtain ok rem wait e s' where st: "bg_Consume s ctx now key amount = ((ok, rem, wait, e), s')"
    by (metis surj_pair)
  have "bg_inv s'" "bg_pid s' t = bg_pid s t"
    using bg_inv_Consume [OF 7(1), of ctx now key amount] st
      periodOf_cong [OF same_config_Consume [OF 7(1)], of ctx now key amount] by auto
  then show ?case
    using bg_Consume_left [OF 7(1) st, of "bg_pid s t" key'] 7 st by (simp add: bg_view_eq)
qed


section \<open>Windows\<close>

lemma sdiv_bounds: "\<bar>a sdiv (b :: int)\<bar> \<le> \<bar>a\<bar>"
proof (cases "b = 0")
  case False
  then have "\<bar>a\<bar> div \<bar>b\<bar> \<le> \<bar>a\<bar>"
    using zdiv_mono2 [of "\<bar>a\<bar>" 1 "\<bar>b\<bar>"] by simp
  moreover have "0 \<le> \<bar>a\<bar> div \<bar>b\<bar>" using False by (simp add: pos_imp_zdiv_nonneg_iff)
  ultimately show ?thesis
    by (auto simp: signed_divide_int_def abs_mult sgn_if)
qed (simp add: signed_divide_int_def)

lemma sdiv_mono:
  fixes a c b :: int
  assumes "a \<le> c" and "0 < b"
  shows "a sdiv b \<le> c sdiv b"
proof -
  have nn: "0 \<le> \<bar>x\<bar> div b" for x :: int using assms(2) by (simp add: pos_imp_zdiv_nonneg_iff)
  have "a sdiv b = sgn a * (\<bar>a\<bar> div b)" "c sdiv b = sgn c * (\<bar>c\<bar> div b)"
    using assms(2) by (auto simp: signed_divide_int_def)
  moreover have "\<bar>a\<bar> div b \<le> \<bar>c\<bar> div b" if "0 \<le> a"
    using assms that by (simp add: zdiv_mono1)
  moreover have "\<bar>c\<bar> div b \<le> \<bar>a\<bar> div b" if "c < 0"
    using assms that by (simp add: zdiv_mono1)
  ultimately show ?thesis
    using nn [of a] nn [of c] assms(1) by (auto simp: sgn_if)
qed

lemma bg_pid_mono:
  assumes "bg_inv b" and "s \<le> t" and "in_i64 s" and "in_i64 t"
  shows "bg_pid b s \<le> bg_pid b t"
proof -
  have p: "1 \<le> period b" using assms(1) by (simp add: bg_inv_def bg_ready_def)
  have fits: "in_i64 (x sdiv period b)" if "in_i64 x" for x
  proof (cases "x = i64_min \<and> period b = 1")
    case True
    then show ?thesis by (simp add: signed_divide_int_def in_i64_def)
  next
    case False
    show ?thesis
    proof (cases "0 \<le> x")
      case True
      then show ?thesis using sdiv_bounds [of x "period b"] that by (auto simp: in_i64_def)
    next
      case neg: False
      then have "x sdiv period b \<le> 0"
        using sdiv_mono [of x 0 "period b"] p by (simp add: signed_divide_int_def)
      then show ?thesis using sdiv_bounds [of x "period b"] that neg by (auto simp: in_i64_def)
    qed
  qed
  have "period b > 0" using p by simp
  from sdiv_mono [OF assms(2) this] show ?thesis
    using assms(3,4) by (simp add: periodOf_def div64_def Let_def wrap64_id fits)
qed

lemma periodOf_nonneg:
  assumes "bg_inv b" and "0 \<le> t" and "in_i64 (t + period b)"
  shows "periodOf b t = (t div period b, (t div period b + 1) * period b)"
proof -
  have p: "0 < period b" using assms(1) by (simp add: bg_inv_def bg_ready_def)
  have t: "in_i64 t" using assms p by (simp add: in_i64_def)
  have d: "0 \<le> t div period b" "t div period b * period b \<le> t"
    using p assms(2) by (auto simp: pos_imp_zdiv_nonneg_iff) (metis div_mult_mod_eq le_add_same_cancel1 pos_mod_sign)
  have "t div period b \<le> t div period b * period b"
    using d(1) p by (simp add: mult_le_cancel_left1)
  moreover have e: "(t div period b + 1) * period b \<le> t + period b"
    using d(2) by (simp add: algebra_simps)
  moreover have "0 \<le> (t div period b + 1) * period b" using d(1) p by simp
  ultimately have "in_i64 (t div period b + 1)" "in_i64 ((t div period b + 1) * period b)"
    using assms(3) d p unfolding in_i64_def by linarith+
  then show ?thesis
    using div64_nonneg [OF assms(2) p t] t by (simp add: periodOf_def Let_def wrap64_id)
qed

lemma window_bounds:
  assumes "0 < (p :: int)"
  shows "t < (t div p + 1) * p" and "(t div p + 1) * p \<le> t + p"
proof -
  have "t = t div p * p + t mod p" by simp
  moreover have "0 \<le> t mod p" "t mod p < p" using assms by simp_all
  ultimately show "t < (t div p + 1) * p" and "(t div p + 1) * p \<le> t + p"
    unfolding distrib_right by linarith+
qed

lemma div_less_iff_less_mult_int:
  fixes p q t :: int
  assumes "0 < p"
  shows "t div p < q \<longleftrightarrow> t < q * p"
proof
  assume "t div p < q"
  then have "(t div p + 1) * p \<le> q * p" using assms by (intro mult_right_mono) auto
  then show "t < q * p" using window_bounds(1) [OF assms, of t] by linarith
next
  assume less: "t < q * p"
  show "t div p < q"
  proof (rule ccontr)
    assume "\<not> t div p < q"
    then have "(q + 1) * p \<le> (t div p + 1) * p" using assms by (intro mult_right_mono) auto
    then show False using less window_bounds(2) [OF assms, of t] unfolding distrib_right by linarith
  qed
qed

lemma retry_after_eq:
  assumes "bg_inv b" and "0 \<le> now" and "in_i64 (now + period b)"
  shows "retry_after b now = (now div period b + 1) * period b - now"
proof -
  have p: "0 < period b" using assms(1) by (simp add: bg_inv_def bg_ready_def)
  note w = window_bounds [OF p, of now]
  have "in_i64 ((now div period b + 1) * period b - now)"
    using w assms by (auto simp: in_i64_def bg_inv_def)
  then show ?thesis
    using w by (simp add: retry_after_def periodOf_nonneg [OF assms] time_sub_in)
qed

lemma bg_pid_window:
  assumes "bg_inv b" and "0 \<le> now" and "now \<le> t" and "in_i64 (t + period b)"
  shows "t < now + retry_after b now \<longleftrightarrow> bg_pid b t = bg_pid b now"
proof -
  have p: "0 < period b" using assms(1) by (simp add: bg_inv_def bg_ready_def)
  have n: "in_i64 (now + period b)" using assms p by (simp add: in_i64_def)
  have "t < (now div period b + 1) * period b \<longleftrightarrow> t div period b < now div period b + 1"
    by (rule div_less_iff_less_mult_int [OF p, symmetric])
  moreover have "now div period b \<le> t div period b" using p assms(3) by (simp add: zdiv_mono1)
  ultimately show ?thesis
    using assms by (auto simp: periodOf_nonneg n retry_after_eq)
qed


section \<open>No overspending\<close>

text \<open>
  How a key's bucket stands to the log of charges at time \<open>t\<close>: it holds the account of its
  period, later periods are untouched, and a key without a bucket has not been charged in the
  period of \<open>t\<close> or later.
\<close>

definition ledger_ok :: "budget \<Rightarrow> time \<Rightarrow> string \<Rightarrow> bg_entry list \<Rightarrow> bool" where
  "ledger_ok b t key log \<longleftrightarrow>
     (case map_of (buckets b) key of
        None \<Rightarrow> \<forall>p \<ge> bg_pid b t. net key p log = 0
      | Some bk \<Rightarrow> periodN bk \<le> bg_pid b t \<and> net key (periodN bk) log = used bk \<and>
                   (\<forall>p > periodN bk. net key p log = 0)) \<and>
     (\<forall>p. net key p log \<le> bcap b)"

lemma net_append: "net key p (xs @ ys) = net key p xs + net key p ys"
  by (simp add: net_def)

lemma net_Nil [simp]: "net key p [] = 0"
  by (simp add: net_def)

lemma net_single: "net key p [(k, q, a)] = (if k = key \<and> q = p then a else 0)"
  by (simp add: net_def)

lemma ledger_later:
  assumes "ledger_ok b s key log" and "bg_pid b s \<le> bg_pid b t"
  shows "ledger_ok b t key log"
  using assms by (auto simp: ledger_ok_def split: option.splits)

lemma ledger_Consume:
  assumes inv: "bg_inv b" and led: "ledger_ok b now key log"
    and st: "bg_step (now, OpConsume ctx k amount) b = (l, b')"
  shows "ledger_ok b' now key (log @ l)"
proof (cases "bg_accepts ctx k amount \<and> ctx_obs ctx 1 = None")
  case True
  have a: "0 \<le> amount" using True by (simp add: bg_accepts_def)
  define left where "left = bg_left b (bg_pid b now) k"
  note eq = bg_Consume_eq [OF inv, of ctx k amount now, folded left_def]
  have b': "b' = b\<lparr>buckets := AList.update k \<lparr>periodN = bg_pid b now,
                     used = bcap b - left + (if amount \<le> left then amount else 0)\<rparr> (buckets b)\<rparr>"
    and l: "l = (if amount \<le> left then [(k, bg_pid b now, amount)] else [])"
    using eq True st by (auto split: if_splits)
  have pid: "bg_pid b' now = bg_pid b now" using periodOf_cong [of b b'] by (simp add: b')
  have cap: "bcap b' = bcap b" by (simp add: b')
  show ?thesis
  proof (cases "k = key")
    case False
    then show ?thesis
      using led by (auto simp: ledger_ok_def b' gomap_simps l net_append net_single split: option.splits)
  next
    case True
    have base: "net key (bg_pid b now) log = bcap b - left" "\<forall>p > bg_pid b now. net key p log = 0"
      using led True by (auto simp: ledger_ok_def left_def bg_left_def split: option.splits)
    have "0 \<le> left" "left \<le> bcap b" using bg_left_bounds [OF inv] by (auto simp: left_def)
    moreover have "\<forall>p. net key p log \<le> bcap b" using led by (simp add: ledger_ok_def)
    ultimately show ?thesis
      using base True a
      by (auto simp: ledger_ok_def pid cap l net_append net_single b' gomap_simps)
  qed
next
  case False
  have c: "0 \<le> bcap b" using inv by (simp add: bg_inv_def bg_ready_def)
  obtain e b1 where r: "bg_Consume b ctx now k amount = ((False, 0, 0, Some e), b1)"
    "b1 = b \<or> b1 = b\<lparr>buckets := AList.update k \<lparr>periodN = bg_pid b now, used = 0\<rparr> (buckets b)\<rparr> \<and>
       map_of (buckets b) k = None"
    using bg_Consume_rejects [OF inv False, of now] by blast
  show ?thesis
    using r st led c by (auto simp: ledger_ok_def gomap_simps split: option.splits if_splits)
qed

lemma ledger_Refund:
  assumes inv: "bg_inv b" and led: "ledger_ok b now key log" and "in_i64 amount"
    and st: "bg_step (now, OpRefund ctx k amount c) b = (l, b')"
  shows "ledger_ok b' now key (log @ l)"
proof (cases "bg_accepts ctx k amount \<and> \<not> is_zero c")
  case True
  have a: "0 \<le> amount" using True by (simp add: bg_accepts_def)
  note eq = bg_Refund_eq [OF inv _ _ assms(3), of ctx k c]
  show ?thesis
  proof (cases "\<exists>bk. map_of (buckets b) k = Some bk \<and> periodN bk = bg_pid b c")
    case True
    then obtain bk where bk: "map_of (buckets b) k = Some bk" "periodN bk = bg_pid b c" by blast
    have b': "b' = b\<lparr>buckets := AList.update k \<lparr>periodN = periodN bk, used = max 0 (used bk - amount)\<rparr> (buckets b)\<rparr>"
      and l: "l = [(k, periodN bk, max 0 (used bk - amount) - used bk)]"
      using eq bk \<open>bg_accepts ctx k amount \<and> \<not> is_zero c\<close> st by (auto simp: gomap_simps)
    have neg: "max 0 (used bk - amount) - used bk \<le> 0" using bg_inv_used [OF inv bk(1)] a by auto
    show ?thesis
    proof (cases "k = key")
      case False
      then show ?thesis
        using led by (simp add: ledger_ok_def b' l gomap_simps net_append net_single split: option.splits)
    next
      case True
      have old: "periodN bk \<le> bg_pid b now" "net key (periodN bk) log = used bk"
        "\<forall>p > periodN bk. net key p log = 0" "\<forall>p. net key p log \<le> bcap b"
        using led bk(1) True by (simp_all add: ledger_ok_def)
      have "net key p (log @ l) \<le> bcap b" for p
        using spec [OF old(4), of p] neg unfolding l net_append net_single by (simp only: split: if_split) linarith
      then show ?thesis
        using old by (simp add: ledger_ok_def b' True gomap_simps l net_append net_single)
    qed
  next
    case False
    then show ?thesis
      using eq \<open>bg_accepts ctx k amount \<and> \<not> is_zero c\<close> st led
      by (auto simp: ledger_ok_def net_append net_single split: option.splits)
  qed
next
  case False
  then obtain e where "bg_Refund b ctx k amount c = (Inl e, b)"
    using bg_Refund_rejects [OF inv False] by blast
  then show ?thesis
    using st led by (auto simp: ledger_ok_def net_append net_single split: option.splits)
qed

lemma ledger_sweep:
  assumes "ledger_ok b now key log"
  shows "ledger_ok (bg_sweep ks b now) now key log"
  using assms bg_sweep_view [of b ks now key] periodOf_cong [of b "bg_sweep ks b now"]
  by (auto simp: ledger_ok_def same_config_def split: option.splits if_splits)

text \<open>Clock readings and amounts fit the 64 bits the code gives them.\<close>

fun bg_typed :: "time \<times> bg_op \<Rightarrow> bool" where
  "bg_typed (now, OpRefund ctx key amount c) \<longleftrightarrow> in_i64 now \<and> in_i64 amount"
| "bg_typed (now, _) \<longleftrightarrow> in_i64 now"

lemma bg_typed_now: "bg_typed (now, x) \<Longrightarrow> in_i64 now"
  by (cases x) auto

lemma bg_step_keeps:
  assumes "bg_inv b" and "bg_typed (now, x)" and "bg_step (now, x) b = (l, b')"
  shows "bg_inv b' \<and> same_config b b'"
proof (cases x)
  case (OpConsume ctx key amount)
  then have "b' = snd (bg_Consume b ctx now key amount)" using assms(3) by (auto split: prod.splits)
  then show ?thesis using bg_inv_Consume [OF assms(1)] same_config_Consume [OF assms(1)] by simp
next
  case (OpRefund ctx key amount c)
  then have b': "b' = snd (bg_Refund b ctx key amount c)" and a: "in_i64 amount"
    using assms(2,3) by (auto split: prod.splits)
  have "same_config b b'"
    unfolding b' by (auto simp: bg_Refund_def Let_def split: option.splits)
  then show ?thesis using bg_inv_Refund [OF assms(1) a] by (simp add: b')
next
  case (OpSweepBuckets ks)
  then show ?thesis using bg_sweep_view [of b ks now] assms by auto
qed

lemma ledger_step:
  assumes "bg_inv b" and "bg_typed (now, x)" and "ledger_ok b now key log"
    and "bg_step (now, x) b = (l, b')"
  shows "ledger_ok b' now key (log @ l)"
proof (cases x)
  case (OpConsume ctx k amount)
  then show ?thesis using ledger_Consume assms by blast
next
  case (OpRefund ctx k amount c)
  then show ?thesis using ledger_Refund assms by auto
next
  case (OpSweepBuckets ks)
  then show ?thesis using ledger_sweep [OF assms(3)] assms(4) by auto
qed

lemma ledger_run:
  assumes "bg_inv b" and "\<forall>x \<in> set ops. bg_typed x" and "sorted (t # map fst ops)" and "in_i64 t"
    and "ledger_ok b t key log" and "bg_run ops b = (l, b')"
  shows "bcap b' = bcap b \<and> (\<forall>p. net key p (log @ l) \<le> bcap b)"
  using assms
proof (induction ops arbitrary: b t log l)
  case Nil
  then show ?case by (simp add: ledger_ok_def)
next
  case (Cons y ops)
  obtain now x where y: "y = (now, x)" by (cases y)
  obtain l1 b1 where st: "bg_step (now, x) b = (l1, b1)" by (cases "bg_step (now, x) b")
  obtain l2 where run: "bg_run ops b1 = (l2, b')" and l: "l = l1 @ l2"
    using Cons.prems(6) st y by (auto split: prod.splits)
  have typed: "bg_typed (now, x)" and now: "in_i64 now"
    using Cons.prems(2) y bg_typed_now by auto
  have keeps: "bg_inv b1" "same_config b b1" using bg_step_keeps [OF Cons.prems(1) typed st] by auto
  have "ledger_ok b now key log"
    using ledger_later [OF Cons.prems(5)] bg_pid_mono [OF Cons.prems(1) _ Cons.prems(4) now] Cons.prems(3) y
    by simp
  from ledger_step [OF Cons.prems(1) typed this st] have "ledger_ok b1 now key (log @ l1)" .
  from Cons.IH [OF keeps(1) _ _ now this run] Cons.prems(2,3) y keeps(2)
  show ?case by (simp add: same_config_def l)
qed

section \<open>Properties\<close>

text \<open>
  Property C2.  A budget never overspends.  Start from \<^verbatim>\<open>New(cap, period)\<close> and run any sequence of
  \<^verbatim>\<open>Consume\<close>, \<^verbatim>\<open>Refund\<close> and sweeper steps, for any keys, contexts and amounts, with a clock that does
  not go back.  Then for every key and every period the units admitted less the units refunded
  are at most the cap: neither rollover, nor eviction by the sweeper, nor a refund that arrives
  in a later period opens a way to more.
\<close>

theorem bg_no_overspend:
  assumes "bg_New c d = Inr b" and "in_i64 c" and "in_i64 d"
    and "sorted (map fst ops)" and "list_all bg_typed ops"
    and "bg_run ops b = (log, b')"
  shows "net key p log \<le> c"
proof (cases ops)
  case Nil
  then show ?thesis using assms(1,6) by (auto simp: bg_New_def split: if_splits)
next
  case (Cons x xs)
  have cap: "bcap b = c" "buckets b = []" "0 < c" using assms(1) by (auto simp: bg_New_def split: if_splits)
  have "ledger_ok b (fst x) key []" using cap by (simp add: ledger_ok_def)
  moreover have "in_i64 (fst x)" using assms(5) Cons bg_typed_now [of "fst x" "snd x"] by simp
  moreover have "\<forall>x \<in> set ops. bg_typed x" using assms(5) by (simp add: list_all_iff)
  moreover have "sorted (fst x # map fst ops)" using assms(4) Cons by auto
  ultimately have "\<forall>p. net key p ([] @ log) \<le> bcap b"
    using ledger_run [OF bg_inv_New [OF assms(1-3)] _ _ _ _ assms(6)] by blast
  then show ?thesis using cap by simp
qed

definition bg_ex :: budget where
  "bg_ex = \<lparr>bcap = 10, period = 60, buckets = []\<rparr>"

definition bg_ex_ops :: "(time \<times> bg_op) list" where
  "bg_ex_ops =
     [(5, OpConsume background ''k'' 7), (6, OpConsume background ''k'' 4),
      (7, OpRefund background ''k'' 2 5), (8, OpConsume background ''k'' 4),
      (70, OpSweepBuckets [''k'']), (70, OpConsume background ''k'' 10)]"

lemma bg_valid_k: "bg_ValidateKey ''k'' = None"
  by (simp add: bg_ValidateKey_def bg_MaxKeyLen_def valid_string_ascii containsInvalidKeyRune_ascii)

lemmas bg_eval = bg_Consume_def bg_Refund_def bg_Peek_def bg_ready_def periodOf_def div64_def
  wrap64_def signed_divide_int_def loadOrInitBucket_def consume_bucket_def Let_def time_sub_def
  zero_time_def bg_sweep_def sweep_bucket_def bg_valid_k

lemma bg_ex_run:
  "bg_run bg_ex_ops bg_ex =
     ([(''k'', 0, 7), (''k'', 0, -2), (''k'', 0, 4), (''k'', 1, 10)],
      bg_ex\<lparr>buckets := [(''k'', \<lparr>periodN = 1, used = 10\<rparr>)]\<rparr>)"
  by (simp add: bg_ex_ops_def bg_ex_def bg_eval)

theorem bg_no_overspend_witness:
  "bg_New 10 60 = Inr bg_ex \<and> sorted (map fst bg_ex_ops) \<and> list_all bg_typed bg_ex_ops \<and>
   net ''k'' 0 (fst (bg_run bg_ex_ops bg_ex)) \<le> 10 \<and>
   net ''k'' 0 (fst (bg_run bg_ex_ops bg_ex)) = 9"
proof -
  have n: "bg_New 10 60 = Inr bg_ex" by (simp add: bg_New_def bg_ex_def)
  have s: "sorted (map fst bg_ex_ops)" by (simp add: bg_ex_ops_def)
  have ty: "list_all bg_typed bg_ex_ops" by (simp add: bg_ex_ops_def in_i64_def)
  have "net ''k'' 0 (fst (bg_run bg_ex_ops bg_ex)) \<le> 10"
    by (rule bg_no_overspend [OF n _ _ s ty]) (auto simp: in_i64_def prod_eq_iff)
  then show ?thesis using n s ty by (auto simp: bg_ex_run net_def)
qed

text \<open>
  Property C21.  \<^verbatim>\<open>Consume\<close> and \<^verbatim>\<open>Peek\<close> agree.  When \<^verbatim>\<open>Peek\<close> would report \<open>rem\<close>, a call of \<^verbatim>\<open>Consume\<close>
  that returns no error is admitted exactly if the amount fits \<open>rem\<close>; it reports, and leaves for
  the next \<^verbatim>\<open>Peek\<close>, \<open>rem\<close> less the amount if admitted and \<open>rem\<close> itself if not; an admitted call
  has no delay; no other key changes at any time.  No 64-bit operation wraps on the way.
\<close>

theorem bg_Consume_contract:
  assumes "bg_inv b" and "bg_Peek b background now key = Inr rem"
    and "bg_Consume b ctx now key amount = ((ok, left, wait, None), b')"
  shows "(ok \<longleftrightarrow> amount \<le> rem)
       \<and> left = (if ok then rem - amount else rem)
       \<and> bg_Peek b' background now key = Inr left
       \<and> (ok \<longrightarrow> wait = 0)
       \<and> (\<forall>k t. k \<noteq> key \<longrightarrow> bg_Peek b' background t k = bg_Peek b background t k)
       \<and> bg_inv b'"
proof -
  have valid: "bg_ValidateKey key = None" "rem = bg_view b now key"
    using assms(1,2) by (auto simp: bg_Peek_eq bg_view_eq split: option.splits)
  have acc: "bg_accepts ctx key amount \<and> ctx_obs ctx 1 = None"
    using bg_Consume_rejects [OF assms(1), of ctx key amount now] assms(3) by fastforce
  then have "ok \<longrightarrow> wait = 0"
    using bg_Consume_eq [OF assms(1), of ctx key amount now] assms(3) by (auto split: if_splits)
  moreover have b': "b' = snd (bg_Consume b ctx now key amount)" using assms(3) by simp
  moreover have inv': "bg_inv b'" using bg_inv_Consume [OF assms(1)] by (simp add: b')
  moreover have frame: "bg_Peek b' background t k = bg_Peek b background t k" if "k \<noteq> key" for k t
  proof -
    have "bg_view b' t k = bg_view b t k"
      using mem_budget.consume_frame [OF assms(1) that] by (simp add: b')
    then show ?thesis
      by (cases "bg_ValidateKey k") (simp_all add: bg_Peek_eq bg_view_eq inv' assms(1))
  qed
  moreover have "bg_Peek b' background now key = Inr (bg_view b' now key)"
    using valid(1) inv' by (simp add: bg_Peek_eq bg_view_eq)
  moreover have "ok = (amount \<le> rem)" "left = (if ok then rem - amount else rem)" "bg_view b' now key = left"
    using mem_budget.consume_answer [OF assms(1,3)] unfolding valid(2) by blast+
  ultimately show ?thesis by simp
qed

lemma bg_inv_ex [simp]: "bg_inv bg_ex"
  by (simp add: bg_ex_def bg_inv_def bg_ready_def in_i64_def)

lemma bg_ex_first: "fst (bg_Consume bg_ex background 5 ''k'' 7) = (True, 3, 0, None)"
  by (simp add: bg_ex_def bg_eval)

theorem bg_Consume_contract_witness:
  "bg_Peek bg_ex background 5 ''k'' = Inr 10 \<and>
   bg_Peek (snd (bg_Consume bg_ex background 5 ''k'' 7)) background 5 ''k'' = Inr 3"
proof -
  have pk: "bg_Peek bg_ex background 5 ''k'' = Inr 10" by (simp add: bg_ex_def bg_eval)
  have "bg_Consume bg_ex background 5 ''k'' 7 =
      ((True, 3, 0, None), snd (bg_Consume bg_ex background 5 ''k'' 7))"
    using bg_ex_first by (simp add: prod_eq_iff)
  from bg_Consume_contract [OF bg_inv_ex pk this] show ?thesis using pk by blast
qed

text \<open>
  Property C23.  A refund undoes its charge.  If \<^verbatim>\<open>Consume\<close> admitted an amount at \<open>now\<close>, then
  \<^verbatim>\<open>Refund\<close> of the same amount for any timestamp of the same period returns the remaining budget
  from before the charge, and afterwards \<^verbatim>\<open>Peek\<close> reports for every key what it reported before
  the charge, throughout that period.
\<close>

theorem bg_refund_roundtrip:
  assumes "bg_inv b" and "in_i64 amount"
    and con: "bg_Consume b ctx now key amount = ((True, left, wait, e), b')"
    and "bg_pid b chargedAt = bg_pid b now" and "\<not> is_zero chargedAt" and "ctx_obs ctx' 0 = None"
    and "bg_pid b t = bg_pid b now"
    and ref: "bg_Refund b' ctx' key amount chargedAt = (r, b'')"
  shows "r = bg_Peek b background now key \<and> bg_Peek b'' background t k = bg_Peek b background t k"
proof -
  have acc: "bg_accepts ctx key amount \<and> ctx_obs ctx 1 = None"
    using bg_Consume_rejects [OF assms(1), of ctx key amount now] con by fastforce
  define l where "l = bg_left b (bg_pid b now) key"
  have fits: "amount \<le> l" and b': "b' = b\<lparr>buckets :=
        AList.update key \<lparr>periodN = bg_pid b now, used = bcap b - l + amount\<rparr> (buckets b)\<rparr>"
    using acc con bg_Consume_eq [OF assms(1), of ctx key amount now, folded l_def] by (auto split: if_splits)
  have inv': "bg_inv b'" using bg_inv_Consume [OF assms(1), of ctx now key amount] con by simp
  have l: "0 \<le> l" "l \<le> bcap b" using bg_left_bounds [OF assms(1)] by (auto simp: l_def)
  have acc': "bg_accepts ctx' key amount" using acc assms(6) by (simp add: bg_accepts_def)
  have left': "bg_left b' (bg_pid b now) key = l - amount"
    by (simp add: b' bg_left_update)
  have refund: "r = Inr l \<and> b'' = b\<lparr>buckets :=
        AList.update key \<lparr>periodN = bg_pid b now, used = bcap b - l\<rparr> (buckets b)\<rparr>"
    using ref bg_Refund_eq [OF inv' acc' assms(5,2)] l assms(4) left'
    by (auto simp: b' gomap_simps)
  have inv'': "bg_inv b''"
    using bg_inv_Refund [OF inv' assms(2), of ctx' key chargedAt] ref by simp
  show ?thesis
    using refund inv'' assms(1,7) acc
    by (auto simp: bg_Peek_eq bg_accepts_def l_def bg_left_update split: option.splits)
qed

theorem bg_refund_roundtrip_witness:
  "\<exists>b' b'' r left wait e. bg_Consume bg_ex background 5 ''k'' 7 = ((True, left, wait, e), b') \<and>
     bg_Refund b' background ''k'' 7 42 = (r, b'') \<and>
     r = bg_Peek bg_ex background 5 ''k'' \<and>
     bg_Peek b'' background 59 ''k'' = bg_Peek bg_ex background 59 ''k''"
proof -
  obtain left wait e b' where c: "bg_Consume bg_ex background 5 ''k'' 7 = ((True, left, wait, e), b')"
    using bg_ex_first by (metis prod.collapse)
  obtain r b'' where d: "bg_Refund b' background ''k'' 7 42 = (r, b'')" by (cases "bg_Refund b' background ''k'' 7 42")
  have "bg_pid bg_ex 42 = 0" "bg_pid bg_ex 59 = 0" "bg_pid bg_ex 5 = 0" by (simp_all add: bg_ex_def bg_eval)
  then show ?thesis
    using bg_refund_roundtrip [OF bg_inv_ex _ c _ _ _ _ d, of 59 "''k''"] c d
    by (auto simp: in_i64_def zero_time_def)
qed

text \<open>
  The retry hint of a refusal is exact.  If \<^verbatim>\<open>Consume\<close> refuses an amount that fits
  the cap, then with no other call in between the same request is admitted at a later time
  exactly if the time has reached \<^verbatim>\<open>now + retryAfter\<close>; the hint is positive.
\<close>

lemma bg_retry_exact:
  assumes "bg_inv b" and "0 \<le> now"
    and con: "bg_Consume b ctx now key amount = ((False, left, wait, None), b')"
    and "amount \<le> bcap b" and "now \<le> t" and "in_i64 (t + period b)"
  shows "0 < wait \<and> (fst (fst (bg_Consume b' background t key amount)) \<longleftrightarrow> now + wait \<le> t)"
proof -
  have p: "0 < period b" using assms(1) by (simp add: bg_inv_def bg_ready_def)
  have n: "in_i64 (now + period b)" using assms(2,5,6) p by (simp add: in_i64_def)
  have acc: "bg_accepts ctx key amount \<and> ctx_obs ctx 1 = None"
    using bg_Consume_rejects [OF assms(1), of ctx key amount now] con by fastforce
  define l where "l = bg_left b (bg_pid b now) key"
  have refused: "l < amount" and wait: "wait = retry_after b now" and b': "b' = b\<lparr>buckets :=
        AList.update key \<lparr>periodN = bg_pid b now, used = bcap b - l\<rparr> (buckets b)\<rparr>"
    using acc con bg_Consume_eq [OF assms(1), of ctx key amount now, folded l_def] by (auto split: if_splits)
  have inv': "bg_inv b'" using bg_inv_Consume [OF assms(1), of ctx now key amount] con by simp
  have acc': "bg_accepts background key amount" using acc by (simp add: bg_accepts_def)
  have "fst (fst (bg_Consume b' background t key amount)) \<longleftrightarrow> amount \<le> bg_left b' (bg_pid b' t) key"
    using bg_Consume_eq [OF inv' acc', of t] by simp
  also have "\<dots> \<longleftrightarrow> bg_pid b t \<noteq> bg_pid b now"
    using refused assms(4) by (simp add: b' bg_left_update)
  also have "\<dots> \<longleftrightarrow> now + wait \<le> t"
    using bg_pid_window [OF assms(1,2,5,6)] by (auto simp: wait)
  finally show ?thesis
    using window_bounds(1) [OF p, of now] by (simp add: wait retry_after_eq [OF assms(1,2) n])
qed

lemma bg_retry_exact_example:
  "\<exists>b' left wait. bg_Consume bg_ex background 5 ''k'' 7 = ((True, 3, 0, None), b') \<and>
     bg_Consume b' background 5 ''k'' 7 = ((False, left, wait, None), snd (bg_Consume b' background 5 ''k'' 7)) \<and>
     (fst (fst (bg_Consume (snd (bg_Consume b' background 5 ''k'' 7)) background 60 ''k'' 7)) \<longleftrightarrow> 5 + wait \<le> 60)"
proof -
  define b' where "b' = bg_ex\<lparr>buckets := [(''k'', \<lparr>periodN = 0, used = 7\<rparr>)]\<rparr>"
  have first: "bg_Consume bg_ex background 5 ''k'' 7 = ((True, 3, 0, None), b')"
    by (simp add: bg_ex_def b'_def bg_eval)
  have inv: "bg_inv b'" using bg_inv_Consume [OF bg_inv_ex, of background 5 "''k''" 7] first by simp
  have second: "bg_Consume b' background 5 ''k'' 7 = ((False, 3, 55, None), b')"
    by (simp add: bg_ex_def b'_def bg_eval)
  from bg_retry_exact [OF inv _ second, of 60] first second show ?thesis
    by (auto simp: b'_def bg_ex_def in_i64_def)
qed

end
