(* ===== verification/Budget_Conc.thy ===== *)
theory Budget_Conc
  imports Budget
begin

text \<open>
  The memory budget under concurrency: the lock protocol of \<^verbatim>\<open>data/budget/memory/memory.go\<close>
  taken apart.

  Buckets live at addresses; the \<^verbatim>\<open>sync.Map\<close> holds addresses; every bucket has a mutex with an
  owner.  Each goroutine has a program counter, and one step is one access to the map, one lock
  operation, or one critical section on a bucket (which only its owner runs).  A schedule is any
  list of events: starting a call, letting a goroutine make its next step, or advancing the
  clock, which never goes back.

  Results: the critical sections of \<^verbatim>\<open>Consume\<close> and \<^verbatim>\<open>Refund\<close> only ever touch the bucket that is
  in the map, so every step is a step of the sequential model or changes nothing; and a schedule
  in which a goroutine that read the clock before a window boundary takes the lock after it,
  which resets the new window and lets it be spent twice.
\<close>

record request =
  rctx :: ctxt
  rkey :: string
  ramount :: int
  rtime :: time

datatype pc =
    Idle
  | CLoad request | CStore request | CLock request nat | CCheck request nat | CHeld request nat
  | CRetry request nat
  | RLoad request | RLock request nat | RCheck request nat | RHeld request nat | RRetry request nat
  | SScan int | SLock int string nat | SHeld int string nat | SUnlock int nat
  | Unlock nat

record conc =
  heap :: "nat \<Rightarrow> bucket"
  nexta :: nat
  bmap :: "string \<Rightarrow> nat option"
  owner :: "nat \<Rightarrow> nat option"
  thr :: "nat \<Rightarrow> pc"
  cclock :: time
  clog :: "bg_entry list"

definition conc_init :: "time \<Rightarrow> conc" where
  "conc_init t = \<lparr>heap = (\<lambda>_. \<lparr>periodN = 0, used = 0\<rparr>), nexta = 0, bmap = (\<lambda>_. None),
     owner = (\<lambda>_. None), thr = (\<lambda>_. Idle), cclock = t, clog = []\<rparr>"

definition goto :: "nat \<Rightarrow> pc \<Rightarrow> conc \<Rightarrow> conc" where
  "goto tid p s = s\<lparr>thr := (thr s)(tid := p)\<rparr>"

text \<open>\<^verbatim>\<open>bk.mu.Lock()\<close> blocks while the mutex is held; \<^verbatim>\<open>bk.mu.Unlock()\<close> frees it.\<close>

definition lock :: "nat \<Rightarrow> nat \<Rightarrow> pc \<Rightarrow> conc \<Rightarrow> conc option" where
  "lock tid a p s =
     (case owner s a of
        None \<Rightarrow> Some (goto tid p (s\<lparr>owner := (owner s)(a := Some tid)\<rparr>))
      | Some _ \<Rightarrow> None)"

definition unlock :: "nat \<Rightarrow> nat \<Rightarrow> pc \<Rightarrow> conc \<Rightarrow> conc" where
  "unlock tid a p s = goto tid p (s\<lparr>owner := (owner s)(a := None)\<rparr>)"

definition load_or_store :: "budget \<Rightarrow> nat \<Rightarrow> request \<Rightarrow> conc \<Rightarrow> conc" where
  "load_or_store cfg tid r s =
     (case bmap s (rkey r) of
        Some a \<Rightarrow> goto tid (CLock r a) s
      | None \<Rightarrow>
          let a = nexta s
          in goto tid (CLock r a)
               (s\<lparr>heap := (heap s)(a := \<lparr>periodN = fst (periodOf cfg (rtime r)), used = 0\<rparr>),
                  nexta := Suc a, bmap := (bmap s)(rkey r := Some a)\<rparr>))"

definition consume_section :: "budget \<Rightarrow> nat \<Rightarrow> request \<Rightarrow> nat \<Rightarrow> conc \<Rightarrow> conc" where
  "consume_section cfg tid r a s =
     (if ctx_obs (rctx r) 1 \<noteq> None then goto tid (Unlock a) s
      else
        let pid = fst (periodOf cfg (rtime r));
            d = time_sub (snd (periodOf cfg (rtime r))) (rtime r);
            ((ok, _, _), bk) = consume_bucket (bcap cfg) pid (if d < 0 then 0 else d) (ramount r) (heap s a)
        in goto tid (Unlock a)
             (s\<lparr>heap := (heap s)(a := bk),
                clog := (if ok then clog s @ [(rkey r, pid, ramount r)] else clog s)\<rparr>))"

definition refund_bucket :: "int \<Rightarrow> int \<Rightarrow> bucket \<Rightarrow> bucket" where
  "refund_bucket pid amount bk =
     (if periodN bk \<noteq> pid then bk
      else let d = wrap64 (used bk - amount) in bk\<lparr>used := (if d < 0 then 0 else d)\<rparr>)"

definition sweep_section :: "nat \<Rightarrow> int \<Rightarrow> string \<Rightarrow> nat \<Rightarrow> conc \<Rightarrow> conc" where
  "sweep_section tid cur k a s =
     goto tid (SUnlock cur a)
       (if periodN (heap s a) < cur \<and> bmap s k = Some a
        then s\<lparr>bmap := (bmap s)(k := None)\<rparr> else s)"

text \<open>The next step of a goroutine; \<^const>\<open>None\<close> if it is idle or blocked.\<close>

definition tstep :: "budget \<Rightarrow> nat \<Rightarrow> conc \<Rightarrow> conc option" where
  "tstep cfg tid s =
     (case thr s tid of
        Idle \<Rightarrow> None
      | CLoad r \<Rightarrow>
          Some (goto tid (case bmap s (rkey r) of Some a \<Rightarrow> CLock r a | None \<Rightarrow> CStore r) s)
      | CStore r \<Rightarrow> Some (load_or_store cfg tid r s)
      | CLock r a \<Rightarrow> lock tid a (CCheck r a) s
      | CCheck r a \<Rightarrow> Some (goto tid (if bmap s (rkey r) = Some a then CHeld r a else CRetry r a) s)
      | CHeld r a \<Rightarrow> Some (consume_section cfg tid r a s)
      | CRetry r a \<Rightarrow> Some (unlock tid a (CLoad r) s)
      | RLoad r \<Rightarrow>
          Some (goto tid (case bmap s (rkey r) of Some a \<Rightarrow> RLock r a | None \<Rightarrow> Idle) s)
      | RLock r a \<Rightarrow> lock tid a (RCheck r a) s
      | RCheck r a \<Rightarrow> Some (goto tid (if bmap s (rkey r) = Some a then RHeld r a else RRetry r a) s)
      | RHeld r a \<Rightarrow>
          Some (goto tid (Unlock a)
            (s\<lparr>heap := (heap s)(a := refund_bucket (fst (periodOf cfg (rtime r))) (ramount r) (heap s a))\<rparr>))
      | RRetry r a \<Rightarrow> Some (unlock tid a (RLoad r) s)
      | SScan cur \<Rightarrow> None
      | SLock cur k a \<Rightarrow> lock tid a (SHeld cur k a) s
      | SHeld cur k a \<Rightarrow> Some (sweep_section tid cur k a s)
      | SUnlock cur a \<Rightarrow> Some (unlock tid a (SScan cur) s)
      | Unlock a \<Rightarrow> Some (unlock tid a Idle s))"

datatype event =
    EvTick nat
  | EvConsume nat ctxt string int
  | EvRefund nat ctxt string int time
  | EvSweep nat
  | EvVisit nat string
  | EvSweepEnd nat
  | EvStep nat

text \<open>
  The entry checks of \<^verbatim>\<open>Consume\<close> and \<^verbatim>\<open>Refund\<close> read no shared state: a call that fails them leaves
  its goroutine idle.  \<^verbatim>\<open>Consume\<close> and \<^verbatim>\<open>sweep\<close> read the clock when they start.
\<close>

fun cexec :: "budget \<Rightarrow> event \<Rightarrow> conc \<Rightarrow> conc option" where
  "cexec cfg (EvTick d) s = Some (s\<lparr>cclock := cclock s + int d\<rparr>)"
| "cexec cfg (EvConsume tid ctx key amount) s =
     (if thr s tid \<noteq> Idle then None
      else if ctx_obs ctx 0 \<noteq> None \<or> \<not> bg_ready cfg \<or> bg_ValidateKey key \<noteq> None \<or> amount < 0 then Some s
      else Some (goto tid (CLoad \<lparr>rctx = ctx, rkey = key, ramount = amount, rtime = cclock s\<rparr>) s))"
| "cexec cfg (EvRefund tid ctx key amount chargedAt) s =
     (if thr s tid \<noteq> Idle then None
      else if ctx_obs ctx 0 \<noteq> None \<or> \<not> bg_ready cfg \<or> bg_ValidateKey key \<noteq> None \<or> amount < 0 \<or> is_zero chargedAt
      then Some s
      else Some (goto tid (RLoad \<lparr>rctx = ctx, rkey = key, ramount = amount, rtime = chargedAt\<rparr>) s))"
| "cexec cfg (EvSweep tid) s =
     (if thr s tid \<noteq> Idle then None else Some (goto tid (SScan (fst (periodOf cfg (cclock s)))) s))"
| "cexec cfg (EvVisit tid k) s =
     (case thr s tid of
        SScan cur \<Rightarrow> (case bmap s k of Some a \<Rightarrow> Some (goto tid (SLock cur k a) s) | None \<Rightarrow> None)
      | _ \<Rightarrow> None)"
| "cexec cfg (EvSweepEnd tid) s =
     (case thr s tid of SScan cur \<Rightarrow> Some (goto tid Idle s) | _ \<Rightarrow> None)"
| "cexec cfg (EvStep tid) s = tstep cfg tid s"

fun crun :: "budget \<Rightarrow> event list \<Rightarrow> conc \<Rightarrow> conc option" where
  "crun cfg [] s = Some s"
| "crun cfg (e # es) s = (case cexec cfg e s of Some s' \<Rightarrow> crun cfg es s' | None \<Rightarrow> None)"


section \<open>The lock invariant\<close>

fun pc_holds :: "pc \<Rightarrow> nat option" where
  "pc_holds (CCheck r a) = Some a"
| "pc_holds (CHeld r a) = Some a"
| "pc_holds (CRetry r a) = Some a"
| "pc_holds (RCheck r a) = Some a"
| "pc_holds (RHeld r a) = Some a"
| "pc_holds (RRetry r a) = Some a"
| "pc_holds (SHeld cur k a) = Some a"
| "pc_holds (SUnlock cur a) = Some a"
| "pc_holds (Unlock a) = Some a"
| "pc_holds _ = None"

text \<open>The key and the bucket a goroutine works on after its re-check of the map.\<close>

fun pc_bound :: "pc \<Rightarrow> (string \<times> nat) option" where
  "pc_bound (CHeld r a) = Some (rkey r, a)"
| "pc_bound (RHeld r a) = Some (rkey r, a)"
| "pc_bound _ = None"

definition conc_inv :: "conc \<Rightarrow> bool" where
  "conc_inv s \<longleftrightarrow>
     (\<forall>tid a. pc_holds (thr s tid) = Some a \<longrightarrow> owner s a = Some tid) \<and>
     (\<forall>tid k a. pc_bound (thr s tid) = Some (k, a) \<longrightarrow> bmap s k = Some a) \<and>
     (\<forall>k a. bmap s k = Some a \<longrightarrow> a < nexta s) \<and>
     (\<forall>k k' a. bmap s k = Some a \<longrightarrow> bmap s k' = Some a \<longrightarrow> k = k')"

lemma conc_invD:
  assumes "conc_inv s"
  shows "pc_holds (thr s tid) = Some a \<Longrightarrow> owner s a = Some tid"
    and "pc_bound (thr s tid) = Some (k, a) \<Longrightarrow> bmap s k = Some a"
    and "bmap s k = Some a \<Longrightarrow> a < nexta s"
    and "bmap s k = Some a \<Longrightarrow> bmap s k' = Some a \<Longrightarrow> k = k'"
  using assms unfolding conc_inv_def by blast+

lemma pc_bound_holds: "pc_bound p = Some (k, a) \<Longrightarrow> pc_holds p = Some a"
  by (cases p) auto

lemma conc_inv_init: "conc_inv (conc_init t)"
  by (simp add: conc_inv_def conc_init_def)

text \<open>Moving a goroutine to a place where it holds nothing it does not own is harmless.\<close>

lemma conc_inv_goto:
  assumes "conc_inv s" and "\<And>a. pc_holds p = Some a \<Longrightarrow> owner s a = Some tid"
    and "\<And>k a. pc_bound p = Some (k, a) \<Longrightarrow> bmap s k = Some a"
  shows "conc_inv (goto tid p s)"
  using assms by (auto simp: conc_inv_def goto_def)

lemma conc_inv_lock:
  assumes "conc_inv s" and "lock tid a p s = Some s'" and "pc_holds p = Some a" and "pc_bound p = None"
  shows "conc_inv s'"
proof -
  have free: "owner s a = None" and s': "s' = goto tid p (s\<lparr>owner := (owner s)(a := Some tid)\<rparr>)"
    using assms(2) by (auto simp: lock_def split: option.splits)
  have "pc_holds (thr s t) \<noteq> Some a" for t
    using conc_invD(1) [OF assms(1), of t a] free by auto
  then show ?thesis
    using assms(1,3,4) by (auto simp: s' conc_inv_def goto_def)
qed

lemma conc_inv_unlock:
  assumes "conc_inv s" and "pc_holds (thr s tid) = Some a" and "pc_holds p = None"
  shows "conc_inv (unlock tid a p s)"
proof -
  have own: "owner s a = Some tid" using conc_invD(1) [OF assms(1,2)] .
  have others: "pc_holds (thr s t) \<noteq> Some a" if "t \<noteq> tid" for t
    using conc_invD(1) [OF assms(1), of t a] own that by auto
  have "pc_bound p = None" using assms(3) pc_bound_holds [of p] by (cases "pc_bound p") auto
  then show ?thesis
    using assms(1,3) others by (auto simp: unlock_def conc_inv_def goto_def)
qed

lemma conc_inv_store:
  assumes "conc_inv s"
  shows "conc_inv (load_or_store cfg tid r s)"
proof (cases "bmap s (rkey r)")
  case None
  have "bmap s k \<noteq> Some (nexta s)" for k using conc_invD(3) [OF assms, of k] by auto
  then show ?thesis
    using assms None
    by (auto simp: load_or_store_def Let_def conc_inv_def goto_def less_SucI split: if_splits)
next
  case (Some a)
  then show ?thesis using assms by (auto simp: load_or_store_def intro: conc_inv_goto)
qed

lemma conc_inv_heap [simp]:
  "conc_inv (s\<lparr>heap := h\<rparr>) = conc_inv s" "conc_inv (s\<lparr>clog := l\<rparr>) = conc_inv s"
  by (simp_all add: conc_inv_def)

text \<open>
  The sweeper removes a bucket only while it owns its mutex, so no other goroutine can be
  between its re-check and its unlock.
\<close>

lemma conc_inv_sweep:
  assumes "conc_inv s" and "thr s tid = SHeld cur k a"
  shows "conc_inv (sweep_section tid cur k a s)"
proof -
  have own: "owner s a = Some tid" using conc_invD(1) [OF assms(1), of tid a] assms(2) by simp
  have "pc_bound (thr s t) \<noteq> Some (k, a)" for t
    using conc_invD(1) [OF assms(1), of t a] pc_bound_holds [of "thr s t" k a] own assms(2) by auto
  then have "conc_inv (s\<lparr>bmap := (bmap s)(k := None)\<rparr>)" if "bmap s k = Some a"
    using assms(1) that by (auto simp: conc_inv_def)
  then show ?thesis
    using assms(1) own by (auto simp: sweep_section_def intro!: conc_inv_goto)
qed


lemma conc_inv_tstep:
  assumes inv: "conc_inv s" and st: "tstep cfg tid s = Some s'"
  shows "conc_inv s'"
proof (cases "thr s tid")
  case (CHeld r a)
  then have "owner s a = Some tid" using conc_invD(1) [OF inv, of tid a] by simp
  then have "conc_inv (consume_section cfg tid r a s)"
    unfolding consume_section_def Let_def case_prod_beta
    using inv by (auto intro!: conc_inv_goto)
  then show ?thesis using st CHeld by (simp add: tstep_def)
next
  case (RHeld r a)
  then have "owner s a = Some tid" using conc_invD(1) [OF inv, of tid a] by simp
  then show ?thesis
    using st RHeld inv
    by (auto simp: tstep_def intro!: conc_inv_goto)
next
  case (SHeld cur k a)
  then show ?thesis using st conc_inv_sweep [OF inv SHeld] by (simp add: tstep_def)
next
  case (CCheck r a)
  then show ?thesis
    using st inv conc_invD(1) [OF inv, of tid a]
    by (auto simp: tstep_def intro!: conc_inv_goto split: if_splits)
next
  case (RCheck r a)
  then show ?thesis
    using st inv conc_invD(1) [OF inv, of tid a]
    by (auto simp: tstep_def intro!: conc_inv_goto split: if_splits)
next
  case (CStore r)
  then show ?thesis using st conc_inv_store [OF inv] by (auto simp: tstep_def)
qed (use st inv in \<open>auto simp: tstep_def intro!: conc_inv_goto conc_inv_unlock
       dest: conc_inv_lock [OF inv] split: option.splits\<close>)

lemma conc_inv_cexec:
  assumes "conc_inv s" and "cexec cfg e s = Some s'"
  shows "conc_inv s'"
proof (cases e)
  case (EvTick d)
  then show ?thesis using assms by (auto simp: conc_inv_def)
next
  case (EvStep tid)
  then show ?thesis using assms conc_inv_tstep by simp
qed (use assms in \<open>auto intro!: conc_inv_goto split: if_splits pc.splits option.splits\<close>)

lemma conc_inv_crun: "conc_inv s \<Longrightarrow> crun cfg es s = Some s' \<Longrightarrow> conc_inv s'"
  by (induction es arbitrary: s) (auto split: option.splits intro: conc_inv_cexec)

section \<open>Refinement of the sequential model\<close>

text \<open>What the map shows of the heap.\<close>

definition cview :: "conc \<Rightarrow> string \<Rightarrow> bucket option" where
  "cview s k = map_option (heap s) (bmap s k)"

text \<open>The sequential effects: nothing, a new empty bucket, a charge, a refund, an eviction.\<close>

inductive astep :: "budget \<Rightarrow> (string \<Rightarrow> bucket option) \<times> bg_entry list \<Rightarrow>
                    (string \<Rightarrow> bucket option) \<times> bg_entry list \<Rightarrow> bool" for cfg where
  stutter: "astep cfg (m, log) (m, log)"
| register: "m k = None \<Longrightarrow> astep cfg (m, log) (m(k \<mapsto> \<lparr>periodN = p, used = 0\<rparr>), log)"
| charge: "m k = Some bk \<Longrightarrow> consume_bucket (bcap cfg) (fst (periodOf cfg t)) w n bk = ((ok, rem, wait), bk') \<Longrightarrow>
    astep cfg (m, log) (m(k \<mapsto> bk'), if ok then log @ [(k, fst (periodOf cfg t), n)] else log)"
| refund: "m k = Some bk \<Longrightarrow> astep cfg (m, log) (m(k \<mapsto> refund_bucket (fst (periodOf cfg t)) n bk), log)"
| evict: "m k = Some bk \<Longrightarrow> periodN bk < cur \<Longrightarrow> astep cfg (m, log) (m(k := None), log)"

lemma cview_goto [simp]: "cview (goto tid p s) = cview s" "clog (goto tid p s) = clog s"
  by (simp_all add: fun_eq_iff cview_def goto_def)

lemma cview_frame [simp]:
  "cview (s\<lparr>owner := ow\<rparr>) = cview s" "cview (s\<lparr>cclock := t\<rparr>) = cview s" "cview (s\<lparr>clog := l\<rparr>) = cview s"
  by (simp_all add: fun_eq_iff cview_def)

text \<open>Writing a bucket that is in the map changes the view of its key and of no other.\<close>

lemma cview_write:
  assumes "conc_inv s" and "bmap s k = Some a"
  shows "cview (s\<lparr>heap := (heap s)(a := bk)\<rparr>) = (cview s)(k \<mapsto> bk)"
  using assms(2) conc_invD(4) [OF assms(1)] by (auto simp: fun_eq_iff cview_def intro!: option.map_cong)


lemma astep_tstep:
  assumes inv: "conc_inv s" and st: "tstep cfg tid s = Some s'"
  shows "astep cfg (cview s, clog s) (cview s', clog s')"
proof (cases "thr s tid")
  case (CStore r)
  then have s': "s' = load_or_store cfg tid r s" using st by (simp add: tstep_def)
  show ?thesis
  proof (cases "bmap s (rkey r)")
    case None
    have "bmap s k \<noteq> Some (nexta s)" for k using conc_invD(3) [OF inv, of k] by auto
    then have "cview s' = (cview s)(rkey r \<mapsto> \<lparr>periodN = bg_pid cfg (rtime r), used = 0\<rparr>)"
      using None by (auto simp: s' load_or_store_def Let_def cview_def goto_def fun_eq_iff intro!: option.map_cong)
    moreover have "clog s' = clog s" using None by (simp add: s' load_or_store_def Let_def)
    moreover have "cview s (rkey r) = None" using None by (simp add: cview_def)
    ultimately show ?thesis by (auto intro: astep.register)
  next
    case (Some a)
    then show ?thesis by (simp add: s' load_or_store_def astep.stutter)
  qed
next
  case (CHeld r a)
  then have live: "bmap s (rkey r) = Some a" using conc_invD(2) [OF inv, of tid] by simp
  have s': "s' = consume_section cfg tid r a s" using st CHeld by (simp add: tstep_def)
  show ?thesis
  proof (cases "ctx_obs (rctx r) 1")
    case None
    define d where "d = time_sub (snd (periodOf cfg (rtime r))) (rtime r)"
    obtain ok rem wait bk where sec: "consume_bucket (bcap cfg) (bg_pid cfg (rtime r))
        (if d < 0 then 0 else d) (ramount r) (heap s a) = ((ok, rem, wait), bk)"
      by (metis surj_pair)
    have "cview s' = (cview s)(rkey r \<mapsto> bk)"
      and "clog s' = (if ok then clog s @ [(rkey r, bg_pid cfg (rtime r), ramount r)] else clog s)"
      using None sec cview_write [OF inv live, of bk]
      by (auto simp: s' consume_section_def Let_def d_def)
    moreover have "cview s (rkey r) = Some (heap s a)" using live by (simp add: cview_def)
    ultimately show ?thesis using astep.charge [where m = "cview s" and log = "clog s", OF _ sec] by simp
  next
    case (Some e)
    then show ?thesis by (simp add: s' consume_section_def astep.stutter)
  qed
next
  case (RHeld r a)
  then have live: "bmap s (rkey r) = Some a" using conc_invD(2) [OF inv, of tid] by simp
  then have "cview s (rkey r) = Some (heap s a)" by (simp add: cview_def)
  from astep.refund [where m = "cview s" and log = "clog s" and cfg = cfg and t = "rtime r" and n = "ramount r", OF this]
  show ?thesis using st RHeld cview_write [OF inv live] by (auto simp: tstep_def)
next
  case (SHeld cur k a)
  then have s': "s' = sweep_section tid cur k a s" using st by (simp add: tstep_def)
  show ?thesis
  proof (cases "periodN (heap s a) < cur \<and> bmap s k = Some a")
    case True
    then have "cview s' = (cview s)(k := None)" "clog s' = clog s"
      by (auto simp: s' sweep_section_def cview_def goto_def fun_eq_iff)
    moreover have "cview s k = Some (heap s a)" using True by (simp add: cview_def)
    ultimately show ?thesis using True by (auto intro: astep.evict)
  next
    case False
    then show ?thesis using astep.stutter by (auto simp: s' sweep_section_def)
  qed
qed (use st in \<open>auto simp: tstep_def lock_def unlock_def astep.stutter split: option.splits\<close>)

section \<open>Properties\<close>

text \<open>
  Property C3.  The locking of the memory budget is sound: in every state that any schedule of
  concurrent calls of \<^verbatim>\<open>Consume\<close>, \<^verbatim>\<open>Refund\<close> and the sweeper can reach, the next step of any goroutine
  changes what the map shows either not at all or by exactly one sequential effect: an empty
  bucket is registered, or the critical section of \<^verbatim>\<open>Consume\<close> or \<^verbatim>\<open>Refund\<close> runs on the bucket that is
  in the map, or a bucket of an earlier period is evicted.  No charge is ever booked on a bucket
  that the sweeper has removed.
\<close>

theorem conc_refines_sequential:
  assumes "crun cfg es (conc_init t) = Some s" and "cexec cfg e s = Some s'"
  shows "astep cfg (cview s, clog s) (cview s', clog s')"
proof -
  have inv: "conc_inv s" using conc_inv_crun [OF conc_inv_init assms(1)] .
  show ?thesis
  proof (cases e)
    case (EvStep tid)
    then show ?thesis using astep_tstep [OF inv] assms(2) by simp
  qed (use assms(2) in \<open>auto simp: astep.stutter split: if_splits pc.splits option.splits\<close>)
qed

lemmas conc_eval = tstep_def goto_def lock_def unlock_def load_or_store_def consume_section_def
  sweep_section_def conc_init_def Let_def

theorem conc_refines_sequential_witness:
  "\<exists>s s'. crun bg_ex [EvConsume 0 background ''k'' 7, EvStep 0, EvStep 0, EvStep 0, EvStep 0] (conc_init 5) = Some s \<and>
     cexec bg_ex (EvStep 0) s = Some s' \<and> clog s' = [(''k'', 0, 7)] \<and>
     astep bg_ex (cview s, clog s) (cview s', clog s')"
proof -
  define es where "es = [EvConsume 0 background ''k'' 7, EvStep 0, EvStep 0, EvStep 0, EvStep 0]"
  have "\<exists>s. crun bg_ex es (conc_init 5) = Some s \<and> (\<exists>s'. cexec bg_ex (EvStep 0) s = Some s' \<and> clog s' = [(''k'', 0, 7)])"
    by (simp add: es_def conc_eval bg_eval bg_ex_def)
  then show ?thesis using conc_refines_sequential unfolding es_def by blast
qed

text \<open>
  Property C25.  The locking does not make \<^verbatim>\<open>Consume\<close> safe across a window boundary.  The clock is
  read before the mutex is taken, and a bucket of any other period is reset, also one of a later
  period.  With a cap of 10, a goroutine that reads the clock in window 0 and gets the mutex
  after window 1 has been spent resets the bucket to window 0, and the next caller resets it to
  window 1 with nothing used: window 1 admits 20 units.
\<close>

theorem conc_stale_clock_overspends:
  "\<exists>es s. crun bg_ex es (conc_init 59) = Some s \<and> net ''k'' 1 (clog s) = 2 * bcap bg_ex"
proof -
  define es where "es =
    [EvConsume 0 background ''k'' 1, EvTick 1,
     EvConsume 1 background ''k'' 10, EvStep 1, EvStep 1, EvStep 1, EvStep 1, EvStep 1, EvStep 1,
     EvStep 0, EvStep 0, EvStep 0, EvStep 0, EvStep 0,
     EvConsume 2 background ''k'' 10, EvStep 2, EvStep 2, EvStep 2, EvStep 2]"
  have "\<exists>s. crun bg_ex es (conc_init 59) = Some s \<and> clog s = [(''k'', 1, 10), (''k'', 0, 1), (''k'', 1, 10)]"
    by (simp add: es_def conc_eval bg_eval bg_ex_def)
  then obtain s where "crun bg_ex es (conc_init 59) = Some s" and "net ''k'' 1 (clog s) = 2 * bcap bg_ex"
    by (auto simp: net_def bg_ex_def)
  then show ?thesis by blast
qed

end
