(* ===== verification/Saga.thy ===== *)
theory Saga
  imports Go_Prelude
begin

text \<open>
  Sagas held in memory: \<^verbatim>\<open>runtime/saga/saga.go\<close>.

  A step's callbacks act on a world of any type and may return an error or panic.  \<open>saga_Run\<close>
  returns its result, the world, and the calls it made in order.  Results: which callbacks a run
  calls, in which order, for every outcome; and that a failed run of steps whose compensations
  undo them leaves the world as it was.
\<close>

datatype saga_error =
    SgCause nat
  | SgCtx ctx_error
  | SgInvalid
  | SgInstanceNotFound
  | SgDefinitionNotFound
  | SgStore nat
  | SgWrapped saga_error
  | SgForward nat string saga_error
  | SgCompensate "(nat \<times> string \<times> saga_error) list"
  | SgJoin saga_error saga_error
  | SgPanic

text \<open>What a callback did: returned, with an error or without, or panicked.\<close>

datatype 'a called = Returned 'a | Panicked

datatype call = CallForward nat | CallCompensate nat

record 'w step =
  stName :: string
  stForward :: "(ctxt \<Rightarrow> 'w \<Rightarrow> saga_error option called \<times> 'w) option"
  stCompensate :: "(ctxt \<Rightarrow> 'w \<Rightarrow> saga_error option called \<times> 'w) option"

definition NewDefinition :: "'w step list \<Rightarrow> saga_error + 'w step list" where
  "NewDefinition steps =
     (if steps = [] then Inl SgInvalid
      else if list_ex (\<lambda>s. stName s = [] \<or> stForward s = None) steps then Inl SgInvalid
      else Inr steps)"

text \<open>\<^verbatim>\<open>context.WithoutCancel\<close>\<close>

definition without_cancel :: "ctxt \<Rightarrow> ctxt" where
  "without_cancel ctx = background"

text \<open>The loop of \<^verbatim>\<open>rollBack\<close>, from index \<open>n - 1\<close> down to 0.\<close>

fun roll_back_loop ::
    "ctxt \<Rightarrow> 'w step list \<Rightarrow> nat \<Rightarrow> 'w \<Rightarrow> (nat \<times> string \<times> saga_error) list called \<times> 'w \<times> call list" where
  "roll_back_loop ctx steps 0 w = (Returned [], w, [])"
| "roll_back_loop ctx steps (Suc i) w =
     (case stCompensate (steps ! i) of
        None \<Rightarrow> roll_back_loop ctx steps i w
      | Some cmp \<Rightarrow>
          (case cmp ctx w of
             (Panicked, w1) \<Rightarrow> (Panicked, w1, [CallCompensate i])
           | (Returned err, w1) \<Rightarrow>
               (case roll_back_loop ctx steps i w1 of
                  (Panicked, w2, calls) \<Rightarrow> (Panicked, w2, CallCompensate i # calls)
                | (Returned errs, w2, calls) \<Rightarrow>
                    (Returned (case err of None \<Rightarrow> errs | Some e \<Rightarrow> (i, stName (steps ! i), e) # errs),
                     w2, CallCompensate i # calls))))"

definition rollBack ::
    "ctxt \<Rightarrow> 'w step list \<Rightarrow> nat \<Rightarrow> 'w \<Rightarrow> saga_error \<Rightarrow> saga_error option called \<times> 'w \<times> call list" where
  "rollBack ctx steps failedIndex w fe =
     (case roll_back_loop (without_cancel ctx) steps failedIndex w of
        (Panicked, w1, calls) \<Rightarrow> (Panicked, w1, calls)
      | (Returned errs, w1, calls) \<Rightarrow>
          (Returned (Some (if errs = [] then fe else SgJoin fe (SgCompensate errs))), w1, calls))"

text \<open>The loop of \<^verbatim>\<open>Run\<close>; \<open>rest\<close> are the steps from index \<open>i\<close> on.\<close>

fun run_loop ::
    "ctxt \<Rightarrow> 'w step list \<Rightarrow> nat \<Rightarrow> 'w step list \<Rightarrow> 'w \<Rightarrow> saga_error option called \<times> 'w \<times> call list" where
  "run_loop ctx steps i [] w = (Returned None, w, [])"
| "run_loop ctx steps i (s # rest) w =
     (case ctx_obs ctx i of
        Some e \<Rightarrow> rollBack ctx steps i w (SgForward i (stName s) (SgCtx e))
      | None \<Rightarrow>
          (case stForward s of
             None \<Rightarrow> (Panicked, w, [])
           | Some fwd \<Rightarrow>
               (case fwd ctx w of
                  (Panicked, w1) \<Rightarrow> (Panicked, w1, [CallForward i])
                | (Returned (Some e), w1) \<Rightarrow>
                    (case rollBack ctx steps i w1 (SgForward i (stName s) e) of
                       (r, w2, calls) \<Rightarrow> (r, w2, CallForward i # calls))
                | (Returned None, w1) \<Rightarrow>
                    (case run_loop ctx steps (Suc i) rest w1 of
                       (r, w2, calls) \<Rightarrow> (r, w2, CallForward i # calls)))))"

definition saga_Run ::
    "ctxt \<Rightarrow> 'w step list option \<Rightarrow> 'w \<Rightarrow> saga_error option called \<times> 'w \<times> call list" where
  "saga_Run ctx def w =
     (case def of
        None \<Rightarrow> (Returned (Some SgInvalid), w, [])
      | Some steps \<Rightarrow>
          if ctx = NilCtx then (Returned (Some SgInvalid), w, [])
          else run_loop ctx steps 0 steps w)"

section \<open>Which callbacks are called\<close>

text \<open>The compensations of the steps below \<open>n\<close>, last first.\<close>

definition comp_calls :: "'w step list \<Rightarrow> nat \<Rightarrow> call list" where
  "comp_calls steps n = map CallCompensate (filter (\<lambda>i. stCompensate (steps ! i) \<noteq> None) (rev [0..<n]))"

lemma comp_calls_Suc:
  "comp_calls steps (Suc n) =
     (if stCompensate (steps ! n) = None then comp_calls steps n else CallCompensate n # comp_calls steps n)"
  by (simp add: comp_calls_def)

text \<open>No callback panics.\<close>

definition no_panic :: "'w step list \<Rightarrow> bool" where
  "no_panic steps \<longleftrightarrow> (\<forall>s \<in> set steps.
     (\<forall>f ctx w. stForward s = Some f \<longrightarrow> fst (f ctx w) \<noteq> Panicked) \<and>
     (\<forall>f ctx w. stCompensate s = Some f \<longrightarrow> fst (f ctx w) \<noteq> Panicked))"

section \<open>The specification of a run\<close>

text \<open>The first \<open>k\<close> forward actions found the context live and succeeded, one after the other; \<open>w'\<close> is the world after them.\<close>

inductive forwarded :: "ctxt \<Rightarrow> 'w step list \<Rightarrow> 'w \<Rightarrow> nat \<Rightarrow> 'w \<Rightarrow> bool" for ctx steps w where
  forwarded_0: "forwarded ctx steps w 0 w"
| forwarded_Suc: "forwarded ctx steps w k w1 \<Longrightarrow> k < length steps \<Longrightarrow> ctx_obs ctx k = None \<Longrightarrow>
    stForward (steps ! k) = Some fwd \<Longrightarrow> fwd ctx w1 = (Returned None, w2) \<Longrightarrow> forwarded ctx steps w (Suc k) w2"

text \<open>Step \<open>k\<close> stopped the run with an error: the context was done, or its forward action, which was called, failed.\<close>

inductive stopped :: "ctxt \<Rightarrow> 'w step \<Rightarrow> nat \<Rightarrow> 'w \<Rightarrow> saga_error \<Rightarrow> bool \<Rightarrow> 'w \<Rightarrow> bool" where
  stopped_ctx: "ctx_obs ctx k = Some e \<Longrightarrow> stopped ctx s k w (SgCtx e) False w"
| stopped_fwd: "ctx_obs ctx k = None \<Longrightarrow> stForward s = Some fwd \<Longrightarrow> fwd ctx w = (Returned (Some e), w1) \<Longrightarrow>
    stopped ctx s k w e True w1"

text \<open>
  The compensations of the steps with indices \<open>is\<close>, in that order, under a context that is never done: the
  failures among them and the world they leave.
\<close>

inductive compensated :: "'w step list \<Rightarrow> nat list \<Rightarrow> 'w \<Rightarrow> (nat \<times> string \<times> saga_error) list \<Rightarrow> 'w \<Rightarrow> bool" for steps where
  comp_done: "compensated steps [] w [] w"
| comp_none: "stCompensate (steps ! i) = None \<Longrightarrow> compensated steps is w errs w' \<Longrightarrow> compensated steps (i # is) w errs w'"
| comp_ok: "stCompensate (steps ! i) = Some c \<Longrightarrow> c background w = (Returned None, w1) \<Longrightarrow>
    compensated steps is w1 errs w' \<Longrightarrow> compensated steps (i # is) w errs w'"
| comp_failed: "stCompensate (steps ! i) = Some c \<Longrightarrow> c background w = (Returned (Some e), w1) \<Longrightarrow>
    compensated steps is w1 errs w' \<Longrightarrow> compensated steps (i # is) w ((i, stName (steps ! i), e) # errs) w'"

lemma not_panicked: "fst x \<noteq> Panicked \<Longrightarrow> \<exists>r w. x = (Returned r, w)"
  by (cases x; cases "fst x") auto

lemma roll_back_calls:
  assumes "no_panic steps" and "n \<le> length steps"
  shows "\<exists>errs w'. roll_back_loop background steps n w = (Returned errs, w', comp_calls steps n)
    \<and> compensated steps (rev [0..<n]) w errs w'"
  using assms(2)
proof (induction n arbitrary: w)
  case 0
  then show ?case by (simp add: comp_calls_def comp_done)
next
  case (Suc n)
  show ?case
  proof (cases "stCompensate (steps ! n)")
    case None
    then show ?thesis using Suc.IH [of w] Suc.prems comp_none [OF None] by (auto simp: comp_calls_Suc)
  next
    case (Some cmp)
    have "steps ! n \<in> set steps" using Suc.prems by simp
    then obtain err w1 where c: "cmp background w = (Returned err, w1)"
      using assms(1) Some not_panicked [of "cmp background w"] by (auto simp: no_panic_def)
    obtain errs w2 where "roll_back_loop background steps n w1 = (Returned errs, w2, comp_calls steps n)"
      "compensated steps (rev [0..<n]) w1 errs w2"
      using Suc by (metis Suc_leD)
    then show ?thesis
      using Some c comp_ok [OF Some, of w w1] comp_failed [OF Some, of w _ w1] by (cases err) (auto simp: comp_calls_Suc)
  qed
qed

text \<open>What a run reports that stopped at step \<open>k\<close>.\<close>

definition report :: "'w step list \<Rightarrow> nat \<Rightarrow> saga_error \<Rightarrow> (nat \<times> string \<times> saga_error) list \<Rightarrow> saga_error" where
  "report steps k cause errs =
     (let fe = SgForward k (stName (steps ! k)) cause in if errs = [] then fe else SgJoin fe (SgCompensate errs))"

lemma rollBack_calls:
  assumes "no_panic steps" and "k < length steps"
  shows "\<exists>errs w'. rollBack ctx steps k w (SgForward k (stName (steps ! k)) cause)
      = (Returned (Some (report steps k cause errs)), w', comp_calls steps k)
    \<and> compensated steps (rev [0..<k]) w errs w'"
  using roll_back_calls [OF assms(1), of k w] assms(2)
  by (auto simp: rollBack_def without_cancel_def report_def Let_def)

text \<open>The two ways a run ends, from step \<open>i\<close> on.\<close>

inductive run_ends ::
    "ctxt \<Rightarrow> 'w step list \<Rightarrow> 'w \<Rightarrow> nat \<Rightarrow> saga_error option called \<Rightarrow> 'w \<Rightarrow> call list \<Rightarrow> bool" for ctx steps w0 where
  ends_ok: "forwarded ctx steps w0 (length steps) w' \<Longrightarrow>
    run_ends ctx steps w0 i (Returned None) w' (map CallForward [i..<length steps])"
| ends_failed: "i \<le> k \<Longrightarrow> k < length steps \<Longrightarrow> forwarded ctx steps w0 k w1 \<Longrightarrow>
    stopped ctx (steps ! k) k w1 cause called w2 \<Longrightarrow> compensated steps (rev [0..<k]) w2 errs w' \<Longrightarrow>
    calls = map CallForward [i..<k + (if called then 1 else 0)] @ comp_calls steps k \<Longrightarrow>
    run_ends ctx steps w0 i (Returned (Some (report steps k cause errs))) w' calls"

lemma run_ends_Cons:
  assumes "run_ends ctx steps w0 (Suc i) r w' calls" and "i < length steps"
  shows "run_ends ctx steps w0 i r w' (CallForward i # calls)"
proof -
  have head: "CallForward i # map CallForward [Suc i..<m] = map CallForward [i..<m]" if "i < m" for m
    using that by (simp add: upt_rec)
  from assms(1) show ?thesis
  proof cases
    case ends_ok
    then show ?thesis using run_ends.ends_ok [of ctx steps w0 w' i] head [OF assms(2)] by simp
  next
    case (ends_failed k w1 cause called w2 errs)
    have "CallForward i # calls = map CallForward [i..<k + (if called then 1 else 0)] @ comp_calls steps k"
      using ends_failed head [of "k + (if called then 1 else 0)"] by simp
    then show ?thesis
      unfolding ends_failed(1) using ends_failed by (intro run_ends.ends_failed [of i k]) simp_all
  qed
qed

lemma run_loop_ends:
  assumes "no_panic steps" and "list_all (\<lambda>s. stForward s \<noteq> None) steps"
    and "i \<le> length steps" and "rest = drop i steps" and "forwarded ctx steps w0 i w"
    and "run_loop ctx steps i rest w = (r, w', calls)"
  shows "run_ends ctx steps w0 i r w' calls"
  using assms(3-6)
proof (induction rest arbitrary: i w calls)
  case Nil
  then have "i = length steps" by simp
  then show ?case using Nil ends_ok [of ctx steps w0 w i] by simp
next
  case (Cons s rest)
  have i: "i < length steps" using Cons.prems(2) by (metis drop_all linorder_not_less list.discI)
  have s: "steps ! i = s" using Cons.prems(2) by (metis nth_via_drop)
  have rest: "rest = drop (Suc i) steps" using Cons.prems(2) by (metis drop_Suc list.sel(3) tl_drop)
  have stop: "run_ends ctx steps w0 i r w' calls"
    if st: "stopped ctx s i w cause called w2"
      and rb: "rollBack ctx steps i w2 (SgForward i (stName s) cause) = (r, w', calls')"
      and calls: "calls = map CallForward [i..<i + (if called then 1 else 0)] @ calls'" for cause called w2 calls'
  proof -
    obtain errs where "r = Returned (Some (report steps i cause errs))" "calls' = comp_calls steps i"
      "compensated steps (rev [0..<i]) w2 errs w'"
      using rollBack_calls [OF assms(1) i, of ctx w2 cause] rb unfolding s by auto
    then show ?thesis using ends_failed [OF order_refl i Cons.prems(3) st [folded s]] calls by simp
  qed
  show ?case
  proof (cases "ctx_obs ctx i")
    case (Some x)
    then show ?thesis using stop [OF stopped_ctx [OF Some]] Cons.prems(4) by simp
  next
    case None
    have mem: "s \<in> set steps" using i s by auto
    then obtain fwd where fwd: "stForward s = Some fwd" using assms(2) by (auto simp: list_all_iff)
    then have "fst (fwd ctx w) \<noteq> Panicked" using assms(1) mem unfolding no_panic_def by blast
    then obtain err w1 where call: "fwd ctx w = (Returned err, w1)" using not_panicked by blast
    show ?thesis
    proof (cases err)
      case (Some x)
      obtain calls' where rb: "rollBack ctx steps i w1 (SgForward i (stName s) x) = (r, w', calls')" "calls = CallForward i # calls'"
        using Cons.prems(4) None fwd call Some by (auto split: prod.splits)
      show ?thesis by (rule stop [OF stopped_fwd [OF None fwd] rb(1)]) (use call Some rb in simp_all)
    next
      case ok: None
      obtain calls' where run: "run_loop ctx steps (Suc i) rest w1 = (r, w', calls')" "calls = CallForward i # calls'"
        using Cons.prems(4) None fwd call ok by (auto split: prod.splits)
      have "forwarded ctx steps w0 (Suc i) w1"
        using forwarded_Suc [OF Cons.prems(3) i None] fwd call ok s by simp
      then have "run_ends ctx steps w0 (Suc i) r w' calls'" using Cons.IH [OF _ rest _ run(1)] i by simp
      then show ?thesis unfolding run(2) by (rule run_ends_Cons [OF _ i])
    qed
  qed
qed

text \<open>Every compensation undoes its forward action, and a failing forward action does nothing.\<close>

definition undoes :: "'w step list \<Rightarrow> bool" where
  "undoes steps \<longleftrightarrow> (\<forall>s \<in> set steps. \<forall>f ctx w w1. stForward s = Some f \<longrightarrow>
     (f ctx w = (Returned None, w1) \<longrightarrow>
        (\<exists>c. stCompensate s = Some c \<and> (\<forall>ctx'. c ctx' w1 = (Returned None, w)))) \<and>
     (\<forall>e. f ctx w = (Returned (Some e), w1) \<longrightarrow> w1 = w))"

lemma run_loop_undo:
  assumes "undoes steps" and "rest = drop i steps" and "i \<le> length steps"
    and "\<exists>calls. roll_back_loop background steps i w = (Returned [], w0, calls)"
    and "run_loop ctx steps i rest w = (Returned (Some e), w', calls)"
  shows "w' = w0 \<and> (\<exists>k name cause. e = SgForward k name cause)"
  using assms(2-5)
proof (induction rest arbitrary: i w calls)
  case Nil
  then show ?case by simp
next
  case (Cons s rest)
  have i: "i < length steps" using Cons.prems(1) by (metis drop_all linorder_not_less list.discI)
  have s: "s = steps ! i" using Cons.prems(1) by (metis nth_via_drop)
  have rest: "rest = drop (Suc i) steps" using Cons.prems(1) by (metis drop_Suc list.sel(3) tl_drop)
  have mem: "s \<in> set steps" using i s by simp
  have rb: "\<exists>calls. rollBack ctx steps i w fe = (Returned (Some fe), w0, calls)" for fe
    using Cons.prems(3) by (auto simp: rollBack_def without_cancel_def)
  show ?case
  proof (cases "ctx_obs ctx i")
    case (Some x)
    then show ?thesis using Cons.prems(4) rb [of "SgForward i (stName s) (SgCtx x)"] by auto
  next
    case None
    obtain fwd err w1 where call: "stForward s = Some fwd" "fwd ctx w = (Returned err, w1)"
      using Cons.prems(4) None by (auto split: option.splits prod.splits called.splits)
    show ?thesis
    proof (cases err)
      case (Some x)
      have "w1 = w" using assms(1) mem call Some unfolding undoes_def by blast
      then show ?thesis
        using Cons.prems(4) None call Some rb [of "SgForward i (stName s) x"] by auto
    next
      case ok: None
      obtain c where c: "stCompensate s = Some c" "\<forall>ctx'. c ctx' w1 = (Returned None, w)"
        using assms(1) mem call ok unfolding undoes_def by blast
      obtain calls' where "run_loop ctx steps (Suc i) rest w1 = (Returned (Some e), w', calls')"
        using Cons.prems(4) None call ok by (auto split: prod.splits)
      moreover have "\<exists>calls. roll_back_loop background steps (Suc i) w1 = (Returned [], w0, calls)"
        using Cons.prems(3) c s by auto
      ultimately show ?thesis using Cons.IH [OF rest] i by simp
    qed
  qed
qed

section \<open>Properties\<close>

text \<open>
  Property C28.  What \<^verbatim>\<open>Run\<close> does.  For a definition accepted by \<^verbatim>\<open>NewDefinition\<close>, callbacks that do not
  panic and a context that is not nil, a run ends in one of two ways.  Either every Forward found the
  context live and succeeded, in order, and \<^verbatim>\<open>Run\<close> returns nil after calling exactly these; or there is a step
  \<open>k\<close> such that the Forwards below it succeeded and it is the first that found the context done or whose Forward
  failed: then \<^verbatim>\<open>Run\<close> called the Forwards up to there and the Compensate of every compensable step
  below \<open>k\<close>, once each, last first, also after one of them fails, and returns an error that names \<open>k\<close> and
  its cause, joined with exactly the compensations that failed.  The world is the one these calls leave.
\<close>

theorem saga_Run_calls:
  assumes "NewDefinition steps = Inr def" and "no_panic steps" and "ctx \<noteq> NilCtx"
    and "saga_Run ctx (Some def) w = (r, w', calls)"
  shows "(r = Returned None \<and> forwarded ctx steps w (length steps) w' \<and> calls = map CallForward [0..<length steps]) \<or>
    (\<exists>k w1 cause called w2 errs. k < length steps \<and> forwarded ctx steps w k w1 \<and>
       stopped ctx (steps ! k) k w1 cause called w2 \<and> compensated steps (rev [0..<k]) w2 errs w' \<and>
       r = Returned (Some (report steps k cause errs)) \<and>
       calls = map CallForward [0..<k + (if called then 1 else 0)] @ comp_calls steps k)"
proof -
  have def: "def = steps" and "list_all (\<lambda>s. stForward s \<noteq> None) steps"
    using assms(1) by (auto simp: NewDefinition_def list_ex_iff list_all_iff split: if_splits)
  have "run_ends ctx steps w 0 r w' calls"
    by (rule run_loop_ends [OF assms(2) \<open>list_all (\<lambda>s. stForward s \<noteq> None) steps\<close> _ _ forwarded_0, of steps])
       (use assms(3,4) in \<open>simp_all add: saga_Run_def def\<close>)
  then show ?thesis by cases blast+
qed

text \<open>An account with two deposits and a step that fails.\<close>

definition deposit :: "int \<Rightarrow> ctxt \<Rightarrow> int \<Rightarrow> saga_error option called \<times> int" where
  "deposit a ctx w = (Returned None, w + a)"

definition reject :: "nat \<Rightarrow> ctxt \<Rightarrow> int \<Rightarrow> saga_error option called \<times> int" where
  "reject e ctx w = (Returned (Some (SgCause e)), w)"

definition saga_ex :: "int step list" where
  "saga_ex =
     [\<lparr>stName = ''a'', stForward = Some (deposit 5), stCompensate = Some (deposit (-5))\<rparr>,
      \<lparr>stName = ''b'', stForward = Some (deposit 7), stCompensate = Some (deposit (-7))\<rparr>,
      \<lparr>stName = ''c'', stForward = Some (reject 1), stCompensate = None\<rparr>]"

lemma saga_ex_ok: "NewDefinition saga_ex = Inr saga_ex" "no_panic saga_ex" "undoes saga_ex"
  by (auto simp: saga_ex_def NewDefinition_def no_panic_def undoes_def deposit_def reject_def)

lemma saga_ex_run:
  "saga_Run background (Some saga_ex) 100 =
     (Returned (Some (SgForward 2 ''c'' (SgCause 1))), 100,
      [CallForward 0, CallForward 1, CallForward 2, CallCompensate 1, CallCompensate 0])"
  by (simp add: saga_ex_def saga_Run_def deposit_def reject_def rollBack_def without_cancel_def
      eval_nat_numeral)

theorem saga_Run_calls_witness:
  "\<exists>r w' calls k w1 cause called w2 errs. saga_Run background (Some saga_ex) 100 = (r, w', calls) \<and>
     NewDefinition saga_ex = Inr saga_ex \<and> no_panic saga_ex \<and>
     k < length saga_ex \<and> forwarded background saga_ex 100 k w1 \<and>
     stopped background (saga_ex ! k) k w1 cause called w2 \<and> compensated saga_ex (rev [0..<k]) w2 errs w' \<and>
     r = Returned (Some (report saga_ex k cause errs)) \<and>
     calls = map CallForward [0..<k + (if called then 1 else 0)] @ comp_calls saga_ex k"
proof -
  have "background \<noteq> NilCtx" by simp
  from saga_Run_calls [OF saga_ex_ok(1,2) this saga_ex_run] show ?thesis
    using saga_ex_ok(1,2) saga_ex_run by (elim disjE conjE) (simp, blast)
qed

text \<open>
  A failed saga leaves no trace.  If every compensation undoes its forward action
  and a failing forward action has no effect, then a run that returns an error leaves the world
  exactly as it found it, whether a step failed or the context was cancelled, and the error names
  the failed step alone.
\<close>

lemma saga_Run_undo:
  assumes "undoes steps" and "ctx \<noteq> NilCtx"
    and "saga_Run ctx (Some steps) w = (Returned (Some e), w', calls)"
  shows "w' = w \<and> (\<exists>k name cause. e = SgForward k name cause)"
  using run_loop_undo [OF assms(1), of steps 0 w w ctx e w' calls] assms(2,3)
  by (simp add: saga_Run_def)

lemma saga_Run_undo_example:
  "\<exists>e w' calls. saga_Run background (Some saga_ex) 100 = (Returned (Some e), w', calls) \<and> w' = 100"
  using saga_Run_undo [OF saga_ex_ok(3) _ saga_ex_run] saga_ex_run by auto

end
