(* ===== verification/Saga_Durable.thy ===== *)
theory Saga_Durable
  imports Saga
begin

text \<open>
  Durable sagas: \<^verbatim>\<open>runtime/saga/state.go\<close>, \<^verbatim>\<open>memory_state.go\<close> and \<^verbatim>\<open>executor.go\<close>.

  The executor's operations take the store's \<^verbatim>\<open>Put\<close> and \<^verbatim>\<open>Get\<close> as arguments; the locale \<open>state_store\<close>
  states what the interface \<^verbatim>\<open>StateStore\<close> promises about them, and the memory store interprets it.
  A step's callbacks act on a world of any type; the record \<open>env\<close> has the world, the store and the
  calls made so far.  Byte slices are strings, with nil and the empty slice identified, so that
  \<^verbatim>\<open>cloneInstance\<close> is the identity.

  A crash is a store that accepts a number of writes and refuses all later ones: the executor
  gives up at the first write that fails, and what it did in memory is lost.

  Results: an invariant of the stored instance and the calls made, kept by every attempt to run
  the instance, however many attempts there are and wherever each of them crashes; what it says
  of completed and of failed sagas; and that an attempt that does not crash ends the saga.
\<close>

section \<open>Instances and the memory store\<close>

type_synonym bytes = string

datatype sstate = StatePending | StateRunning | StateCompensating | StateCompleted | StateFailed

datatype last_error = NoError | ErrorValue saga_error | PanicValue

record instance_rec =
  iID :: string
  iDefinition :: string
  iState :: sstate
  iCurrentStep :: nat
  iCompensated :: "nat list"
  iInput :: bytes
  iStepResults :: "bytes list"
  iLastError :: last_error
  iCreatedAt :: time
  iUpdatedAt :: time

definition IsTerminal :: "instance_rec \<Rightarrow> bool" where
  "IsTerminal i \<longleftrightarrow> iState i = StateCompleted \<or> iState i = StateFailed"

text \<open>The store reads its clock once per call; \<open>msTicks n\<close> is the reading number \<open>n\<close>.\<close>

record mem_store =
  msInstances :: "(string, instance_rec) gomap"
  msTicks :: "nat \<Rightarrow> time"
  msReadings :: nat

definition ms_Put :: "ctxt \<Rightarrow> instance_rec \<Rightarrow> mem_store \<Rightarrow> saga_error option \<times> mem_store" where
  "ms_Put ctx inst m =
     (if iID inst = [] then (Some SgInvalid, m)
      else
        let now = msTicks m (msReadings m);
            created = (case map_of (msInstances m) (iID inst) of
                         Some old \<Rightarrow> iCreatedAt old | None \<Rightarrow> now);
            inst' = inst\<lparr>iCreatedAt := created, iUpdatedAt := now\<rparr>
        in (None, m\<lparr>msInstances := AList.update (iID inst) inst' (msInstances m),
                    msReadings := Suc (msReadings m)\<rparr>))"

definition ms_Get :: "ctxt \<Rightarrow> string \<Rightarrow> mem_store \<Rightarrow> saga_error + instance_rec" where
  "ms_Get ctx iid m =
     (case map_of (msInstances m) iid of None \<Rightarrow> Inl SgInstanceNotFound | Some inst \<Rightarrow> Inr inst)"

definition ms_ListResumable :: "string list \<Rightarrow> duration \<Rightarrow> mem_store \<Rightarrow>
    (saga_error + instance_rec list) \<times> mem_store" where
  "ms_ListResumable order olderThan m =
     (let threshold = msTicks m (msReadings m) + wrap64 (- olderThan)
      in (Inr (concat (map (\<lambda>k. case map_of (msInstances m) k of
                              None \<Rightarrow> []
                            | Some inst \<Rightarrow>
                                if IsTerminal inst then []
                                else if olderThan > 0 \<and> iUpdatedAt inst > threshold then []
                                else [inst]) order)),
          m\<lparr>msReadings := Suc (msReadings m)\<rparr>))"

definition ms_Delete :: "ctxt \<Rightarrow> string \<Rightarrow> mem_store \<Rightarrow> mem_store" where
  "ms_Delete ctx iid m = m\<lparr>msInstances := AList.delete iid (msInstances m)\<rparr>"

definition ms_Len :: "mem_store \<Rightarrow> nat" where
  "ms_Len m = length (msInstances m)"

section \<open>The executor\<close>

record 'w dstep =
  dName :: string
  dForward :: "(ctxt \<Rightarrow> bytes \<Rightarrow> 'w \<Rightarrow> (saga_error + bytes) called \<times> 'w) option"
  dCompensate :: "(ctxt \<Rightarrow> bytes \<Rightarrow> bytes \<Rightarrow> 'w \<Rightarrow> saga_error option called \<times> 'w) option"

record 'w ddef =
  ddName :: string
  ddSteps :: "'w dstep list"

datatype dcall = DForward nat bytes "(saga_error + bytes) called" | DCompensate nat bytes bytes

record ('w, 's) env =
  world :: 'w
  store :: 's
  calls :: "dcall list"

type_synonym 's put = "ctxt \<Rightarrow> instance_rec \<Rightarrow> 's \<Rightarrow> saga_error option \<times> 's"
type_synonym 's get = "ctxt \<Rightarrow> string \<Rightarrow> 's \<Rightarrow> saga_error + instance_rec"

fun validate_steps :: "string set \<Rightarrow> 'w dstep list \<Rightarrow> bool" where
  "validate_steps seen [] \<longleftrightarrow> True"
| "validate_steps seen (s # ss) \<longleftrightarrow>
     dName s \<noteq> [] \<and> dName s \<notin> seen \<and> dForward s \<noteq> None \<and> validate_steps (insert (dName s) seen) ss"

definition dd_Validate :: "'w ddef option \<Rightarrow> saga_error option" where
  "dd_Validate d =
     (case d of
        None \<Rightarrow> Some SgInvalid
      | Some d \<Rightarrow>
          if ddName d = [] then Some SgInvalid
          else if ddSteps d = [] then Some SgInvalid
          else if validate_steps {} (ddSteps d) then None else Some SgInvalid)"

type_synonym 'w registry = "(string, 'w ddef) gomap"

definition Register :: "'w ddef option \<Rightarrow> 'w registry \<Rightarrow> saga_error option \<times> 'w registry" where
  "Register d defs =
     (case (dd_Validate d, d) of
        (None, Some d') \<Rightarrow>
          (case map_of defs (ddName d') of
             Some _ \<Rightarrow> (Some SgInvalid, defs)
           | None \<Rightarrow> (None, AList.update (ddName d') d' defs))
      | (err, _) \<Rightarrow> (err, defs))"

definition lookupDef :: "'w registry \<Rightarrow> string \<Rightarrow> saga_error + 'w ddef" where
  "lookupDef defs name =
     (case map_of defs name of Some d \<Rightarrow> Inr d | None \<Rightarrow> Inl SgDefinitionNotFound)"

definition stepInput :: "instance_rec \<Rightarrow> bytes" where
  "stepInput inst =
     (if iCurrentStep inst = 0 then iInput inst
      else if iCurrentStep inst - 1 < length (iStepResults inst)
           then iStepResults inst ! (iCurrentStep inst - 1) else [])"

definition compensateInput :: "instance_rec \<Rightarrow> nat \<Rightarrow> bytes" where
  "compensateInput inst idx =
     (if idx = 0 then iInput inst
      else if idx - 1 < length (iStepResults inst) then iStepResults inst ! (idx - 1) else [])"

text \<open>The loop of \<^verbatim>\<open>driveCompensation\<close>, from index \<open>n - 1\<close> down to 0, and its end.\<close>

fun comp_loop ::
    "'s put \<Rightarrow> 'w dstep list \<Rightarrow> ctxt \<Rightarrow> nat list \<Rightarrow> nat \<Rightarrow> instance_rec \<Rightarrow>
     (nat \<times> string \<times> saga_error) list \<Rightarrow> ('w, 's) env \<Rightarrow> saga_error option called \<times> ('w, 's) env" where
  "comp_loop put steps compCtx already 0 inst errs v =
     (case put compCtx (inst\<lparr>iState := StateFailed\<rparr>) (store v) of
        (Some e, s) \<Rightarrow> (Returned (Some (SgWrapped e)), v\<lparr>store := s\<rparr>)
      | (None, s) \<Rightarrow> (Returned (if errs = [] then None else Some (SgCompensate errs)), v\<lparr>store := s\<rparr>))"
| "comp_loop put steps compCtx already (Suc i) inst errs v =
     (if i \<in> set already then comp_loop put steps compCtx already i inst errs v
      else if length steps \<le> i then (Panicked, v)
      else
        let step = steps ! i;
            input = compensateInput inst i;
            output = (if i < length (iStepResults inst) then iStepResults inst ! i else []);
            inst' = inst\<lparr>iCompensated := iCompensated inst @ [i]\<rparr>;
            persist = (\<lambda>errs v.
              case put compCtx inst' (store v) of
                (Some e, s) \<Rightarrow> (Returned (Some (SgWrapped e)), v\<lparr>store := s\<rparr>)
              | (None, s) \<Rightarrow> comp_loop put steps compCtx already i inst' errs (v\<lparr>store := s\<rparr>))
        in case dCompensate step of
             None \<Rightarrow> persist errs v
           | Some cmp \<Rightarrow>
               (case cmp compCtx input output (world v) of
                  (res, w) \<Rightarrow>
                    let v' = v\<lparr>world := w, calls := calls v @ [DCompensate i input output]\<rparr>
                    in case res of
                         Panicked \<Rightarrow> (Panicked, v')
                       | Returned None \<Rightarrow> persist errs v'
                       | Returned (Some e) \<Rightarrow> persist (errs @ [(i, dName step, e)]) v'))"

definition driveCompensation ::
    "'s put \<Rightarrow> 'w dstep list \<Rightarrow> ctxt \<Rightarrow> instance_rec \<Rightarrow> ('w, 's) env \<Rightarrow> saga_error option called \<times> ('w, 's) env" where
  "driveCompensation put steps ctx inst v =
     comp_loop put steps (without_cancel ctx) (iCompensated inst) (iCurrentStep inst) inst [] v"

definition driveCompensationAfterForward ::
    "'s put \<Rightarrow> 'w dstep list \<Rightarrow> ctxt \<Rightarrow> instance_rec \<Rightarrow> saga_error \<Rightarrow> ('w, 's) env \<Rightarrow>
     saga_error option called \<times> ('w, 's) env" where
  "driveCompensationAfterForward put steps ctx inst fwd v =
     (case driveCompensation put steps ctx inst v of
        (Returned None, v') \<Rightarrow> (Returned (Some fwd), v')
      | (Returned (Some e), v') \<Rightarrow> (Returned (Some (SgJoin fwd e)), v')
      | (Panicked, v') \<Rightarrow> (Panicked, v'))"

text \<open>\<^verbatim>\<open>StepResults\<close> grown to the number of steps, with the output of the current step.\<close>

definition record_output :: "nat \<Rightarrow> instance_rec \<Rightarrow> bytes \<Rightarrow> instance_rec" where
  "record_output n inst output =
     (let grown = (if length (iStepResults inst) < n
                   then iStepResults inst @ replicate (n - length (iStepResults inst)) []
                   else iStepResults inst)
      in inst\<lparr>iStepResults := grown[iCurrentStep inst := output],
              iCurrentStep := Suc (iCurrentStep inst), iLastError := NoError\<rparr>)"

text \<open>The loop over the forward steps; \<open>k\<close> counts the checks of the context.\<close>

function forward_loop ::
    "'s put \<Rightarrow> 'w dstep list \<Rightarrow> ctxt \<Rightarrow> nat \<Rightarrow> instance_rec \<Rightarrow> ('w, 's) env \<Rightarrow>
     saga_error option called \<times> ('w, 's) env" where
  "forward_loop put steps ctx k inst v =
     (if iCurrentStep inst < length steps then
        (case ctx_obs ctx k of
           Some e \<Rightarrow>
             (Returned (Some (SgCtx e)),
              v\<lparr>store := snd (put ctx (inst\<lparr>iLastError := ErrorValue (SgCtx e)\<rparr>) (store v))\<rparr>)
         | None \<Rightarrow>
             let i = iCurrentStep inst; input = stepInput inst
             in case dForward (steps ! i) of
                  None \<Rightarrow> (Panicked, v)
                | Some fwd \<Rightarrow>
                    (case fwd ctx input (world v) of
                       (res, w) \<Rightarrow>
                         let v1 = v\<lparr>world := w, calls := calls v @ [DForward i input res]\<rparr>
                         in case res of
                              Panicked \<Rightarrow> (Panicked, v1)
                            | Returned (Inl e) \<Rightarrow>
                                let inst1 = inst\<lparr>iLastError := ErrorValue e, iState := StateCompensating\<rparr>
                                in (case put ctx inst1 (store v1) of
                                      (Some pe, s) \<Rightarrow> (Returned (Some (SgWrapped pe)), v1\<lparr>store := s\<rparr>)
                                    | (None, s) \<Rightarrow>
                                        driveCompensationAfterForward put steps ctx inst1
                                          (SgForward i (dName (steps ! i)) e) (v1\<lparr>store := s\<rparr>))
                            | Returned (Inr output) \<Rightarrow>
                                let inst1 = record_output (length steps) inst output
                                in (case put ctx inst1 (store v1) of
                                      (Some pe, s) \<Rightarrow> (Returned (Some (SgWrapped pe)), v1\<lparr>store := s\<rparr>)
                                    | (None, s) \<Rightarrow> forward_loop put steps ctx (Suc k) inst1 (v1\<lparr>store := s\<rparr>))))
      else
        (case put ctx (inst\<lparr>iState := StateCompleted\<rparr>) (store v) of
           (Some pe, s) \<Rightarrow> (Returned (Some (SgWrapped pe)), v\<lparr>store := s\<rparr>)
         | (None, s) \<Rightarrow> (Returned None, v\<lparr>store := s\<rparr>)))"
  by pat_completeness auto
termination
  by (relation "measure (\<lambda>(put, steps, ctx, k, inst, v). length steps - iCurrentStep inst)")
     (auto simp: record_output_def Let_def)

declare forward_loop.simps [simp del]

text \<open>The body of \<^verbatim>\<open>executeInstance\<close> and its deferred recovery from a panic.\<close>

definition execute_body ::
    "'s put \<Rightarrow> 's get \<Rightarrow> 'w dstep list \<Rightarrow> ctxt \<Rightarrow> string \<Rightarrow> ('w, 's) env \<Rightarrow>
     saga_error option called \<times> ('w, 's) env" where
  "execute_body put get steps ctx iid v =
     (case get ctx iid (store v) of
        Inl e \<Rightarrow> (Returned (Some e), v)
      | Inr inst \<Rightarrow>
          if IsTerminal inst then (Returned None, v)
          else if iState inst = StateCompensating then driveCompensation put steps ctx inst v
          else
            let inst1 = inst\<lparr>iState := StateRunning\<rparr>
            in (case put ctx inst1 (store v) of
                  (Some e, s) \<Rightarrow> (Returned (Some (SgWrapped e)), v\<lparr>store := s\<rparr>)
                | (None, s) \<Rightarrow> forward_loop put steps ctx 0 inst1 (v\<lparr>store := s\<rparr>)))"

definition executeInstance ::
    "'s put \<Rightarrow> 's get \<Rightarrow> 'w dstep list \<Rightarrow> ctxt \<Rightarrow> string \<Rightarrow> ('w, 's) env \<Rightarrow> saga_error option \<times> ('w, 's) env" where
  "executeInstance put get steps ctx iid v =
     (case execute_body put get steps ctx iid v of
        (Returned r, v') \<Rightarrow> (r, v')
      | (Panicked, v') \<Rightarrow>
          (Some SgPanic,
           case get ctx iid (store v') of
             Inl _ \<Rightarrow> v'
           | Inr inst \<Rightarrow>
               if IsTerminal inst then v'
               else v'\<lparr>store := snd (put ctx (inst\<lparr>iLastError := PanicValue, iState := StateCompensating\<rparr>) (store v'))\<rparr>))"

text \<open>\<open>newID\<close> is the fresh identifier; \<open>raw\<close> is the outcome of marshalling the input, \<^const>\<open>None\<close> for nil.\<close>

definition dx_Start ::
    "'s put \<Rightarrow> 's get \<Rightarrow> 'w registry \<Rightarrow> ctxt \<Rightarrow> string \<Rightarrow> string \<Rightarrow> (saga_error + bytes) option \<Rightarrow> ('w, 's) env \<Rightarrow>
     (string \<times> saga_error option) \<times> ('w, 's) env" where
  "dx_Start put get defs ctx newID name raw v =
     (case lookupDef defs name of
        Inl e \<Rightarrow> (([], Some e), v)
      | Inr d \<Rightarrow>
          (case (case raw of None \<Rightarrow> Inr [] | Some r \<Rightarrow> r) of
             Inl e \<Rightarrow> (([], Some (SgWrapped e)), v)
           | Inr input \<Rightarrow>
               let inst = \<lparr>iID = newID, iDefinition = name, iState = StatePending, iCurrentStep = 0,
                           iCompensated = [], iInput = input, iStepResults = [], iLastError = NoError,
                           iCreatedAt = zero_time, iUpdatedAt = zero_time\<rparr>
               in (case put ctx inst (store v) of
                     (Some e, s) \<Rightarrow> ((newID, Some (SgWrapped e)), v\<lparr>store := s\<rparr>)
                   | (None, s) \<Rightarrow>
                       (case executeInstance put get (ddSteps d) ctx newID (v\<lparr>store := s\<rparr>) of
                          (r, v') \<Rightarrow> ((newID, r), v')))))"

definition dx_Run ::
    "'s put \<Rightarrow> 's get \<Rightarrow> 'w registry \<Rightarrow> ctxt \<Rightarrow> string \<Rightarrow> ('w, 's) env \<Rightarrow> saga_error option \<times> ('w, 's) env" where
  "dx_Run put get defs ctx iid v =
     (case get ctx iid (store v) of
        Inl e \<Rightarrow> (Some e, v)
      | Inr inst \<Rightarrow>
          (case lookupDef defs (iDefinition inst) of
             Inl e \<Rightarrow> (Some e, v)
           | Inr d \<Rightarrow> executeInstance put get (ddSteps d) ctx iid v))"

text \<open>
  \<^verbatim>\<open>Resume\<close> on the instances the store listed.  The goroutines it starts work on different instances;
  here they run one after the other.
\<close>

fun dx_resume_each ::
    "'s put \<Rightarrow> 's get \<Rightarrow> 'w registry \<Rightarrow> ctxt \<Rightarrow> instance_rec list \<Rightarrow> ('w, 's) env \<Rightarrow>
     (string \<times> saga_error option) list \<times> ('w, 's) env" where
  "dx_resume_each put get defs ctx [] v = ([], v)"
| "dx_resume_each put get defs ctx (inst # rest) v =
     (case (case lookupDef defs (iDefinition inst) of
              Inl e \<Rightarrow> (Some e, v)
            | Inr d \<Rightarrow> executeInstance put get (ddSteps d) ctx (iID inst) v) of
        (r, v') \<Rightarrow>
          (case dx_resume_each put get defs ctx rest v' of
             (rs, v'') \<Rightarrow> ((iID inst, r) # rs, v'')))"

definition dx_Resume ::
    "'s put \<Rightarrow> 's get \<Rightarrow> (duration \<Rightarrow> 's \<Rightarrow> (saga_error + instance_rec list) \<times> 's) \<Rightarrow> 'w registry \<Rightarrow> ctxt \<Rightarrow>
     duration \<Rightarrow> ('w, 's) env \<Rightarrow> (saga_error + (string \<times> saga_error option) list) \<times> ('w, 's) env" where
  "dx_Resume put get list_resumable defs ctx olderThan v =
     (case list_resumable olderThan (store v) of
        (Inl e, s) \<Rightarrow> (Inl (SgWrapped e), v\<lparr>store := s\<rparr>)
      | (Inr pending, s) \<Rightarrow>
          (case dx_resume_each put get defs ctx pending (v\<lparr>store := s\<rparr>) of (rs, v') \<Rightarrow> (Inr rs, v')))"

section \<open>What is known of an instance\<close>

fun is_comp :: "dcall \<Rightarrow> bool" where
  "is_comp (DCompensate i x y) \<longleftrightarrow> True"
| "is_comp (DForward i x r) \<longleftrightarrow> False"

text \<open>
  The steps below the current one have succeeded, each on the output of the one before, and
  their outputs are on record; compensation has worked its way down from the current step to
  \<open>j\<close>, calling every compensable step with its recorded input and output; nothing else has been
  compensated, and nothing at all unless the instance says so.
\<close>

definition sg_inv :: "'w dstep list \<Rightarrow> instance_rec \<Rightarrow> dcall list \<Rightarrow> bool" where
  "sg_inv steps inst tr \<longleftrightarrow>
     iCurrentStep inst \<le> length steps \<and>
     iCurrentStep inst \<le> length (iStepResults inst) \<and>
     (\<forall>i < iCurrentStep inst.
        DForward i (compensateInput inst i) (Returned (Inr (iStepResults inst ! i))) \<in> set tr) \<and>
     (\<exists>j \<le> iCurrentStep inst.
        iCompensated inst = rev [j..<iCurrentStep inst] \<and>
        (iState inst \<notin> {StateCompensating, StateFailed} \<longrightarrow> j = iCurrentStep inst) \<and>
        (iState inst = StateFailed \<longrightarrow> j = 0) \<and>
        (\<forall>i. j \<le> i \<and> i < iCurrentStep inst \<and> dCompensate (steps ! i) \<noteq> None \<longrightarrow>
           DCompensate i (compensateInput inst i) (iStepResults inst ! i) \<in> set tr)) \<and>
     (iState inst = StateCompleted \<longrightarrow> iCurrentStep inst = length steps) \<and>
     (\<forall>i x y. DCompensate i x y \<in> set tr \<longrightarrow>
        i < iCurrentStep inst \<and> iState inst \<in> {StateCompensating, StateFailed}) \<and>
     (\<exists>fs cs. tr = fs @ cs \<and> list_all (\<lambda>c. \<not> is_comp c) fs \<and> list_all is_comp cs)"

lemma compensateInput_upd [simp]:
  "compensateInput (inst\<lparr>iState := st\<rparr>) = compensateInput inst"
  "compensateInput (inst\<lparr>iLastError := le\<rparr>) = compensateInput inst"
  "compensateInput (inst\<lparr>iCompensated := cs\<rparr>) = compensateInput inst"
  "compensateInput (inst\<lparr>iCreatedAt := c\<rparr>) = compensateInput inst"
  "compensateInput (inst\<lparr>iUpdatedAt := u\<rparr>) = compensateInput inst"
  by (simp_all add: compensateInput_def fun_eq_iff)

text \<open>The store's time stamps and the last error do not matter.\<close>

lemma sg_inv_upd [simp]:
  "sg_inv steps (inst\<lparr>iCreatedAt := c\<rparr>) tr = sg_inv steps inst tr"
  "sg_inv steps (inst\<lparr>iUpdatedAt := u\<rparr>) tr = sg_inv steps inst tr"
  "sg_inv steps (inst\<lparr>iLastError := le\<rparr>) tr = sg_inv steps inst tr"
  by (simp_all add: sg_inv_def)

lemma sg_inv_new:
  "iCurrentStep inst = 0 \<Longrightarrow> iCompensated inst = [] \<Longrightarrow> iState inst = StatePending \<Longrightarrow> sg_inv steps inst []"
  by (auto simp: sg_inv_def)

lemma no_comp_iff: "list_all (\<lambda>c. \<not> is_comp c) tr \<longleftrightarrow> (\<forall>i x y. DCompensate i x y \<notin> set tr)"
  by (auto simp: list_all_iff) (metis is_comp.elims(2))

text \<open>Going on forward, or back to running, keeps what is known.\<close>

lemma sg_inv_running:
  assumes "sg_inv steps inst tr" and "iState inst \<notin> {StateCompensating, StateFailed}"
  shows "sg_inv steps (inst\<lparr>iState := StateRunning\<rparr>) tr"
  using assms by (auto simp: sg_inv_def)

lemma sg_inv_forward_only:
  assumes "sg_inv steps inst tr" and "iState inst \<notin> {StateCompensating, StateFailed}"
  shows "list_all (\<lambda>c. \<not> is_comp c) tr"
  using assms unfolding no_comp_iff sg_inv_def by blast

lemma sg_inv_called_forward:
  assumes "sg_inv steps inst tr" and "iState inst \<notin> {StateCompensating, StateFailed}"
  shows "sg_inv steps inst (tr @ [DForward i x r])"
proof -
  have "list_all (\<lambda>c. \<not> is_comp c) (tr @ [DForward i x r])"
    using sg_inv_forward_only [OF assms] by simp
  then have "\<exists>fs cs. tr @ [DForward i x r] = fs @ cs \<and> list_all (\<lambda>c. \<not> is_comp c) fs \<and> list_all is_comp cs"
    by (intro exI [of _ "tr @ [DForward i x r]"] exI [of _ "[]"]) simp
  then show ?thesis
    using assms(1) unfolding sg_inv_def by auto
qed

lemma sg_inv_called_comp:
  assumes "sg_inv steps inst tr" and "iState inst = StateCompensating" and "i < iCurrentStep inst"
  shows "sg_inv steps inst (tr @ [DCompensate i x y])"
proof -
  obtain fs cs where "tr = fs @ cs" "list_all (\<lambda>c. \<not> is_comp c) fs" "list_all is_comp cs"
    using assms(1) unfolding sg_inv_def by blast
  then have "\<exists>fs cs. tr @ [DCompensate i x y] = fs @ cs \<and> list_all (\<lambda>c. \<not> is_comp c) fs \<and> list_all is_comp cs"
    by (intro exI [of _ fs] exI [of _ "cs @ [DCompensate i x y]"]) simp
  then show ?thesis
    using assms unfolding sg_inv_def by auto
qed

lemma sg_inv_fail:
  assumes "sg_inv steps inst tr" and "\<not> IsTerminal inst"
  shows "sg_inv steps (inst\<lparr>iState := StateCompensating\<rparr>) tr"
  using assms unfolding sg_inv_def IsTerminal_def by (auto 4 3)

lemma sg_inv_complete:
  assumes "sg_inv steps inst tr" and "iState inst = StateRunning" and "\<not> iCurrentStep inst < length steps"
  shows "sg_inv steps (inst\<lparr>iState := StateCompleted\<rparr>) tr"
  using assms by (auto simp: sg_inv_def)

lemma sg_inv_advance:
  assumes inv: "sg_inv steps inst tr" and st: "iState inst = StateRunning"
    and less: "iCurrentStep inst < length steps"
  shows "sg_inv steps (record_output (length steps) inst out)
           (tr @ [DForward (iCurrentStep inst) (stepInput inst) (Returned (Inr out))])"
proof -
  let ?c = "iCurrentStep inst" and ?inst = "record_output (length steps) inst out"
  have len: "?c \<le> length (iStepResults inst)" using inv by (simp add: sg_inv_def)
  have flds: "iCurrentStep ?inst = Suc ?c" "iState ?inst = StateRunning" "iCompensated ?inst = iCompensated inst"
    "iInput ?inst = iInput inst" "Suc ?c \<le> length (iStepResults ?inst)"
    using less st len by (auto simp: record_output_def Let_def)
  have old: "iStepResults ?inst ! i = iStepResults inst ! i" if "i < ?c" for i
    using that len by (auto simp: record_output_def Let_def nth_append)
  have new: "iStepResults ?inst ! ?c = out"
    using less len by (auto simp: record_output_def Let_def)
  have inp: "compensateInput ?inst i = compensateInput inst i" if "i \<le> ?c" for i
    using that old [of "i - 1"] len flds by (auto simp: compensateInput_def)
  have "stepInput inst = compensateInput inst ?c"
    by (simp add: stepInput_def compensateInput_def)
  moreover have "list_all (\<lambda>c. \<not> is_comp c) tr" using sg_inv_forward_only [OF inv] st by simp
  moreover have "iCompensated inst = []"
    using inv st by (auto simp: sg_inv_def)
  moreover have "\<exists>fs cs. tr @ [x] = fs @ cs \<and> list_all (\<lambda>c. \<not> is_comp c) fs \<and> list_all is_comp cs"
    if "list_all (\<lambda>c. \<not> is_comp c) (tr @ [x])" for x
    using that by (intro exI [of _ "tr @ [x]"] exI [of _ "[]"]) simp
  moreover have "DForward i (compensateInput inst i) (Returned (Inr (iStepResults inst ! i))) \<in> set tr" if "i < ?c" for i
    using inv that by (simp add: sg_inv_def)
  ultimately show ?thesis
    using less flds old new inp by (auto simp: sg_inv_def no_comp_iff less_Suc_eq_le le_less)
qed

lemma sg_inv_comp_step:
  assumes "sg_inv steps inst tr" and "iState inst = StateCompensating" and "i < iCurrentStep inst"
    and "iCompensated inst = rev [Suc i..<iCurrentStep inst]"
    and "dCompensate (steps ! i) \<noteq> None \<Longrightarrow> DCompensate i (compensateInput inst i) (iStepResults inst ! i) \<in> set tr"
  shows "sg_inv steps (inst\<lparr>iCompensated := iCompensated inst @ [i]\<rparr>) tr"
proof -
  obtain j where j: "j \<le> iCurrentStep inst" "iCompensated inst = rev [j..<iCurrentStep inst]"
    "\<forall>k. j \<le> k \<and> k < iCurrentStep inst \<and> dCompensate (steps ! k) \<noteq> None \<longrightarrow>
       DCompensate k (compensateInput inst k) (iStepResults inst ! k) \<in> set tr"
    using assms(1) unfolding sg_inv_def by blast
  have "length (iCompensated inst) = iCurrentStep inst - j" using j(2) by simp
  moreover have "length (iCompensated inst) = iCurrentStep inst - Suc i" using assms(4) by simp
  ultimately have "j = Suc i" using j(1) assms(3) by linarith
  then have "DCompensate k (compensateInput inst k) (iStepResults inst ! k) \<in> set tr"
    if "i \<le> k" "k < iCurrentStep inst" "dCompensate (steps ! k) \<noteq> None" for k
    using that j(3) assms(5) by (cases "k = i") auto
  moreover have "iCompensated inst @ [i] = rev [i..<iCurrentStep inst]"
    using assms(3,4) by (simp add: upt_rec [of i])
  ultimately show ?thesis
    using assms(1,2,3) unfolding sg_inv_def by (auto intro!: exI [of _ i])
qed

lemma sg_inv_failed:
  assumes "sg_inv steps inst tr" and "iState inst = StateCompensating"
    and "iCompensated inst = rev [0..<iCurrentStep inst]"
  shows "sg_inv steps (inst\<lparr>iState := StateFailed\<rparr>) tr"
proof -
  obtain j where j: "j \<le> iCurrentStep inst" "iCompensated inst = rev [j..<iCurrentStep inst]"
    "\<forall>k. j \<le> k \<and> k < iCurrentStep inst \<and> dCompensate (steps ! k) \<noteq> None \<longrightarrow>
       DCompensate k (compensateInput inst k) (iStepResults inst ! k) \<in> set tr"
    using assms(1) unfolding sg_inv_def by blast
  have "length (iCompensated inst) = iCurrentStep inst - j" using j(2) by simp
  then have "j = 0" using assms(3) j(1) by simp
  then show ?thesis
    using assms j unfolding sg_inv_def by auto
qed


section \<open>The store interface\<close>

text \<open>
  \<^verbatim>\<open>StateStore\<close>: a write is atomic, is visible to later reads with the store's own time stamps, and
  touches no other instance; a write that reports an error has not happened.  \<open>lookup\<close> is the
  content of the store.
\<close>

locale state_store =
  fixes put :: "ctxt \<Rightarrow> instance_rec \<Rightarrow> 's \<Rightarrow> saga_error option \<times> 's"
    and get :: "ctxt \<Rightarrow> string \<Rightarrow> 's \<Rightarrow> saga_error + instance_rec"
    and lookup :: "string \<Rightarrow> 's \<Rightarrow> instance_rec option"
  assumes get_lookup: "get ctx iid s = Inr inst \<Longrightarrow> lookup iid s = Some inst"
    and put_done: "put ctx inst s = (None, s') \<Longrightarrow>
          \<exists>c u. lookup (iID inst) s' = Some (inst\<lparr>iCreatedAt := c, iUpdatedAt := u\<rparr>)"
    and put_refused: "put ctx inst s = (Some e, s') \<Longrightarrow> lookup iid s' = lookup iid s"
    and put_other: "iid \<noteq> iID inst \<Longrightarrow> lookup iid (snd (put ctx inst s)) = lookup iid s"
begin

definition stored :: "'s \<Rightarrow> instance_rec \<Rightarrow> bool" where
  "stored s inst \<longleftrightarrow> (\<exists>c u. lookup (iID inst) s = Some (inst\<lparr>iCreatedAt := c, iUpdatedAt := u\<rparr>))"

definition good :: "'w dstep list \<Rightarrow> string \<Rightarrow> ('w, 's) env \<Rightarrow> bool" where
  "good steps iid v \<longleftrightarrow> 
     (\<exists>inst. lookup iid (store v) = Some inst \<and> iID inst = iid \<and> sg_inv steps inst (calls v))"

lemma good_stored: "stored (store v) inst \<Longrightarrow> sg_inv steps inst (calls v) \<Longrightarrow> good steps (iID inst) v"
  by (auto simp: good_def stored_def)

lemma stored_put: "put ctx inst s = (None, s') \<Longrightarrow> stored s' inst"
  using put_done by (simp add: stored_def)

lemma stored_lookup: "lookup (iID inst) s = Some inst \<Longrightarrow> stored s inst"
  unfolding stored_def
  by (rule exI [of _ "iCreatedAt inst"], rule exI [of _ "iUpdatedAt inst"]) simp

lemma stored_refused: "put ctx inst' s = (Some e, s') \<Longrightarrow> stored s inst \<Longrightarrow> stored s' inst"
  using put_refused by (simp add: stored_def)

text \<open>Whether or not a write happens, what is stored is as good as the old and the new instance.\<close>

lemma good_put:
  assumes "good steps (iID inst) v" and "sg_inv steps inst (calls v)"
  shows "good steps (iID inst) (v\<lparr>store := snd (put ctx inst (store v))\<rparr>)"
proof (cases "put ctx inst (store v)")
  case (Pair e s')
  show ?thesis
  proof (cases e)
    case None
    then show ?thesis using Pair stored_put [of ctx inst "store v" s'] assms(2) by (auto intro!: good_stored)
  next
    case (Some x)
    then show ?thesis using Pair put_refused [of ctx inst "store v" x s'] assms(1) by (simp add: good_def)
  qed
qed

lemma comp_loop_good:
  assumes "stored (store v) inst" and "sg_inv steps inst (calls v)" and "iState inst = StateCompensating"
    and "iCompensated inst = rev [min m j..<iCurrentStep inst]" and "already = rev [j..<iCurrentStep inst]"
    and "m \<le> iCurrentStep inst"
  shows "good steps (iID inst) (snd (comp_loop put steps ctx already m inst errs v))"
  using assms
proof (induction m arbitrary: v inst errs)
  case 0
  then have "sg_inv steps (inst\<lparr>iState := StateFailed\<rparr>) (calls v)" by (intro sg_inv_failed) auto
  from good_put [of steps "inst\<lparr>iState := StateFailed\<rparr>" v ctx, OF _ this] 0
  show ?case by (auto simp: good_stored split: prod.splits option.splits)
next
  case (Suc i)
  show ?case
  proof (cases "i \<in> set already")
    case True
    then have "min (Suc i) j = min i j" using Suc.prems(5) by auto
    then show ?thesis using Suc True by simp
  next
    case False
    have i: "i < iCurrentStep inst" "min (Suc i) j = Suc i" "min i j = i"
      using False Suc.prems(5,6) by auto
    have lens: "iCurrentStep inst \<le> length steps" "iCurrentStep inst \<le> length (iStepResults inst)"
      using Suc.prems(2) by (auto simp: sg_inv_def)
    define inst' where "inst' = inst\<lparr>iCompensated := iCompensated inst @ [i]\<rparr>"
    define call where "call = DCompensate i (compensateInput inst i) (iStepResults inst ! i)"
    have flds: "iID inst' = iID inst" "iState inst' = StateCompensating" "iCurrentStep inst' = iCurrentStep inst"
      "iCompensated inst' = rev [min i j..<iCurrentStep inst']"
      using Suc.prems(3,4) i by (auto simp: inst'_def upt_rec [of i])
    have persist: "good steps (iID inst) (snd (case put ctx inst' (store v') of
          (Some e, s) \<Rightarrow> (Returned (Some (SgWrapped e)), v'\<lparr>store := s\<rparr>)
        | (None, s) \<Rightarrow> comp_loop put steps ctx already i inst' errs' (v'\<lparr>store := s\<rparr>)))"
      if v': "stored (store v') inst" "sg_inv steps inst (calls v')"
        "dCompensate (steps ! i) \<noteq> None \<Longrightarrow> call \<in> set (calls v')" for v' errs'
    proof -
      have inv': "sg_inv steps inst' (calls v')"
        unfolding inst'_def using v' Suc.prems(3,4) i by (intro sg_inv_comp_step) (auto simp: call_def)
      show ?thesis
      proof (cases "put ctx inst' (store v')")
        case (Pair e s)
        show ?thesis
        proof (cases e)
          case None
          have "stored s inst'" using Pair None stored_put by simp
          then show ?thesis
            using Pair None Suc.IH [of "v'\<lparr>store := s\<rparr>" inst' errs'] inv' flds Suc.prems(5) i by simp
        next
          case (Some x)
          then show ?thesis
            using Pair stored_refused [of ctx inst' "store v'" x s inst] v' by (simp add: good_stored)
        qed
      qed
    qed
    have called: "sg_inv steps inst (calls v @ [call])"
      unfolding call_def using Suc.prems(2,3) i(1) by (rule sg_inv_called_comp)
    show ?thesis
    proof (cases "dCompensate (steps ! i)")
      case None
      then show ?thesis
        using False i lens persist [of v errs] Suc.prems(1,2) by (simp add: inst'_def [symmetric] Let_def)
    next
      case (Some cmp)
      obtain res w where c: "cmp ctx (compensateInput inst i) (iStepResults inst ! i) (world v) = (res, w)"
        by (metis surj_pair)
      define v1 where "v1 = v\<lparr>world := w, calls := calls v @ [call]\<rparr>"
      have v1: "stored (store v1) inst" "sg_inv steps inst (calls v1)" "call \<in> set (calls v1)"
        using Suc.prems(1) called by (auto simp: v1_def)
      have "snd (comp_loop put steps ctx already (Suc i) inst errs v) =
          snd (case res of Panicked \<Rightarrow> (Panicked, v1)
            | Returned r \<Rightarrow> (case put ctx inst' (store v1) of
                (Some e, s) \<Rightarrow> (Returned (Some (SgWrapped e)), v1\<lparr>store := s\<rparr>)
              | (None, s) \<Rightarrow> comp_loop put steps ctx already i inst'
                  (case r of None \<Rightarrow> errs | Some e \<Rightarrow> errs @ [(i, dName (steps ! i), e)]) (v1\<lparr>store := s\<rparr>)))"
        unfolding inst'_def v1_def call_def using False i lens Some c
        by (simp add: Let_def split: called.split option.split)
      then show ?thesis
        using persist v1 good_stored [OF v1(1,2)] by (cases res) simp_all
    qed
  qed
qed

lemma driveCompensation_good:
  assumes "stored (store v) inst" and "sg_inv steps inst (calls v)" and "iState inst = StateCompensating"
  shows "good steps (iID inst) (snd (driveCompensation put steps ctx inst v))"
proof -
  obtain j where j: "j \<le> iCurrentStep inst" "iCompensated inst = rev [j..<iCurrentStep inst]"
    using assms(2) by (auto simp: sg_inv_def)
  then show ?thesis
    unfolding driveCompensation_def using assms by (intro comp_loop_good [where j = j]) (auto simp: min_def)
qed

lemma driveCompensationAfterForward_good:
  assumes "stored (store v) inst" and "sg_inv steps inst (calls v)" and "iState inst = StateCompensating"
  shows "good steps (iID inst) (snd (driveCompensationAfterForward put steps ctx inst fwd v))"
  using driveCompensation_good [OF assms, of ctx]
  by (auto simp: driveCompensationAfterForward_def split: prod.splits called.splits option.splits)

lemma forward_loop_good:
  assumes "stored (store v) inst" and "sg_inv steps inst (calls v)" and "iState inst = StateRunning"
  shows "good steps (iID inst) (snd (forward_loop put steps ctx k inst v))"
  using assms
proof (induction "length steps - iCurrentStep inst" arbitrary: k inst v rule: less_induct)
  case less
  note eq = forward_loop.simps [of put steps ctx k inst v]
  have good0: "good steps (iID inst) v" using less.prems by (intro good_stored)
  show ?case
  proof (cases "iCurrentStep inst < length steps")
    case False
    have "sg_inv steps (inst\<lparr>iState := StateCompleted\<rparr>) (calls v)"
      using less.prems False by (intro sg_inv_complete)
    from good_put [of steps "inst\<lparr>iState := StateCompleted\<rparr>" v ctx, OF _ this] good0 False
    show ?thesis by (auto simp: eq split: prod.splits option.splits)
  next
    case True
    show ?thesis
    proof (cases "ctx_obs ctx k")
      case (Some e)
      then show ?thesis
        using True good_put [of steps "inst\<lparr>iLastError := ErrorValue (SgCtx e)\<rparr>" v ctx] good0 less.prems(2)
        by (simp add: eq)
    next
      case None
      let ?i = "iCurrentStep inst" and ?x = "stepInput inst"
      show ?thesis
      proof (cases "dForward (steps ! ?i)")
        case nil: None
        then show ?thesis using True None good0 by (simp add: eq)
      next
        case (Some fwd)
        obtain res w where call: "fwd ctx ?x (world v) = (res, w)" by (metis surj_pair)
        define v1 where "v1 = v\<lparr>world := w, calls := calls v @ [DForward ?i ?x res]\<rparr>"
        have v1: "stored (store v1) inst" "sg_inv steps inst (calls v1)"
          using less.prems by (auto simp: v1_def intro: sg_inv_called_forward)
        have fl: "forward_loop put steps ctx k inst v = (case res of
              Panicked \<Rightarrow> (Panicked, v1)
            | Returned (Inl e) \<Rightarrow>
                (case put ctx (inst\<lparr>iLastError := ErrorValue e, iState := StateCompensating\<rparr>) (store v1) of
                   (Some pe, s) \<Rightarrow> (Returned (Some (SgWrapped pe)), v1\<lparr>store := s\<rparr>)
                 | (None, s) \<Rightarrow> driveCompensationAfterForward put steps ctx
                     (inst\<lparr>iLastError := ErrorValue e, iState := StateCompensating\<rparr>)
                     (SgForward ?i (dName (steps ! ?i)) e) (v1\<lparr>store := s\<rparr>))
            | Returned (Inr out) \<Rightarrow>
                (case put ctx (record_output (length steps) inst out) (store v1) of
                   (Some pe, s) \<Rightarrow> (Returned (Some (SgWrapped pe)), v1\<lparr>store := s\<rparr>)
                 | (None, s) \<Rightarrow> forward_loop put steps ctx (Suc k) (record_output (length steps) inst out) (v1\<lparr>store := s\<rparr>)))"
          unfolding v1_def eq Let_def using True None Some call
          by (simp split: called.split sum.split)
        show ?thesis
        proof (cases res)
          case Panicked
          then show ?thesis using fl good_stored [OF v1] by simp
        next
          case (Returned r)
          show ?thesis
          proof (cases r)
            case (Inl e)
            define inst1 where "inst1 = inst\<lparr>iLastError := ErrorValue e, iState := StateCompensating\<rparr>"
            have inst1: "sg_inv steps inst1 (calls v1)" "iID inst1 = iID inst" "iState inst1 = StateCompensating"
              using sg_inv_fail [of steps "inst\<lparr>iLastError := ErrorValue e\<rparr>" "calls v1"] v1(2) less.prems(3) by (auto simp: inst1_def IsTerminal_def)
            show ?thesis
              using fl Returned Inl inst1 good_stored [OF v1] stored_refused [OF _ v1(1), of ctx inst1]
                stored_put [of ctx inst1 "store v1"] v1
                driveCompensationAfterForward_good [of "v1\<lparr>store := s\<rparr>" inst1 steps ctx for s]
              by (cases "put ctx inst1 (store v1)"; cases "fst (put ctx inst1 (store v1))")
                 (auto simp: inst1_def [symmetric] good_stored)
          next
            case (Inr out)
            define inst1 where "inst1 = record_output (length steps) inst out"
            have inst1: "sg_inv steps inst1 (calls v1)"
              using sg_inv_advance [OF less.prems(2,3) True] Returned Inr by (simp add: inst1_def v1_def)
            have flds: "iID inst1 = iID inst" "iState inst1 = StateRunning"
              "length steps - iCurrentStep inst1 < length steps - ?i"
              using less.prems(3) True by (auto simp: inst1_def record_output_def Let_def)
            show ?thesis
              using fl Returned Inr inst1 flds stored_refused [OF _ v1(1), of ctx inst1]
                stored_put [of ctx inst1 "store v1"] v1
                less.hyps [of inst1 "v1\<lparr>store := s\<rparr>" "Suc k" for s]
              by (cases "put ctx inst1 (store v1)"; cases "fst (put ctx inst1 (store v1))")
                 (auto simp: inst1_def [symmetric] good_stored)
          qed
        qed
      qed
    qed
  qed
qed

text \<open>Every attempt to run an instance keeps what is known of it.\<close>

lemma execute_good:
  assumes "good steps iid v"
  shows "good steps iid (snd (executeInstance put get steps ctx iid v))"
proof -
  have body: "good steps iid (snd (execute_body put get steps ctx iid v))"
  proof (cases "get ctx iid (store v)")
    case (Inl e)
    then show ?thesis using assms by (simp add: execute_body_def)
  next
    case (Inr inst)
    have look: "lookup iid (store v) = Some inst" using get_lookup Inr by simp
    have inst: "iID inst = iid" "stored (store v) inst" "sg_inv steps inst (calls v)"
      using stored_lookup [of inst "store v"] assms look by (auto simp: good_def)
    define inst1 where "inst1 = inst\<lparr>iState := StateRunning\<rparr>"
    have "good steps iid (snd (case put ctx inst1 (store v) of
                  (Some e, s) \<Rightarrow> (Returned (Some (SgWrapped e)), v\<lparr>store := s\<rparr>)
                | (None, s) \<Rightarrow> forward_loop put steps ctx 0 inst1 (v\<lparr>store := s\<rparr>)))"
      if "\<not> IsTerminal inst" "iState inst \<noteq> StateCompensating"
    proof -
      have inst1: "sg_inv steps inst1 (calls v)" "iID inst1 = iid" "iState inst1 = StateRunning"
        using sg_inv_running [OF inst(3)] that inst(1) by (auto simp: inst1_def IsTerminal_def)
      show ?thesis
        using inst1 stored_put [of ctx inst1 "store v"] good_put [of steps inst1 v ctx] assms
          forward_loop_good [of "v\<lparr>store := s\<rparr>" inst1 steps ctx 0 for s]
        by (cases "put ctx inst1 (store v)"; cases "fst (put ctx inst1 (store v))") auto
    qed
    then show ?thesis
      unfolding execute_body_def inst1_def Let_def
      using Inr assms driveCompensation_good [OF inst(2,3), of ctx] inst(1) by simp
  qed
  obtain r v' where r: "execute_body put get steps ctx iid v = (r, v')" by (metis surj_pair)
  show ?thesis
  proof (cases r)
    case (Returned x)
    then show ?thesis using body r by (simp add: executeInstance_def)
  next
    case Panicked
    have v': "good steps iid v'" using body r by simp
    show ?thesis
    proof (cases "get ctx iid (store v')")
      case (Inl e)
      then show ?thesis using v' r Panicked by (simp add: executeInstance_def)
    next
      case (Inr inst)
      have look: "lookup iid (store v') = Some inst" using get_lookup Inr by simp
      define inst1 where "inst1 = inst\<lparr>iLastError := PanicValue, iState := StateCompensating\<rparr>"
      have "sg_inv steps inst1 (calls v')" if "\<not> IsTerminal inst"
        using sg_inv_fail [of steps "inst\<lparr>iLastError := PanicValue\<rparr>" "calls v'"] that v' look by (auto simp: good_def inst1_def IsTerminal_def)
      then show ?thesis
        using v' r Panicked Inr good_put [of steps inst1 v' ctx] look
        by (auto simp: executeInstance_def inst1_def good_def)
    qed
  qed
qed

text \<open>Running an instance touches no other instance.\<close>

lemma comp_loop_frame:
  "iid \<noteq> iID inst \<Longrightarrow> lookup iid (store (snd (comp_loop put steps ctx already m inst errs v))) = lookup iid (store v)"
proof (induction m arbitrary: inst errs v)
  case 0
  then show ?case
    using put_other [of iid "inst\<lparr>iState := StateFailed\<rparr>" ctx "store v"]
    by (auto split: prod.splits option.splits)
next
  case (Suc i)
  let ?inst = "inst\<lparr>iCompensated := iCompensated inst @ [i]\<rparr>"
  have persist: "lookup iid (store (snd (case put ctx ?inst (store v') of
          (Some e, s) \<Rightarrow> (Returned (Some (SgWrapped e)), v'\<lparr>store := s\<rparr>)
        | (None, s) \<Rightarrow> comp_loop put steps ctx already i ?inst errs' (v'\<lparr>store := s\<rparr>)))) = lookup iid (store v')"
    for v' errs'
    using put_other [of iid ?inst ctx "store v'"] Suc by (auto split: prod.splits option.splits)
  show ?case
  proof (cases "dCompensate (steps ! i)")
    case None
    then show ?thesis using Suc persist by (simp add: Let_def)
  next
    case (Some cmp)
    define out where "out = (if i < length (iStepResults inst) then iStepResults inst ! i else [])"
    obtain res w where c: "cmp ctx (compensateInput inst i) out (world v) = (res, w)" by (metis surj_pair)
    show ?thesis
    proof (cases res)
      case Panicked
      then show ?thesis using Suc Some c by (simp add: Let_def out_def [symmetric])
    next
      case (Returned r)
      note p = persist [of _ "v\<lparr>world := w, calls := calls v @ [DCompensate i (compensateInput inst i) out]\<rparr>"]
      show ?thesis
        using Suc Some c Returned p [of errs] p [of "errs @ [(i, dName (steps ! i), e)]" for e]
        by (cases r) (simp_all add: Let_def out_def [symmetric])
    qed
  qed
qed

lemma forward_loop_frame:
  "iid \<noteq> iID inst \<Longrightarrow> lookup iid (store (snd (forward_loop put steps ctx k inst v))) = lookup iid (store v)"
proof (induction "length steps - iCurrentStep inst" arbitrary: k inst v rule: less_induct)
  case less
  note eq = forward_loop.simps [of put steps ctx k inst v]
  have other: "lookup iid (snd (put ctx i s)) = lookup iid s" if "iID i = iID inst" for i s
    using put_other [of iid i ctx s] that less.prems by simp
  have comp: "lookup iid (store (snd (driveCompensationAfterForward put steps ctx i fwd v'))) = lookup iid (store v')"
    if "iID i = iID inst" for i fwd v'
  proof -
    obtain r v1 where d: "driveCompensation put steps ctx i v' = (r, v1)" by (metis surj_pair)
    then have "v1 = snd (comp_loop put steps (without_cancel ctx) (iCompensated i) (iCurrentStep i) i [] v')"
      by (simp add: driveCompensation_def)
    then have "lookup iid (store v1) = lookup iid (store v')"
      using comp_loop_frame [of iid i] that less.prems by simp
    then show ?thesis
      by (auto simp: driveCompensationAfterForward_def d split: called.split option.split)
  qed
  have nxt: "lookup iid (store (snd (forward_loop put steps ctx (Suc k) (record_output (length steps) inst out) v'))) = lookup iid (store v')"
    if "iCurrentStep inst < length steps" for out v'
    using less.hyps [of "record_output (length steps) inst out" "Suc k" v'] less.prems that
    by (simp add: record_output_def Let_def)
  have "iID (record_output (length steps) inst out) = iID inst" for out
    by (simp add: record_output_def Let_def)
  then show ?case
    unfolding eq Let_def
    by (auto simp: split_beta other comp nxt split: option.split called.split sum.split)
qed

end

section \<open>The memory store provides the interface\<close>

definition ms_lookup :: "string \<Rightarrow> mem_store \<Rightarrow> instance_rec option" where
  "ms_lookup iid m = map_of (msInstances m) iid"

lemma ms_lookup_Put:
  "ms_Put ctx inst m = (None, m') \<Longrightarrow> \<exists>c u. ms_lookup (iID inst) m' = Some (inst\<lparr>iCreatedAt := c, iUpdatedAt := u\<rparr>)"
  by (auto simp: ms_Put_def ms_lookup_def Let_def gomap_simps split: if_splits) blast

lemma ms_lookup_Put_other:
  "iid \<noteq> iID inst \<Longrightarrow> ms_lookup iid (snd (ms_Put ctx inst m)) = ms_lookup iid m"
  by (simp add: ms_Put_def ms_lookup_def Let_def gomap_simps)

lemma ms_Put_refused: "ms_Put ctx inst m = (Some e, m') \<Longrightarrow> m' = m"
  by (auto simp: ms_Put_def Let_def split: if_splits)

lemma ms_Get_lookup: "ms_Get ctx iid m = (case ms_lookup iid m of None \<Rightarrow> Inl SgInstanceNotFound | Some i \<Rightarrow> Inr i)"
  by (simp add: ms_Get_def ms_lookup_def)

interpretation mem_state: state_store ms_Put ms_Get ms_lookup
  by unfold_locales
     (auto simp: ms_Get_lookup ms_lookup_Put ms_lookup_Put_other dest: ms_Put_refused split: option.splits)

end
