(* ===== verification/Saga_Recovery.thy ===== *)
theory Saga_Recovery
  imports Saga_Durable
begin

text \<open>
  Recovery of durable sagas: what \<^verbatim>\<open>Start\<close>, \<^verbatim>\<open>Run\<close> and \<^verbatim>\<open>Resume\<close> of \<^verbatim>\<open>runtime/saga/executor.go\<close>
  achieve on the memory store, with and without crashes.

  The locale \<open>reliable_store\<close> extends \<open>state_store\<close> by stores that accept every well-formed write; the
  memory store is one.  The crashing store is the memory store cut off after a number of writes.
\<close>

text \<open>Every step has a forward action, and no callback panics.\<close>

definition quiet :: "'w dstep list \<Rightarrow> bool" where
  "quiet steps \<longleftrightarrow> (\<forall>s \<in> set steps.
     (\<exists>f. dForward s = Some f \<and> (\<forall>ctx x w. fst (f ctx x w) \<noteq> Panicked)) \<and>
     (\<forall>f. dCompensate s = Some f \<longrightarrow> (\<forall>ctx x y w. fst (f ctx x y w) \<noteq> Panicked)))"

definition live :: "ctxt \<Rightarrow> bool" where
  "live ctx \<longleftrightarrow> (\<forall>k. ctx_obs ctx k = None)"

text \<open>Every compensation succeeds.\<close>

definition comps_succeed :: "'w dstep list \<Rightarrow> bool" where
  "comps_succeed steps \<longleftrightarrow> (\<forall>s \<in> set steps. \<forall>f. dCompensate s = Some f \<longrightarrow>
     (\<forall>ctx x y w. fst (f ctx x y w) = Returned None))"

locale reliable_store = state_store put get lookup
  for put :: "ctxt \<Rightarrow> instance_rec \<Rightarrow> 's \<Rightarrow> saga_error option \<times> 's" and get and lookup +
  assumes put_total: "iID inst \<noteq> [] \<Longrightarrow> fst (put ctx inst s) = None"
    and get_total: "lookup iid s = Some inst \<Longrightarrow> get ctx iid s = Inr inst"
begin

lemma put_ok:
  assumes "iID inst \<noteq> []"
  shows "\<exists>s' c u. put ctx inst s = (None, s') \<and> lookup (iID inst) s' = Some (inst\<lparr>iCreatedAt := c, iUpdatedAt := u\<rparr>)"
  using put_total [OF assms, of ctx s] put_done [of ctx inst s "snd (put ctx inst s)"] by (metis prod.collapse)

lemma comp_loop_ends:
  assumes "quiet steps" and "m \<le> length steps" and "iID inst \<noteq> []"
  shows "\<exists>r v' inst'. comp_loop put steps ctx already m inst errs v = (Returned r, v') \<and>
    lookup (iID inst) (store v') = Some inst' \<and> iID inst' = iID inst \<and> iState inst' = StateFailed"
  using assms(2,3)
proof (induction m arbitrary: inst errs v)
  case 0
  obtain s' c u where "put ctx (inst\<lparr>iState := StateFailed\<rparr>) (store v) = (None, s')"
    "lookup (iID inst) s' = Some (inst\<lparr>iState := StateFailed, iCreatedAt := c, iUpdatedAt := u\<rparr>)"
    using put_ok [of "inst\<lparr>iState := StateFailed\<rparr>" ctx "store v"] 0 by auto
  then show ?case by simp
next
  case (Suc i)
  let ?inst = "inst\<lparr>iCompensated := iCompensated inst @ [i]\<rparr>"
  show ?case
  proof (cases "i \<in> set already")
    case True
    then show ?thesis using Suc by simp
  next
    case False
    have persist: "\<exists>r v1 inst'. (case put ctx ?inst (store v') of
          (Some e, s) \<Rightarrow> (Returned (Some (SgWrapped e)), v'\<lparr>store := s\<rparr>)
        | (None, s) \<Rightarrow> comp_loop put steps ctx already i ?inst errs' (v'\<lparr>store := s\<rparr>)) = (Returned r, v1) \<and>
        lookup (iID inst) (store v1) = Some inst' \<and> iID inst' = iID inst \<and> iState inst' = StateFailed" for errs' v'
    proof -
      obtain s' where "put ctx ?inst (store v') = (None, s')"
        using put_ok [of ?inst ctx "store v'"] Suc.prems(2) by auto
      then show ?thesis using Suc.IH [of ?inst errs' "v'\<lparr>store := s'\<rparr>"] Suc.prems by simp
    qed
    show ?thesis
    proof (cases "dCompensate (steps ! i)")
      case None
      then show ?thesis using False Suc.prems persist [of errs v] by (simp add: Let_def)
    next
      case (Some cmp)
      define out where "out = (if i < length (iStepResults inst) then iStepResults inst ! i else [])"
      have "steps ! i \<in> set steps" using Suc.prems by simp
      then have "fst (cmp ctx (compensateInput inst i) out (world v)) \<noteq> Panicked"
        using assms(1) Some by (simp add: quiet_def)
      then obtain r w where c: "cmp ctx (compensateInput inst i) out (world v) = (Returned r, w)"
        by (cases "cmp ctx (compensateInput inst i) out (world v)"; cases "fst (cmp ctx (compensateInput inst i) out (world v))") auto
      note p = persist [of _ "v\<lparr>world := w, calls := calls v @ [DCompensate i (compensateInput inst i) out]\<rparr>"]
      show ?thesis
        using Suc.prems False Some c p [of errs] p [of "errs @ [(i, dName (steps ! i), e)]" for e]
        by (cases r) (simp_all add: Let_def out_def [symmetric])
    qed
  qed
qed

text \<open>Compensations that all succeed end in nil, with the recorded error untouched.\<close>

lemma comp_loop_nil:
  assumes "comps_succeed steps" and "m \<le> length steps" and "iID inst \<noteq> []"
  shows "\<exists>v' inst'. comp_loop put steps ctx already m inst [] v = (Returned None, v') \<and>
    lookup (iID inst) (store v') = Some inst' \<and> iState inst' = StateFailed \<and> iLastError inst' = iLastError inst"
  using assms(2,3)
proof (induction m arbitrary: inst v)
  case 0
  obtain s' c u where "put ctx (inst\<lparr>iState := StateFailed\<rparr>) (store v) = (None, s')"
    "lookup (iID inst) s' = Some (inst\<lparr>iState := StateFailed, iCreatedAt := c, iUpdatedAt := u\<rparr>)"
    using put_ok [of "inst\<lparr>iState := StateFailed\<rparr>" ctx "store v"] 0 by auto
  then show ?case by simp
next
  case (Suc i)
  let ?inst = "inst\<lparr>iCompensated := iCompensated inst @ [i]\<rparr>"
  have persist: "\<exists>v1 inst'. (case put ctx ?inst (store v') of
        (Some e, s) \<Rightarrow> (Returned (Some (SgWrapped e)), v'\<lparr>store := s\<rparr>)
      | (None, s) \<Rightarrow> comp_loop put steps ctx already i ?inst [] (v'\<lparr>store := s\<rparr>)) = (Returned None, v1) \<and>
      lookup (iID inst) (store v1) = Some inst' \<and> iState inst' = StateFailed \<and> iLastError inst' = iLastError inst" for v'
  proof -
    obtain s' where "put ctx ?inst (store v') = (None, s')"
      using put_ok [of ?inst ctx "store v'"] Suc.prems(2) by auto
    then show ?thesis using Suc.IH [of ?inst "v'\<lparr>store := s'\<rparr>"] Suc.prems by simp
  qed
  show ?case
  proof (cases "i \<in> set already \<or> dCompensate (steps ! i) = None")
    case True
    then show ?thesis using Suc persist [of v] by (auto simp: Let_def)
  next
    case False
    then obtain cmp where cmp: "dCompensate (steps ! i) = Some cmp" by auto
    define out where "out = (if i < length (iStepResults inst) then iStepResults inst ! i else [])"
    have "steps ! i \<in> set steps" using Suc.prems by simp
    then have "fst (cmp ctx (compensateInput inst i) out (world v)) = Returned None"
      using assms(1) cmp by (simp add: comps_succeed_def)
    then obtain w where c: "cmp ctx (compensateInput inst i) out (world v) = (Returned None, w)" by (metis prod.collapse)
    show ?thesis
      using Suc.prems False cmp c persist [of "v\<lparr>world := w, calls := calls v @ [DCompensate i (compensateInput inst i) out]\<rparr>"]
      by (simp add: Let_def out_def [symmetric])
  qed
qed

lemma forward_loop_ends:
  assumes "quiet steps" and "live ctx" and "iCurrentStep inst \<le> length steps" and "iID inst \<noteq> []"
  shows "\<exists>r v' inst'. forward_loop put steps ctx k inst v = (Returned r, v') \<and>
    lookup (iID inst) (store v') = Some inst' \<and> iID inst' = iID inst \<and> IsTerminal inst' \<and> (r = None \<longleftrightarrow> iState inst' = StateCompleted)"
  using assms(3,4)
proof (induction "length steps - iCurrentStep inst" arbitrary: k inst v rule: less_induct)
  case less
  note eq = forward_loop.simps [of put steps ctx k inst v]
  show ?case
  proof (cases "iCurrentStep inst < length steps")
    case False
    obtain s' c u where "put ctx (inst\<lparr>iState := StateCompleted\<rparr>) (store v) = (None, s')"
      "lookup (iID inst) s' = Some (inst\<lparr>iState := StateCompleted, iCreatedAt := c, iUpdatedAt := u\<rparr>)"
      using put_ok [of "inst\<lparr>iState := StateCompleted\<rparr>" ctx "store v"] less.prems by auto
    then show ?thesis using False by (simp add: eq IsTerminal_def)
  next
    case True
    let ?i = "iCurrentStep inst" and ?x = "stepInput inst"
    have "steps ! ?i \<in> set steps" using True by simp
    then obtain fwd where fwd: "dForward (steps ! ?i) = Some fwd" "fst (fwd ctx ?x (world v)) \<noteq> Panicked"
      using assms(1) unfolding quiet_def by blast
    then obtain r w where call: "fwd ctx ?x (world v) = (Returned r, w)"
      by (cases "fwd ctx ?x (world v)"; cases "fst (fwd ctx ?x (world v))") auto
    define v1 where "v1 = v\<lparr>world := w, calls := calls v @ [DForward ?i ?x (Returned r)]\<rparr>"
    have st: "store v1 = store v" by (simp add: v1_def)
    have k: "ctx_obs ctx k = None" using assms(2) by (simp add: live_def)
    show ?thesis
    proof (cases r)
      case (Inl e)
      define inst1 where "inst1 = inst\<lparr>iLastError := ErrorValue e, iState := StateCompensating\<rparr>"
      obtain s' where put1: "put ctx inst1 (store v1) = (None, s')"
        using put_ok [of inst1 ctx "store v1"] less.prems by (auto simp: inst1_def)
      from comp_loop_ends [OF assms(1), of ?i inst1 "without_cancel ctx" "iCompensated inst1" "[]" "v1\<lparr>store := s'\<rparr>"]
      obtain r' v' inst' where "driveCompensation put steps ctx inst1 (v1\<lparr>store := s'\<rparr>) = (Returned r', v')"
        "lookup (iID inst) (store v') = Some inst'" "iID inst' = iID inst" "iState inst' = StateFailed"
        using less.prems by (auto simp: driveCompensation_def inst1_def)
      moreover have "forward_loop put steps ctx k inst v = driveCompensationAfterForward put steps ctx inst1
          (SgForward ?i (dName (steps ! ?i)) e) (v1\<lparr>store := s'\<rparr>)"
        using True k fwd(1) call Inl put1 unfolding eq inst1_def v1_def Let_def by simp
      ultimately show ?thesis
        by (auto simp: driveCompensationAfterForward_def IsTerminal_def split: option.split)
    next
      case (Inr out)
      define inst1 where "inst1 = record_output (length steps) inst out"
      have flds: "iID inst1 = iID inst" "iCurrentStep inst1 = Suc ?i" by (simp_all add: inst1_def record_output_def Let_def)
      obtain s' where put1: "put ctx inst1 (store v1) = (None, s')"
        using put_ok [of inst1 ctx "store v1"] less.prems by (auto simp: flds)
      have "forward_loop put steps ctx k inst v = forward_loop put steps ctx (Suc k) inst1 (v1\<lparr>store := s'\<rparr>)"
        using True k fwd(1) call Inr put1 unfolding eq inst1_def v1_def Let_def by simp
      then show ?thesis
        using less.hyps [of inst1 "Suc k" "v1\<lparr>store := s'\<rparr>"] less.prems True flds by simp
    qed
  qed
qed

text \<open>An attempt that can write, is not cancelled and does not panic ends the saga.\<close>

lemma execute_ends:
  assumes "quiet steps" and "live ctx" and "lookup iid (store v) = Some inst" and "iID inst = iid" and "iid \<noteq> []"
    and "iCurrentStep inst \<le> length steps"
  shows "\<exists>r v' inst'. executeInstance put get steps ctx iid v = (r, v') \<and>
    lookup iid (store v') = Some inst' \<and> iID inst' = iid \<and> IsTerminal inst' \<and>
    (\<forall>k. k \<noteq> iid \<longrightarrow> lookup k (store v') = lookup k (store v)) \<and>
    (iState inst \<in> {StatePending, StateRunning} \<longrightarrow> (r = None \<longleftrightarrow> iState inst' = StateCompleted))"
proof -
  have g: "get ctx iid (store v) = Inr inst" using get_total assms(3) by simp
  show ?thesis
  proof (cases "IsTerminal inst \<or> iState inst = StateCompensating")
    case True
    have "\<forall>k. k \<noteq> iid \<longrightarrow> lookup k (store (snd (driveCompensation put steps ctx inst v))) = lookup k (store v)"
      unfolding driveCompensation_def assms(4) [symmetric] by (intro allI impI comp_loop_frame)
    with comp_loop_ends [OF assms(1,6), of inst "without_cancel ctx" "iCompensated inst" "[]" v] g True assms
    show ?thesis
      by (auto simp: executeInstance_def execute_body_def driveCompensation_def IsTerminal_def)
  next
    case False
    define inst1 where "inst1 = inst\<lparr>iState := StateRunning\<rparr>"
    obtain s' where put1: "put ctx inst1 (store v) = (None, s')"
      using put_ok [of inst1 ctx "store v"] assms(4,5) by (auto simp: inst1_def)
    have "execute_body put get steps ctx iid v = forward_loop put steps ctx 0 inst1 (v\<lparr>store := s'\<rparr>)"
      using g False put1 by (simp add: execute_body_def inst1_def)
    moreover have "\<forall>k. k \<noteq> iid \<longrightarrow> lookup k (store (snd (forward_loop put steps ctx 0 inst1 (v\<lparr>store := s'\<rparr>)))) = lookup k (store v)"
      using forward_loop_frame [of _ inst1 steps ctx 0 "v\<lparr>store := s'\<rparr>"] put_other [of _ inst1 ctx "store v"] put1 assms(4)
      by (simp add: inst1_def)
    ultimately show ?thesis
      using forward_loop_ends [OF assms(1,2), of inst1 0 "v\<lparr>store := s'\<rparr>"] assms(4-6)
      by (auto simp: executeInstance_def inst1_def)
  qed
qed

end

interpretation mem_reliable: reliable_store ms_Put ms_Get ms_lookup
  by unfold_locales (auto simp: ms_Put_def ms_Get_lookup Let_def)

section \<open>Crashes\<close>

text \<open>The memory store seen by a process that dies at its write number \<open>k\<close>: later writes are lost.\<close>

definition crash_Put :: "ctxt \<Rightarrow> instance_rec \<Rightarrow> nat \<times> mem_store \<Rightarrow> saga_error option \<times> nat \<times> mem_store" where
  "crash_Put ctx inst s =
     (case s of
        (0, m) \<Rightarrow> (Some (SgStore 0), 0, m)
      | (Suc k, m) \<Rightarrow> (case ms_Put ctx inst m of (e, m') \<Rightarrow> (e, k, m')))"

definition crash_Get :: "ctxt \<Rightarrow> string \<Rightarrow> nat \<times> mem_store \<Rightarrow> saga_error + instance_rec" where
  "crash_Get ctx iid s = ms_Get ctx iid (snd s)"

interpretation crashing: state_store crash_Put crash_Get "\<lambda>iid s. ms_lookup iid (snd s)"
proof (unfold_locales, goal_cases)
  case (1 ctx iid s inst)
  then show ?case by (simp add: crash_Get_def mem_state.get_lookup)
next
  case (2 ctx inst s s')
  then show ?case by (auto simp: crash_Put_def ms_lookup_Put split: prod.splits nat.splits)
next
  case (3 ctx inst s e s' iid)
  then show ?case by (auto simp: crash_Put_def dest: ms_Put_refused split: prod.splits nat.splits)
next
  case (4 iid inst ctx s)
  then show ?case
    using ms_lookup_Put_other [OF 4] by (auto simp: crash_Put_def split: prod.splits nat.splits) (metis snd_conv)
qed

text \<open>
  Attempts to run an instance, one process after the other; each has a context and the number of
  writes it lives to see.
\<close>

fun attempts ::
    "'w dstep list \<Rightarrow> string \<Rightarrow> (ctxt \<times> nat) list \<Rightarrow> ('w, mem_store) env \<Rightarrow> ('w, mem_store) env" where
  "attempts steps iid [] v = v"
| "attempts steps iid ((ctx, k) # as) v =
     (case executeInstance crash_Put crash_Get steps ctx iid
             \<lparr>world = world v, store = (k, store v), calls = calls v\<rparr> of
        (r, v') \<Rightarrow> attempts steps iid as \<lparr>world = world v', store = snd (store v'), calls = calls v'\<rparr>)"

lemma attempts_inv:
  assumes "ms_lookup iid (store v) = Some inst" and "iID inst = iid" and "sg_inv steps inst (calls v)"
  shows "\<exists>inst'. ms_lookup iid (store (attempts steps iid as v)) = Some inst' \<and>
     sg_inv steps inst' (calls (attempts steps iid as v))"
  using assms
proof (induction as arbitrary: v inst)
  case Nil
  then show ?case by auto
next
  case (Cons a as)
  obtain ctx k where a: "a = (ctx, k)" by (cases a)
  define v0 where "v0 = \<lparr>world = world v, store = (k, store v), calls = calls v\<rparr>"
  obtain r v1 where ex: "executeInstance crash_Put crash_Get steps ctx iid v0 = (r, v1)" by (metis surj_pair)
  have "crashing.good steps iid v0" using Cons.prems by (simp add: crashing.good_def v0_def)
  from crashing.execute_good [OF this, of ctx] ex
  obtain inst1 where "ms_lookup iid (snd (store v1)) = Some inst1" "iID inst1 = iid" "sg_inv steps inst1 (calls v1)"
    by (auto simp: crashing.good_def)
  then show ?case
    using Cons.IH [of "\<lparr>world = world v1, store = snd (store v1), calls = calls v1\<rparr>" inst1] ex
    by (simp add: a v0_def)
qed

section \<open>Properties\<close>

text \<open>
  Property C4.  Crash safety.  Take a pending instance that has never run, and any number of
  attempts to run it, each crashing at any write, cancelled at any check or ended by a panic.
  Then at the end, for the stored instance: every step below the current one has succeeded, on
  the recorded output of the step before, with the output on record; no compensation has ever
  been followed by a forward call; a completed saga has passed all its steps and compensated
  none; in a failed one exactly the steps below the current one are marked compensated, last
  first, and each compensable one of them was called with its recorded input and output.
\<close>

theorem saga_crash_safe:
  assumes "ms_lookup iid (store v) = Some inst0" and "iID inst0 = iid" and "iState inst0 = StatePending"
    and "iCurrentStep inst0 = 0" and "iCompensated inst0 = []" and "calls v = []"
    and "v' = attempts steps iid as v" and "ms_lookup iid (store v') = Some inst"
  shows "(\<forall>i < iCurrentStep inst.
            DForward i (compensateInput inst i) (Returned (Inr (iStepResults inst ! i))) \<in> set (calls v'))
       \<and> (\<exists>fs cs. calls v' = fs @ cs \<and> list_all (\<lambda>c. \<not> is_comp c) fs \<and> list_all is_comp cs)
       \<and> (iState inst = StateCompleted \<longrightarrow>
            iCurrentStep inst = length steps \<and> list_all (\<lambda>c. \<not> is_comp c) (calls v'))
       \<and> (iState inst = StateFailed \<longrightarrow>
            iCompensated inst = rev [0..<iCurrentStep inst] \<and>
            (\<forall>i < iCurrentStep inst. dCompensate (steps ! i) \<noteq> None \<longrightarrow>
               DCompensate i (compensateInput inst i) (iStepResults inst ! i) \<in> set (calls v')) \<and>
            (\<forall>i x y. DCompensate i x y \<in> set (calls v') \<longrightarrow> i < iCurrentStep inst))"
proof -
  have "sg_inv steps inst0 (calls v)" using assms(3-6) by (simp add: sg_inv_new)
  from attempts_inv [OF assms(1,2) this, of as] have inv: "sg_inv steps inst (calls v')"
    using assms(7,8) by simp
  have failed: "iCompensated inst = rev [0..<iCurrentStep inst] \<and>
      (\<forall>i < iCurrentStep inst. dCompensate (steps ! i) \<noteq> None \<longrightarrow>
         DCompensate i (compensateInput inst i) (iStepResults inst ! i) \<in> set (calls v'))"
    if "iState inst = StateFailed"
    using inv that unfolding sg_inv_def by (metis zero_le)
  moreover have "\<forall>i x y. DCompensate i x y \<in> set (calls v') \<longrightarrow> i < iCurrentStep inst"
    using inv by (simp add: sg_inv_def)
  moreover have "iState inst = StateCompleted \<longrightarrow>
      iCurrentStep inst = length steps \<and> list_all (\<lambda>c. \<not> is_comp c) (calls v')"
    using inv sg_inv_forward_only [OF inv] by (auto simp: sg_inv_def)
  moreover have "\<exists>fs cs. calls v' = fs @ cs \<and> list_all (\<lambda>c. \<not> is_comp c) fs \<and> list_all is_comp cs"
    using inv by (simp add: sg_inv_def)
  moreover have "\<forall>i < iCurrentStep inst.
      DForward i (compensateInput inst i) (Returned (Inr (iStepResults inst ! i))) \<in> set (calls v')"
    using inv by (simp add: sg_inv_def)
  ultimately show ?thesis by blast
qed

text \<open>Two steps on a counter: the first adds five, the second fails.\<close>

definition dsaga_ex :: "int dstep list" where
  "dsaga_ex =
     [\<lparr>dName = ''a'', dForward = Some (\<lambda>ctx x w. (Returned (Inr ''A''), w + 5)),
       dCompensate = Some (\<lambda>ctx x y w. (Returned None, w - 5))\<rparr>,
      \<lparr>dName = ''b'', dForward = Some (\<lambda>ctx x w. (Returned (Inl (SgCause 1)), w)), dCompensate = None\<rparr>]"

definition dsaga_inst :: instance_rec where
  "dsaga_inst = \<lparr>iID = ''i'', iDefinition = ''d'', iState = StatePending, iCurrentStep = 0, iCompensated = [],
     iInput = ''in'', iStepResults = [], iLastError = NoError, iCreatedAt = 0, iUpdatedAt = 0\<rparr>"

definition dsaga_env :: "(int, mem_store) env" where
  "dsaga_env = \<lparr>world = 100,
     store = \<lparr>msInstances = [(''i'', dsaga_inst)], msTicks = (\<lambda>n. int n), msReadings = 0\<rparr>, calls = []\<rparr>"

lemma dsaga_run:
  "world (attempts dsaga_ex ''i'' [(background, 2), (background, 10)] dsaga_env) = 100"
  "map_option iState (ms_lookup ''i'' (store (attempts dsaga_ex ''i'' [(background, 2), (background, 10)] dsaga_env)))
     = Some StateFailed"
  by code_simp+

theorem saga_crash_safe_witness:
  "\<exists>inst. ms_lookup ''i'' (store (attempts dsaga_ex ''i'' [(background, 2), (background, 10)] dsaga_env)) = Some inst \<and>
     iState inst = StateFailed \<and> iCompensated inst = rev [0..<iCurrentStep inst]"
proof -
  obtain inst where inst: "ms_lookup ''i'' (store (attempts dsaga_ex ''i'' [(background, 2), (background, 10)] dsaga_env)) = Some inst"
    "iState inst = StateFailed"
    using dsaga_run(2) by auto
  have "ms_lookup ''i'' (store dsaga_env) = Some dsaga_inst" by (simp add: ms_lookup_def dsaga_env_def)
  from saga_crash_safe [OF this _ _ _ _ _ refl inst(1)] inst show ?thesis
    by (simp add: dsaga_inst_def dsaga_env_def)
qed

text \<open>
  Property C27.  A started saga ends.  \<^verbatim>\<open>Start\<close> on a registered definition, with a context that stays
  live, callbacks that do not panic, an input that is nil or marshals, and the memory store, leaves the new
  instance completed or failed, and returns nil exactly if it is completed.
\<close>

theorem saga_Start_ends:
  assumes "lookupDef defs name = Inr d" and "quiet (ddSteps d)" and "live ctx" and "newID \<noteq> []"
    and "raw = None \<or> raw = Some (Inr marshalled)"
    and "dx_Start ms_Put ms_Get defs ctx newID name raw v = ((iid, r), v')"
  shows "iid = newID \<and> (\<exists>inst. ms_lookup newID (store v') = Some inst \<and> IsTerminal inst \<and>
           (r = None \<longleftrightarrow> iState inst = StateCompleted))"
proof -
  define input where "input = (case raw of None \<Rightarrow> [] | Some x \<Rightarrow> marshalled)"
  have raw: "(case raw of None \<Rightarrow> Inr [] | Some r \<Rightarrow> r) = Inr input" using assms(5) by (auto simp: input_def)
  define inst where "inst = \<lparr>iID = newID, iDefinition = name, iState = StatePending, iCurrentStep = 0,
     iCompensated = [], iInput = input, iStepResults = [], iLastError = NoError,
     iCreatedAt = zero_time, iUpdatedAt = zero_time\<rparr>"
  obtain m c u where put: "ms_Put ctx inst (store v) = (None, m)"
    and look: "ms_lookup newID m = Some (inst\<lparr>iCreatedAt := c, iUpdatedAt := u\<rparr>)"
    using mem_reliable.put_ok [of inst ctx "store v"] assms(4) by (auto simp: inst_def)
  define inst1 where "inst1 = inst\<lparr>iCreatedAt := c, iUpdatedAt := u\<rparr>"
  have flds: "iID inst1 = newID" "iState inst1 = StatePending" "iCurrentStep inst1 = 0"
    by (simp_all add: inst1_def inst_def)
  have "ms_lookup newID (store (v\<lparr>store := m\<rparr>)) = Some inst1" using look by (simp add: inst1_def)
  from mem_reliable.execute_ends [OF assms(2,3) this] flds assms(4)
  obtain r1 v1 inst' where ex: "executeInstance ms_Put ms_Get (ddSteps d) ctx newID (v\<lparr>store := m\<rparr>) = (r1, v1)"
    "ms_lookup newID (store v1) = Some inst'" "IsTerminal inst'" "r1 = None \<longleftrightarrow> iState inst' = StateCompleted"
    by auto
  have "((iid, r), v') = ((newID, r1), v1)"
    using assms(1) put ex(1) by (simp add: dx_Start_def inst_def assms(6) [symmetric] raw)
  then show ?thesis using ex(2-4) by blast
qed

definition dsaga_defs :: "int registry" where
  "dsaga_defs = [(''d'', \<lparr>ddName = ''d'', ddSteps = dsaga_ex\<rparr>)]"

lemma dsaga_quiet: "quiet dsaga_ex"
  by (simp add: quiet_def dsaga_ex_def)

lemma live_background: "live background"
  by (simp add: live_def)

theorem saga_Start_ends_witness:
  "\<exists>r v' inst. dx_Start ms_Put ms_Get dsaga_defs background ''j'' ''d'' (Some (Inr ''x'')) dsaga_env = ((''j'', r), v') \<and>
     ms_lookup ''j'' (store v') = Some inst \<and> IsTerminal inst"
proof -
  obtain iid r v' where st: "dx_Start ms_Put ms_Get dsaga_defs background ''j'' ''d'' (Some (Inr ''x'')) dsaga_env = ((iid, r), v')"
    by (metis surj_pair)
  have "lookupDef dsaga_defs ''d'' = Inr \<lparr>ddName = ''d'', ddSteps = dsaga_ex\<rparr>"
    by (simp add: lookupDef_def dsaga_defs_def)
  from saga_Start_ends [OF this _ live_background _ _ st] dsaga_quiet st show ?thesis by auto
qed

section \<open>Resume\<close>

text \<open>The store's own invariant: an instance is filed under its identifier.\<close>

definition ms_inv :: "mem_store \<Rightarrow> bool" where
  "ms_inv m \<longleftrightarrow> (\<forall>k inst. ms_lookup k m = Some inst \<longrightarrow> iID inst = k \<and> k \<noteq> [])"

lemma ms_inv_Put: "ms_inv m \<Longrightarrow> ms_inv (snd (ms_Put ctx inst m))"
  by (auto simp: ms_inv_def ms_Put_def ms_lookup_def Let_def gomap_simps)

text \<open>The stored step index is one of the definition's, as every run of the executor leaves it.\<close>

definition ms_fits :: "'w registry \<Rightarrow> mem_store \<Rightarrow> bool" where
  "ms_fits defs m \<longleftrightarrow> (\<forall>k inst d. ms_lookup k m = Some inst \<longrightarrow>
     map_of defs (iDefinition inst) = Some d \<longrightarrow> iCurrentStep inst \<le> length (ddSteps d))"

definition all_quiet :: "'w registry \<Rightarrow> bool" where
  "all_quiet defs \<longleftrightarrow> (\<forall>name d. map_of defs name = Some d \<longrightarrow> quiet (ddSteps d))"

lemma resume_each_ends:
  assumes "all_quiet defs" and "live ctx" and "distinct (map iID pending)"
    and "\<forall>i \<in> set pending. ms_lookup (iID i) (store v) = Some i \<and> iID i \<noteq> [] \<and>
           (\<forall>d. map_of defs (iDefinition i) = Some d \<longrightarrow> iCurrentStep i \<le> length (ddSteps d))"
    and "dx_resume_each ms_Put ms_Get defs ctx pending v = (rs, v')"
  shows "(\<forall>k. k \<notin> iID ` set pending \<longrightarrow> ms_lookup k (store v') = ms_lookup k (store v)) \<and>
    (\<forall>i \<in> set pending. if map_of defs (iDefinition i) = None then ms_lookup (iID i) (store v') = Some i
       else \<exists>i'. ms_lookup (iID i) (store v') = Some i' \<and> IsTerminal i')"
  using assms(3-5)
proof (induction pending arbitrary: v rs)
  case Nil
  then show ?case by simp
next
  case (Cons i rest)
  define res where "res = (case lookupDef defs (iDefinition i) of
      Inl e \<Rightarrow> (Some e, v) | Inr d \<Rightarrow> executeInstance ms_Put ms_Get (ddSteps d) ctx (iID i) v)"
  obtain r v1 where res: "res = (r, v1)" by (cases res)
  obtain rs' where rest: "dx_resume_each ms_Put ms_Get defs ctx rest v1 = (rs', v')"
    using Cons.prems(3) res by (auto simp: res_def [symmetric] split: prod.splits)
  have first: "(\<forall>k. k \<noteq> iID i \<longrightarrow> ms_lookup k (store v1) = ms_lookup k (store v)) \<and>
      (if map_of defs (iDefinition i) = None then ms_lookup (iID i) (store v1) = Some i
       else \<exists>i'. ms_lookup (iID i) (store v1) = Some i' \<and> IsTerminal i')"
  proof (cases "map_of defs (iDefinition i)")
    case None
    then show ?thesis using res Cons.prems(2) by (simp add: res_def lookupDef_def)
  next
    case (Some d)
    have "quiet (ddSteps d)" using assms(1) Some by (simp add: all_quiet_def)
    from mem_reliable.execute_ends [OF this assms(2), of "iID i" v i] Cons.prems(2) Some res
    show ?thesis by (auto simp: res_def lookupDef_def)
  qed
  have "\<forall>j \<in> set rest. iID j \<noteq> iID i" using Cons.prems(1) by (auto simp: image_iff)
  then have "\<forall>j \<in> set rest. ms_lookup (iID j) (store v1) = Some j \<and> iID j \<noteq> [] \<and>
      (\<forall>d. map_of defs (iDefinition j) = Some d \<longrightarrow> iCurrentStep j \<le> length (ddSteps d))"
    using Cons.prems(2) first by auto
  with Cons.IH [OF _ this rest] Cons.prems(1)
  have later: "(\<forall>k. k \<notin> iID ` set rest \<longrightarrow> ms_lookup k (store v') = ms_lookup k (store v1)) \<and>
    (\<forall>j \<in> set rest. if map_of defs (iDefinition j) = None then ms_lookup (iID j) (store v') = Some j
       else \<exists>i'. ms_lookup (iID j) (store v') = Some i' \<and> IsTerminal i')"
    by simp
  then have "ms_lookup (iID i) (store v') = ms_lookup (iID i) (store v1)" using Cons.prems(1) by auto
  then show ?case using first later by auto
qed

lemma ms_ListResumable_all:
  assumes "ms_inv m" and "range_order order (msInstances m)"
  obtains pending m' where "ms_ListResumable order 0 m = (Inr pending, m')"
    and "msInstances m' = msInstances m" and "distinct (map iID pending)"
    and "\<And>i. i \<in> set pending \<longleftrightarrow> ms_lookup (iID i) m = Some i \<and> \<not> IsTerminal i"
proof -
  define pick where "pick k = (case map_of (msInstances m) k of
      None \<Rightarrow> [] | Some inst \<Rightarrow> if IsTerminal inst then [] else [inst])" for k
  define pending where "pending = concat (map pick order)"
  have fn: "(case map_of (msInstances m) k of
        None \<Rightarrow> []
      | Some inst \<Rightarrow> if IsTerminal inst then []
          else if 0 < (0 :: int) \<and> th < iUpdatedAt inst then [] else [inst]) = pick k" for k th
    by (auto simp: pick_def split: option.split)
  have list: "ms_ListResumable order 0 m = (Inr pending, m\<lparr>msReadings := Suc (msReadings m)\<rparr>)"
    unfolding ms_ListResumable_def pending_def Let_def fn ..
  have filed: "iID i = k" if "i \<in> set (pick k)" for i k
    using that assms(1) by (auto simp: pick_def ms_inv_def ms_lookup_def split: option.splits if_splits)
  have dist: "distinct (map iID (concat (map pick ks)))" if "distinct ks" for ks
    using that
  proof (induction ks)
    case (Cons k ks)
    have "distinct (map iID (pick k))" by (auto simp: pick_def split: option.splits)
    then show ?case using Cons filed by (auto simp: image_iff)
  qed simp
  have mem: "i \<in> set pending \<longleftrightarrow> ms_lookup (iID i) m = Some i \<and> \<not> IsTerminal i" for i
  proof -
    have "i \<in> set pending \<longleftrightarrow> (\<exists>k \<in> set order. i \<in> set (pick k))" by (auto simp: pending_def)
    also have "\<dots> \<longleftrightarrow> (\<exists>k. ms_lookup k m = Some i \<and> \<not> IsTerminal i)"
    proof -
      have "i \<in> set (pick k) \<longleftrightarrow> ms_lookup k m = Some i \<and> \<not> IsTerminal i" for k
        by (auto simp: pick_def ms_lookup_def split: option.splits)
      moreover have "k \<in> set order" if "ms_lookup k m = Some i" for k
        using assms(2) that by (simp add: range_order_def gm_key_iff ms_lookup_def)
      ultimately show ?thesis by blast
    qed
    also have "\<dots> \<longleftrightarrow> ms_lookup (iID i) m = Some i \<and> \<not> IsTerminal i"
      using assms(1) by (auto simp: ms_inv_def)
    finally show ?thesis .
  qed
  show thesis
    by (rule that [OF list]) (use dist assms(2) mem in \<open>auto simp: pending_def range_order_def\<close>)
qed

text \<open>
  Property C26.  Recovery is complete.  On the memory store, \<^verbatim>\<open>Resume\<close> with \<^verbatim>\<open>olderThan = 0\<close>, a context that
  stays live and definitions whose callbacks do not panic returns, and afterwards every stored instance of a registered
  definition is completed or failed, whatever state a crash had left it in and in whatever order
  the store listed the instances.  The instances are filed under their identifiers, and their step index is one
  of the definition's, as the executor leaves it.
\<close>

theorem saga_Resume_complete:
  assumes "ms_inv (store v)" and "ms_fits defs (store v)" and "all_quiet defs" and "live ctx"
    and "range_order order (msInstances (store v))"
    and "dx_Resume ms_Put ms_Get (ms_ListResumable order) defs ctx 0 v = (res, v')"
  shows "(\<exists>rs. res = Inr rs) \<and>
    (\<forall>k inst. ms_lookup k (store v') = Some inst \<and> map_of defs (iDefinition inst) \<noteq> None \<longrightarrow> IsTerminal inst)"
proof -
  obtain pending m' where list: "ms_ListResumable order 0 (store v) = (Inr pending, m')"
    and same: "msInstances m' = msInstances (store v)" and dist: "distinct (map iID pending)"
    and mem: "\<And>i. i \<in> set pending \<longleftrightarrow> ms_lookup (iID i) (store v) = Some i \<and> \<not> IsTerminal i"
    using ms_ListResumable_all [OF assms(1,5)] by blast
  obtain rs where each: "dx_resume_each ms_Put ms_Get defs ctx pending (v\<lparr>store := m'\<rparr>) = (rs, v')"
    and r: "res = Inr rs"
    using assms(6) list by (auto simp: dx_Resume_def split: prod.splits)
  have look: "ms_lookup k m' = ms_lookup k (store v)" for k by (simp add: ms_lookup_def same)
  have "\<forall>i \<in> set pending. ms_lookup (iID i) (store (v\<lparr>store := m'\<rparr>)) = Some i \<and> iID i \<noteq> [] \<and>
      (\<forall>d. map_of defs (iDefinition i) = Some d \<longrightarrow> iCurrentStep i \<le> length (ddSteps d))"
    using mem assms(1,2) unfolding ms_inv_def ms_fits_def by (fastforce simp: look)
  note ends = resume_each_ends [OF assms(3,4) dist this each]
  have "IsTerminal inst" if k: "ms_lookup k (store v') = Some inst" "map_of defs (iDefinition inst) \<noteq> None" for k inst
  proof (cases "k \<in> iID ` set pending")
    case True
    then obtain i where i: "i \<in> set pending" "k = iID i" by blast
    then show ?thesis using bspec [OF conjunct2 [OF ends] i(1)] k by (auto split: if_splits)
  next
    case False
    then have old: "ms_lookup k (store v) = Some inst" using ends k(1) by (simp add: look)
    then have "iID inst = k" using assms(1) by (simp add: ms_inv_def)
    then show ?thesis using mem [of inst] old False by auto
  qed
  then show ?thesis using r by blast
qed

lemma dsaga_filed: "ms_inv (store dsaga_env)" "ms_fits dsaga_defs (store dsaga_env)" "all_quiet dsaga_defs"
  by (auto simp: ms_inv_def ms_fits_def all_quiet_def ms_lookup_def dsaga_env_def dsaga_defs_def dsaga_inst_def
      dsaga_quiet split: if_splits)

theorem saga_Resume_complete_witness:
  "\<exists>rs v'. dx_Resume ms_Put ms_Get (ms_ListResumable [''i'']) dsaga_defs background 0 dsaga_env = (Inr rs, v') \<and>
     map_option IsTerminal (ms_lookup ''i'' (store v')) = Some True"
proof -
  obtain res v' where run: "dx_Resume ms_Put ms_Get (ms_ListResumable [''i'']) dsaga_defs background 0 dsaga_env = (res, v')"
    by (metis surj_pair)
  have "range_order [''i''] (msInstances (store dsaga_env))" by (simp add: range_order_def dsaga_env_def)
  note fin = saga_Resume_complete [OF dsaga_filed live_background this run]
  have "map_option iDefinition (ms_lookup ''i'' (store (snd (dx_Resume ms_Put ms_Get (ms_ListResumable [''i''])
      dsaga_defs background 0 dsaga_env)))) = Some ''d''"
    by code_simp
  then obtain inst where "ms_lookup ''i'' (store v') = Some inst" "iDefinition inst = ''d''"
    using run by auto
  moreover have "map_of dsaga_defs ''d'' \<noteq> None" by (simp add: dsaga_defs_def)
  ultimately show ?thesis using fin run by auto
qed

text \<open>
  Property C40.  \<^verbatim>\<open>Run\<close> returns nil for a saga that failed.  Whenever an instance is stored as compensating, as an
  attempt leaves it that stops between the failure of a step and the end of the compensation, and its
  definition is registered and its compensations succeed, \<^verbatim>\<open>Run\<close> finishes the compensation, stores the
  failed state and returns nil, under any context; the error on record stays on record and is not
  reported, neither by this call nor by any later \<^verbatim>\<open>Run\<close> of the instance.
\<close>

theorem saga_Run_nil_after_failure:
  assumes "ms_lookup iid (store v) = Some inst" and "iID inst = iid" and "iid \<noteq> []" and "iState inst = StateCompensating"
    and "lookupDef defs (iDefinition inst) = Inr d" and "comps_succeed (ddSteps d)"
    and "iCurrentStep inst \<le> length (ddSteps d)"
  shows "\<exists>v' inst'. dx_Run ms_Put ms_Get defs ctx iid v = (None, v') \<and>
    ms_lookup iid (store v') = Some inst' \<and> iState inst' = StateFailed \<and> iLastError inst' = iLastError inst \<and>
    (\<forall>steps ctx'. executeInstance ms_Put ms_Get steps ctx' iid v' = (None, v'))"
proof -
  obtain v' inst' where run: "driveCompensation ms_Put (ddSteps d) ctx inst v = (Returned None, v')"
    and look: "ms_lookup iid (store v') = Some inst'" "iState inst' = StateFailed" "iLastError inst' = iLastError inst"
    using mem_reliable.comp_loop_nil [OF assms(6,7), of inst "without_cancel ctx" "iCompensated inst" v] assms(2,3)
    by (auto simp: driveCompensation_def)
  have "dx_Run ms_Put ms_Get defs ctx iid v = (None, v')"
    using assms(1,4,5) run by (simp add: dx_Run_def executeInstance_def execute_body_def ms_Get_lookup IsTerminal_def)
  moreover have "executeInstance ms_Put ms_Get steps ctx' iid v' = (None, v')" for steps ctx'
    using look by (simp add: executeInstance_def execute_body_def ms_Get_lookup IsTerminal_def)
  ultimately show ?thesis using look by blast
qed

text \<open>The example crashes right after the second step failed; the next run returns nil.\<close>

theorem saga_Run_nil_after_failure_witness:
  "\<exists>v' inst'. dx_Run ms_Put ms_Get dsaga_defs background ''i'' (attempts dsaga_ex ''i'' [(background, 3)] dsaga_env) = (None, v') \<and>
     ms_lookup ''i'' (store v') = Some inst' \<and> iState inst' = StateFailed \<and> iLastError inst' = ErrorValue (SgCause 1)"
proof -
  define v where "v = attempts dsaga_ex ''i'' [(background, 3)] dsaga_env"
  have "map_option (\<lambda>i. (iID i, iState i, iDefinition i, iCurrentStep i, iLastError i)) (ms_lookup ''i'' (store v))
      = Some (''i'', StateCompensating, ''d'', 1, ErrorValue (SgCause 1))"
    unfolding v_def by code_simp
  then obtain inst where inst: "ms_lookup ''i'' (store v) = Some inst" "iID inst = ''i''" "iState inst = StateCompensating"
    "iDefinition inst = ''d''" "iCurrentStep inst = 1" "iLastError inst = ErrorValue (SgCause 1)"
    by auto
  have "lookupDef dsaga_defs (iDefinition inst) = Inr \<lparr>ddName = ''d'', ddSteps = dsaga_ex\<rparr>"
    by (simp add: lookupDef_def dsaga_defs_def inst(4))
  from saga_Run_nil_after_failure [OF inst(1,2) _ inst(3) this, of background] show ?thesis
    using inst(5,6) unfolding v_def by (auto simp: comps_succeed_def dsaga_ex_def)
qed

end
