(* ===== verification/Go_Base64.thy ===== *)
theory Go_Base64
  imports Go_Strings
begin

text \<open>
  \<^verbatim>\<open>base64.RawURLEncoding\<close> of Go's standard library: the URL-safe alphabet without padding.

  The decoder skips carriage returns and line feeds, rejects every other character outside the
  alphabet and a single trailing character, and ignores the unused low bits of the last one.
\<close>

fun sextets :: "nat list \<Rightarrow> nat list" where
  "sextets [] = []"
| "sextets [a] = [a div 4, (a mod 4) * 16]"
| "sextets [a, b] = [a div 4, (a mod 4) * 16 + b div 16, (b mod 16) * 4]"
| "sextets (a # b # c # bs) =
     (a div 4) # ((a mod 4) * 16 + b div 16) # ((b mod 16) * 4 + c div 64) # (c mod 64) # sextets bs"

fun unsextets :: "nat list \<Rightarrow> nat list option" where
  "unsextets [] = Some []"
| "unsextets [w] = None"
| "unsextets [w, x] = Some [w * 4 + x div 16]"
| "unsextets [w, x, y] = Some [w * 4 + x div 16, (x mod 16) * 16 + y div 4]"
| "unsextets (w # x # y # z # r) =
     (case unsextets r of
        None \<Rightarrow> None
      | Some bs \<Rightarrow> Some ((w * 4 + x div 16) # ((x mod 16) * 16 + y div 4) # ((y mod 4) * 64 + z) # bs))"

definition b64_char :: "nat \<Rightarrow> char" where
  "b64_char n =
     (if n < 26 then char_of (65 + n)
      else if n < 52 then char_of (71 + n)
      else if n < 62 then char_of (n - 4)
      else if n = 62 then CHR ''-'' else CHR ''_'')"

definition b64_value :: "char \<Rightarrow> nat option" where
  "b64_value c =
     (let n = (of_char c :: nat)
      in if 65 \<le> n \<and> n \<le> 90 then Some (n - 65)
         else if 97 \<le> n \<and> n \<le> 122 then Some (n - 71)
         else if 48 \<le> n \<and> n \<le> 57 then Some (n + 4)
         else if n = 45 then Some 62
         else if n = 95 then Some 63
         else None)"

fun b64_values :: "string \<Rightarrow> nat list option" where
  "b64_values [] = Some []"
| "b64_values (c # cs) =
     (if c = CHR 0x0A \<or> c = CHR 0x0D then b64_values cs
      else case b64_value c of
             None \<Rightarrow> None
           | Some n \<Rightarrow> map_option ((#) n) (b64_values cs))"

definition EncodeToString :: "string \<Rightarrow> string" where
  "EncodeToString s = map b64_char (sextets (map of_char s))"

definition DecodeString :: "string \<Rightarrow> string option" where
  "DecodeString s =
     (case b64_values s of
        None \<Rightarrow> None
      | Some ns \<Rightarrow> map_option (map char_of) (unsextets ns))"

section \<open>Round trip\<close>

lemma sextets_bound: "(\<forall>b \<in> set bs. b < 256) \<Longrightarrow> n \<in> set (sextets bs) \<Longrightarrow> n < 64"
  by (induction bs rule: sextets.induct) (auto simp: less_mult_imp_div_less)

lemma unsextets_sextets: "(\<forall>b \<in> set bs. b < 256) \<Longrightarrow> unsextets (sextets bs) = Some bs"
proof (induction bs rule: sextets.induct)
  case (4 a b c bs)
  have a: "a div 4 * 4 + a mod 4 = a" and b: "b div 16 * 16 + b mod 16 = b" and c: "c div 64 * 64 + c mod 64 = c"
    by (rule div_mult_mod_eq)+
  have "b div 16 < 16" "c div 64 < 4" "(b mod 16) * 4 + c div 64 < 64"
    using 4 by (auto simp: less_mult_imp_div_less)
  then have "((a mod 4) * 16 + b div 16) div 16 = a mod 4" "((a mod 4) * 16 + b div 16) mod 16 = b div 16"
    "((b mod 16) * 4 + c div 64) div 4 = b mod 16" "((b mod 16) * 4 + c div 64) mod 4 = c div 64"
    by simp_all
  then show ?case using 4 a b c by simp
next
  case (3 a b)
  have a: "a div 4 * 4 + a mod 4 = a" and b: "b div 16 * 16 + b mod 16 = b"
    by (rule div_mult_mod_eq)+
  have "b div 16 < 16" using 3 by (auto simp: less_mult_imp_div_less)
  then have "((a mod 4) * 16 + b div 16) div 16 = a mod 4" "((a mod 4) * 16 + b div 16) mod 16 = b div 16"
    by simp_all
  then show ?case using a b by simp
qed auto

lemma b64_value_char:
  assumes "n < 64"
  shows "b64_value (b64_char n) = Some n" and "b64_char n \<noteq> CHR 0x0A" and "b64_char n \<noteq> CHR 0x0D"
    and "b64_char n \<noteq> CHR ''.''"
proof -
  have of: "of_char (char_of k :: char) = k" if "k < 256" for k :: nat
    using that by (simp add: of_char_of)
  have dash: "of_char CHR ''-'' = (45 :: nat)" and us: "of_char CHR ''_'' = (95 :: nat)" by simp_all
  have v: "of_char (b64_char n) = (if n < 26 then 65 + n else if n < 52 then 71 + n else if n < 62 then n - 4
      else if n = 62 then 45 else (95 :: nat))"
    using assms by (simp add: b64_char_def of dash us)
  show "b64_value (b64_char n) = Some n"
    unfolding b64_value_def Let_def v using assms by auto
  have neq: "c \<noteq> b64_char n" if "of_char c \<in> {10, 13, 46 :: nat}" for c
    using that assms v by (auto split: if_splits)
  show "b64_char n \<noteq> CHR 0x0A" and "b64_char n \<noteq> CHR 0x0D" and "b64_char n \<noteq> CHR ''.''"
    using neq [of "CHR 0x0A"] neq [of "CHR 0x0D"] neq [of "CHR ''.''"] by auto
qed

lemma b64_values_chars: "(\<forall>n \<in> set ns. n < 64) \<Longrightarrow> b64_values (map b64_char ns) = Some ns"
  by (induction ns) (auto simp: b64_value_char)

lemma DecodeString_EncodeToString [simp]: "DecodeString (EncodeToString s) = Some s"
proof -
  have "\<forall>b \<in> set (map of_char s). b < (256 :: nat)" by auto
  from unsextets_sextets [OF this] sextets_bound [OF this] show ?thesis
    by (simp add: DecodeString_def EncodeToString_def b64_values_chars comp_def)
qed

lemma EncodeToString_no_dot [simp]: "CHR ''.'' \<notin> set (EncodeToString s)"
proof
  assume "CHR ''.'' \<in> set (EncodeToString s)"
  then obtain n where "n \<in> set (sextets (map of_char s))" "b64_char n = CHR ''.''"
    by (auto simp: EncodeToString_def)
  moreover have "\<forall>b \<in> set (map of_char s). b < (256 :: nat)" by auto
  ultimately show False using sextets_bound b64_value_char(4) by blast
qed

lemma length_sextets: "length (sextets bs) = (4 * length bs + 2) div 3"
  by (induction bs rule: sextets.induct) auto

lemma length_EncodeToString: "length (EncodeToString s) = (4 * length s + 2) div 3"
  by (simp add: EncodeToString_def length_sextets)

lemma EncodeToString_Nil_iff [simp]: "EncodeToString s = [] \<longleftrightarrow> s = []"
  by (metis DecodeString_EncodeToString EncodeToString_def list.simps(8) option.inject sextets.simps(1))

end
