(* ===== verification/Secret.thy ===== *)
theory Secret
  imports Go_Prelude
begin

text \<open>
  Secrets in memory: \<^verbatim>\<open>core/secret/secret.go\<close>.

  A secret is its buffer of bytes, \<^const>\<open>None\<close> for a nil or uninitialised receiver.  \<^verbatim>\<open>Use\<close> hands a
  callback a copy of the bytes; here it is the value the callback computes from them.  Result:
  the comparison in constant time, which folds byte differences and the difference of the lengths
  into one machine word, decides equality.
\<close>

unbundle bit_operations_syntax

type_synonym byte = "8 word"

record secret_rec =
  sbuf :: "byte list"

type_synonym secret = "secret_rec option"

definition sec_New :: "byte list \<Rightarrow> secret" where
  "sec_New b = Some \<lparr>sbuf = b\<rparr>"

definition sec_NewFromString :: "string \<Rightarrow> secret" where
  "sec_NewFromString str = Some \<lparr>sbuf = map of_char str\<rparr>"

definition sec_Reveal :: "secret \<Rightarrow> byte list" where
  "sec_Reveal s = (case s of None \<Rightarrow> [] | Some i \<Rightarrow> sbuf i)"

definition sec_RevealString :: "secret \<Rightarrow> string" where
  "sec_RevealString s = (case s of None \<Rightarrow> [] | Some i \<Rightarrow> map (\<lambda>b. char_of (unat b)) (sbuf i))"

definition sec_Clone :: "secret \<Rightarrow> secret" where
  "sec_Clone s = (case s of None \<Rightarrow> sec_New [] | Some i \<Rightarrow> Some \<lparr>sbuf = sbuf i\<rparr>)"

definition sec_IsEmpty :: "secret \<Rightarrow> bool" where
  "sec_IsEmpty s = (case s of None \<Rightarrow> True | Some i \<Rightarrow> length (sbuf i) = 0)"

definition sec_Use :: "secret \<Rightarrow> (byte list \<Rightarrow> 'a) \<Rightarrow> 'a" where
  "sec_Use s fn = (case s of None \<Rightarrow> fn [] | Some i \<Rightarrow> fn (sbuf i))"

definition sec_Zero :: "secret \<Rightarrow> secret" where
  "sec_Zero s = (case s of None \<Rightarrow> None | Some i \<Rightarrow> Some (i\<lparr>sbuf := []\<rparr>))"

text \<open>The byte at an index, zero past the end, and the loop from index \<open>i\<close> for \<open>n\<close> more rounds.\<close>

definition byte_at :: "byte list \<Rightarrow> nat \<Rightarrow> byte" where
  "byte_at a i = (if i < length a then a ! i else 0)"

fun fold_diff :: "byte list \<Rightarrow> byte list \<Rightarrow> nat \<Rightarrow> nat \<Rightarrow> 64 word \<Rightarrow> 64 word" where
  "fold_diff a b i 0 v = v"
| "fold_diff a b i (Suc n) v = fold_diff a b (Suc i) n (v OR ucast (byte_at a i XOR byte_at b i))"

definition constantTimeEqual :: "byte list \<Rightarrow> byte list \<Rightarrow> bool" where
  "constantTimeEqual a b =
     (let maxLen = (if length b > length a then length b else length a);
          v = fold_diff a b 0 maxLen 0;
          v' = v OR (word_of_nat (length a) XOR word_of_nat (length b))
      in v' = 0)"

definition sec_Equal :: "secret \<Rightarrow> secret \<Rightarrow> bool" where
  "sec_Equal s other = constantTimeEqual (sec_Reveal s) (sec_Reveal other)"

section \<open>The comparison\<close>

lemma or_word_eq_0: "(x OR y = (0 :: 'a :: len word)) \<longleftrightarrow> x = 0 \<and> y = 0"
  by (auto simp: bit_eq_iff bit_or_iff)

lemma xor_word_eq_0: "(x XOR y = (0 :: 'a :: len word)) \<longleftrightarrow> x = y"
  by (auto simp: bit_eq_iff bit_xor_iff)

lemma ucast_byte_eq_0: "(ucast (x :: byte) = (0 :: 64 word)) \<longleftrightarrow> x = 0"
proof -
  have "unat x < 2 ^ 64" using unsigned_less [of x, where ?'a = nat] by simp
  then have "unat (ucast x :: 64 word) = unat x" by (simp add: unsigned_ucast_eq take_bit_nat_eq_self)
  then show ?thesis by (metis unat_eq_zero)
qed

lemma fold_diff_eq_0:
  "fold_diff a b i n v = 0 \<longleftrightarrow> v = 0 \<and> (\<forall>j < n. byte_at a (i + j) = byte_at b (i + j))"
proof (induction n arbitrary: i v)
  case (Suc n)
  have "(\<forall>j < Suc n. byte_at a (i + j) = byte_at b (i + j)) \<longleftrightarrow>
      byte_at a i = byte_at b i \<and> (\<forall>j < n. byte_at a (Suc i + j) = byte_at b (Suc i + j))"
    by (auto simp: less_Suc_eq_0_disj)
  then show ?case
    using Suc by (auto simp: or_word_eq_0 xor_word_eq_0 ucast_byte_eq_0)
qed simp

text \<open>
  Property C29.  Comparing secrets in constant time decides equality: for buffers of any lengths
  below \<^term>\<open>2 ^ 64\<close> the folded word is zero exactly if the buffers are the same, also when one is
  the other extended by zero bytes or when the lengths differ by a multiple of 256.
\<close>

theorem constantTimeEqual_iff:
  assumes "length a < 2 ^ 64" and "length b < 2 ^ 64"
  shows "constantTimeEqual a b \<longleftrightarrow> a = b"
proof -
  have "(word_of_nat (length a) = (word_of_nat (length b) :: 64 word)) \<longleftrightarrow> length a = length b"
  proof -
    have "unat (word_of_nat (length xs) :: 64 word) = length xs" if "length xs < 2 ^ 64" for xs :: "byte list"
      using that by (simp add: unat_of_nat)
    then show ?thesis using assms by metis
  qed
  then have "constantTimeEqual a b \<longleftrightarrow>
      length a = length b \<and> (\<forall>j < length a. byte_at a j = byte_at b j)"
    by (auto simp: constantTimeEqual_def Let_def or_word_eq_0 xor_word_eq_0 fold_diff_eq_0)
  also have "\<dots> \<longleftrightarrow> a = b"
    by (auto simp: byte_at_def list_eq_iff_nth_eq)
  finally show ?thesis .
qed

theorem constantTimeEqual_iff_witness:
  "\<not> constantTimeEqual [1, 2] [1, 2, 0] \<and> constantTimeEqual [7, 8] [7, 8]"
  using constantTimeEqual_iff [of "[1, 2]" "[1, 2, 0]"] constantTimeEqual_iff [of "[7, 8]" "[7, 8]"] by simp

end
