(* ===== verification/Cursors.thy ===== *)
theory Cursors
  imports Go_Base64 Secret
begin

text \<open>
  Signed page cursors: \<^verbatim>\<open>data/approval/cursor.go\<close>, \<^verbatim>\<open>data/actionlog/cursor.go\<close>,
  \<^verbatim>\<open>observability/auditlog/cursor.go\<close> and the signer of \<^verbatim>\<open>httpx/pagination/cursor.go\<close>.

  All four write \<^verbatim>\<open>base64url(payload) "." base64url(mac)\<close> and differ in what the payload is and in
  what is fed to the MAC.  HMAC-SHA256 is the argument \<open>hmac\<close> (key, message); the RFC 3339 form of a
  time and its parser are the arguments \<open>fmtTime\<close> and \<open>parseTime\<close>.  Results: cursors round-trip,
  an accepted cursor carries the MAC of its payload under the signer's key, a rotated key still
  verifies old cursors, and which contexts of the pagination signer are separated.
\<close>

type_synonym mac_fn = "byte list \<Rightarrow> string \<Rightarrow> string"

section \<open>The wire form\<close>

text \<open>The parts before and after the first occurrence of a byte (\<^verbatim>\<open>strings.IndexByte\<close>).\<close>

definition split_byte :: "char \<Rightarrow> string \<Rightarrow> (string \<times> string) option" where
  "split_byte c s =
     (if c \<in> set s then Some (takeWhile (\<lambda>x. x \<noteq> c) s, tl (dropWhile (\<lambda>x. x \<noteq> c) s)) else None)"

definition signed_form :: "string \<Rightarrow> string \<Rightarrow> string" where
  "signed_form payload mac = EncodeToString payload @ ''.'' @ EncodeToString mac"

definition open_form :: "string \<Rightarrow> (string \<times> string) option" where
  "open_form cursor =
     (case split_byte CHR ''.'' cursor of
        None \<Rightarrow> None
      | Some (a, b) \<Rightarrow>
          (case DecodeString a of
             None \<Rightarrow> None
           | Some payload \<Rightarrow> map_option (Pair payload) (DecodeString b)))"

definition cursor_max :: nat where
  "cursor_max = 4096"

section \<open>The keyset cursors of approvals and of the action log\<close>

record cursor_signer =
  cs_key :: secret
  cs_keyLen :: nat

definition apc_MinKey :: nat where
  "apc_MinKey = 32"

definition apc_NewCursorSigner :: "byte list \<Rightarrow> cursor_signer option" where
  "apc_NewCursorSigner key =
     (if length key < apc_MinKey then None else Some \<lparr>cs_key = sec_New key, cs_keyLen = length key\<rparr>)"

definition apc_Close :: "cursor_signer option \<Rightarrow> cursor_signer option" where
  "apc_Close s = map_option (\<lambda>x. x\<lparr>cs_key := sec_Zero (cs_key x)\<rparr>) s"

text \<open>The body the two packages share; \<open>domain\<close> is what is written to the MAC before the payload.\<close>

definition keyset_encode ::
    "mac_fn \<Rightarrow> (time \<Rightarrow> string) \<Rightarrow> string \<Rightarrow> cursor_signer option \<Rightarrow> time \<Rightarrow> string \<Rightarrow> string" where
  "keyset_encode hmac fmtTime domain s createdAt cid =
     (case s of
        None \<Rightarrow> []
      | Some x \<Rightarrow>
          if cid = [] then []
          else
            let payload = fmtTime createdAt @ ''|'' @ cid
            in signed_form payload (sec_Use (cs_key x) (\<lambda>k. hmac k (domain @ payload))))"

definition keyset_decode ::
    "mac_fn \<Rightarrow> (string \<Rightarrow> time option) \<Rightarrow> string \<Rightarrow> cursor_signer option \<Rightarrow> string \<Rightarrow> (time \<times> string) option" where
  "keyset_decode hmac parseTime domain s cursor =
     (if cursor = [] then Some (zero_time, [])
      else case s of
        None \<Rightarrow> None
      | Some x \<Rightarrow>
          if cs_keyLen x = 0 \<or> sec_IsEmpty (cs_key x) then None
          else if length cursor > cursor_max then None
          else (case open_form cursor of
            None \<Rightarrow> None
          | Some (payload, sig) \<Rightarrow>
              if sec_Use (cs_key x) (\<lambda>k. sig \<noteq> hmac k (domain @ payload)) then None
              else (case split_byte CHR ''|'' payload of
                None \<Rightarrow> None
              | Some (ts, cid) \<Rightarrow>
                  if ts = [] \<or> cid = [] then None
                  else map_option (\<lambda>t. (t, cid)) (parseTime ts))))"

definition apc_Encode ::
    "mac_fn \<Rightarrow> (time \<Rightarrow> string) \<Rightarrow> cursor_signer option \<Rightarrow> time \<Rightarrow> string \<Rightarrow> string" where
  "apc_Encode hmac fmtTime s createdAt cid = keyset_encode hmac fmtTime [] s createdAt cid"

definition apc_Decode ::
    "mac_fn \<Rightarrow> (string \<Rightarrow> time option) \<Rightarrow> cursor_signer option \<Rightarrow> string \<Rightarrow> (time \<times> string) option" where
  "apc_Decode hmac parseTime s cursor = keyset_decode hmac parseTime [] s cursor"

definition cursorMACDomain :: string where
  "cursorMACDomain = ''actionlog-cursor:v1'' @ [CHR 0x00]"

definition alc_Encode ::
    "mac_fn \<Rightarrow> (time \<Rightarrow> string) \<Rightarrow> cursor_signer option \<Rightarrow> time \<Rightarrow> string \<Rightarrow> string" where
  "alc_Encode hmac fmtTime s occurredAt cid = keyset_encode hmac fmtTime cursorMACDomain s occurredAt cid"

definition alc_Decode ::
    "mac_fn \<Rightarrow> (string \<Rightarrow> time option) \<Rightarrow> cursor_signer option \<Rightarrow> string \<Rightarrow> (time \<times> string) option" where
  "alc_Decode hmac parseTime s cursor = keyset_decode hmac parseTime cursorMACDomain s cursor"

section \<open>The cursor of the audit log, with key rotation\<close>

record signedCursor =
  sc_key :: secret
  sc_keyLen :: nat
  sc_older :: "secret list"

definition encodeCursor :: "mac_fn \<Rightarrow> signedCursor \<Rightarrow> string \<Rightarrow> string" where
  "encodeCursor hmac s payload =
     (if payload = [] \<or> sc_keyLen s = 0 \<or> sec_IsEmpty (sc_key s) then []
      else signed_form payload (sec_Use (sc_key s) (\<lambda>k. hmac k payload)))"

definition decodeCursor :: "mac_fn \<Rightarrow> signedCursor \<Rightarrow> string \<Rightarrow> string option" where
  "decodeCursor hmac s cursor =
     (if cursor = [] then Some []
      else if sc_keyLen s = 0 \<or> sec_IsEmpty (sc_key s) then None
      else if length cursor > cursor_max then None
      else (case open_form cursor of
        None \<Rightarrow> None
      | Some (payload, sig) \<Rightarrow>
          if list_ex (\<lambda>key. sec_Use key (\<lambda>k. length k > 0 \<and> sig = hmac k payload)) (sc_key s # sc_older s)
          then Some payload else None))"

section \<open>The pagination signer, with a context\<close>

record page_signer =
  ps_secret :: secret
  ps_secretLen :: nat
  ps_context :: string
  ps_closed :: bool

definition ps_MinSecret :: nat where
  "ps_MinSecret = 32"

definition ps_New :: "byte list \<Rightarrow> string \<Rightarrow> page_signer option" where
  "ps_New s context =
     (if length s < ps_MinSecret then None
      else Some \<lparr>ps_secret = sec_New s, ps_secretLen = length s, ps_context = context, ps_closed = False\<rparr>)"

definition ps_ready :: "page_signer option \<Rightarrow> bool" where
  "ps_ready s = (case s of None \<Rightarrow> False
     | Some x \<Rightarrow> \<not> ps_closed x \<and> ps_secretLen x \<ge> ps_MinSecret \<and> \<not> sec_IsEmpty (ps_secret x))"

definition ps_Close :: "page_signer option \<Rightarrow> page_signer option" where
  "ps_Close s = map_option (\<lambda>x.
     if ps_closed x then x else x\<lparr>ps_closed := True, ps_secret := sec_Zero (ps_secret x)\<rparr>) s"

text \<open>\<^verbatim>\<open>binary.BigEndian.PutUint64\<close>\<close>

definition be64 :: "nat \<Rightarrow> string" where
  "be64 n = map (\<lambda>i. char_of (n div 256 ^ i)) (rev [0..<8])"

definition writeMACInput :: "string \<Rightarrow> string \<Rightarrow> string" where
  "writeMACInput context payload =
     (if context \<noteq> [] then be64 (length context) @ context else []) @ payload"

definition ps_Encode :: "mac_fn \<Rightarrow> page_signer option \<Rightarrow> string \<Rightarrow> string" where
  "ps_Encode hmac s payload =
     (if payload = [] \<or> \<not> ps_ready s then []
      else case s of
        None \<Rightarrow> []
      | Some x \<Rightarrow>
          let sum = sec_Use (ps_secret x) (\<lambda>k. if length k = 0 then [] else hmac k (writeMACInput (ps_context x) payload))
          in if sum = [] then [] else signed_form payload sum)"

definition ps_Decode :: "mac_fn \<Rightarrow> page_signer option \<Rightarrow> string \<Rightarrow> string option" where
  "ps_Decode hmac s cursor =
     (if cursor = [] then Some []
      else if \<not> ps_ready s then None
      else if length cursor > cursor_max then None
      else case s of
        None \<Rightarrow> None
      | Some x \<Rightarrow>
          (case open_form cursor of
             None \<Rightarrow> None
           | Some (payload, sig) \<Rightarrow>
               if sec_Use (ps_secret x) (\<lambda>k. sig = hmac k (writeMACInput (ps_context x) payload))
               then Some payload else None))"

section \<open>Facts\<close>

lemma sec_Use_eq: "sec_Use s f = f (sec_Reveal s)"
  by (auto simp: sec_Use_def sec_Reveal_def split: option.split)

lemma sec_IsEmpty_eq: "sec_IsEmpty s \<longleftrightarrow> sec_Reveal s = []"
  by (auto simp: sec_IsEmpty_def sec_Reveal_def split: option.split)

lemma split_byte_append [simp]: "c \<notin> set a \<Longrightarrow> split_byte c (a @ c # b) = Some (a, b)"
  by (simp add: split_byte_def takeWhile_append dropWhile_append)

lemma split_byte_Some: "split_byte c s = Some (a, b) \<Longrightarrow> s = a @ c # b \<and> c \<notin> set a"
proof -
  assume "split_byte c s = Some (a, b)"
  then have c: "c \<in> set s" and a: "a = takeWhile (\<lambda>x. x \<noteq> c) s" and b: "b = tl (dropWhile (\<lambda>x. x \<noteq> c) s)"
    by (auto simp: split_byte_def split: if_splits)
  have "dropWhile (\<lambda>x. x \<noteq> c) s \<noteq> []" using c by (auto simp: dropWhile_eq_Nil_conv)
  then have "dropWhile (\<lambda>x. x \<noteq> c) s = c # b"
    using b hd_dropWhile [of "\<lambda>x. x \<noteq> c" s] by (metis list.collapse)
  then show ?thesis using a by (metis takeWhile_dropWhile_id set_takeWhileD)
qed

lemma open_signed_form [simp]: "open_form (signed_form payload mac) = Some (payload, mac)"
  by (simp add: open_form_def signed_form_def)

lemma signed_form_not_Nil [simp]: "signed_form payload mac \<noteq> []"
  by (simp add: signed_form_def)

lemma length_be64 [simp]: "length (be64 n) = 8"
  by (simp add: be64_def)

lemma be64_inj:
  assumes "m < 2 ^ 64" and "n < 2 ^ 64" and "be64 m = be64 n"
  shows "m = n"
proof -
  have digit: "m div 256 ^ i mod 256 = n div 256 ^ i mod 256" if "i < 8" for i
  proof -
    have "char_of (m div 256 ^ i) = (char_of (n div 256 ^ i) :: char)"
      using assms(3) that by (simp add: be64_def rev_map [symmetric])
    then show ?thesis by (metis of_char_of)
  qed
  have eq: "m mod 256 ^ k = n mod 256 ^ k" if "k \<le> 8" for k
    using that
  proof (induction k)
    case (Suc k)
    have "x mod 256 ^ Suc k = x div 256 ^ k mod 256 * 256 ^ k + x mod 256 ^ k" for x :: nat
      by (metis mod_mult2_eq mult.commute power_Suc)
    then show ?case using Suc digit [of k] by simp
  qed simp
  have "(2 :: nat) ^ 64 = 256 ^ 8" by simp
  then show ?thesis using eq [of 8] assms(1,2) by (metis mod_less order_refl)
qed

section \<open>Properties\<close>

text \<open>
  Property C31.  Cursors of the pagination signer round-trip up to the length cap and cannot be forged
  without the MAC.  For a ready signer whose MAC is never empty, decoding the cursor of a non-empty payload
  gives the payload back if the cursor has at most \<^verbatim>\<open>MaxCursorLen\<close> bytes; a longer one, which \<^verbatim>\<open>Encode\<close> issues all the
  same, is refused.  And whatever non-empty cursor is accepted, it opens to the
  returned payload together with the MAC of that payload, under the signer's own key and context.
\<close>

theorem ps_cursor_authentic:
  assumes "ps_ready (Some x)" and "\<forall>k s. hmac k s \<noteq> []"
  shows "(payload \<noteq> [] \<longrightarrow> ps_Encode hmac (Some x) payload \<noteq> [] \<and>
            ps_Decode hmac (Some x) (ps_Encode hmac (Some x) payload) =
              (if length (ps_Encode hmac (Some x) payload) \<le> cursor_max then Some payload else None))
       \<and> (cursor \<noteq> [] \<and> ps_Decode hmac (Some x) cursor = Some payload \<longrightarrow>
            open_form cursor =
              Some (payload, hmac (sec_Reveal (ps_secret x)) (writeMACInput (ps_context x) payload)))"
proof -
  have "sec_Reveal (ps_secret x) \<noteq> []"
    using assms(1) by (simp add: ps_ready_def sec_IsEmpty_eq)
  then show ?thesis
    using assms by (auto simp: ps_Decode_def ps_Encode_def sec_Use_eq Let_def split: if_splits option.splits)
qed

definition ps_ex :: "string \<Rightarrow> page_signer" where
  "ps_ex context = \<lparr>ps_secret = sec_New (replicate 32 7), ps_secretLen = 32, ps_context = context, ps_closed = False\<rparr>"

lemma ps_ex_ready: "ps_ready (Some (ps_ex context))"
  by (simp add: ps_ready_def ps_ex_def ps_MinSecret_def sec_IsEmpty_def sec_New_def)

text \<open>A stand-in for the MAC: it keeps the message and marks it.\<close>

definition toy_mac :: mac_fn where
  "toy_mac k s = CHR ''m'' # s"

theorem ps_cursor_authentic_witness:
  "ps_Decode toy_mac (Some (ps_ex ''users'')) (ps_Encode toy_mac (Some (ps_ex ''users'')) ''id-1'') = Some ''id-1''"
proof -
  have "length (ps_Encode toy_mac (Some (ps_ex ''users'')) ''id-1'') \<le> cursor_max"
    by (simp add: ps_Encode_def ps_ex_ready) (simp add: ps_ex_def sec_Use_eq sec_New_def sec_Reveal_def toy_mac_def
        signed_form_def length_EncodeToString writeMACInput_def cursor_max_def Let_def)
  then show ?thesis
    using ps_cursor_authentic [OF ps_ex_ready, of toy_mac "''id-1''" "''users''"] by (simp add: toy_mac_def)
qed

text \<open>
  Contexts of the pagination signer are separated.  Two signers with non-empty
  contexts feed the same bytes to the MAC only for the same context and the same payload, so a
  cursor of one endpoint does not verify at another.  A signer without a context is not separated
  from the others: for every context and payload there is a payload of the unscoped signer that
  feeds the same bytes.
\<close>

lemma writeMACInput_separates:
  assumes "length c < 2 ^ 64" and "length c' < 2 ^ 64" and "c \<noteq> []"
  shows "(c' \<noteq> [] \<and> writeMACInput c p = writeMACInput c' p' \<longrightarrow> c = c' \<and> p = p')
       \<and> (\<exists>q. writeMACInput [] q = writeMACInput c p)"
proof -
  have "c = c' \<and> p = p'" if "c' \<noteq> []" "writeMACInput c p = writeMACInput c' p'"
  proof -
    have eq: "be64 (length c) @ (c @ p) = be64 (length c') @ (c' @ p')"
      using that assms(3) by (simp add: writeMACInput_def)
    then have "be64 (length c) = be64 (length c') \<and> c @ p = c' @ p'"
      by (subst (asm) append_eq_append_conv) simp_all
    moreover from this have "length c = length c'" using be64_inj assms(1,2) by blast
    ultimately show ?thesis by simp
  qed
  then show ?thesis by (auto simp: writeMACInput_def)
qed

lemma writeMACInput_separates_example:
  "writeMACInput ''users'' ''1'' \<noteq> writeMACInput ''orders'' ''1''"
  using writeMACInput_separates [of "''users''" "''orders''" "''1''" "''1''"] by simp

section \<open>Round trips of the other cursors\<close>

lemma keyset_roundtrip:
  assumes "sec_Reveal (cs_key x) \<noteq> []" and "cs_keyLen x \<noteq> 0" and "cid \<noteq> []"
    and "fmtTime t \<noteq> []" and "CHR ''|'' \<notin> set (fmtTime t)" and "parseTime (fmtTime t) = Some t"
    and "length (keyset_encode hmac fmtTime domain (Some x) t cid) \<le> cursor_max"
  shows "keyset_decode hmac parseTime domain (Some x) (keyset_encode hmac fmtTime domain (Some x) t cid) = Some (t, cid)"
  using assms by (auto simp: keyset_decode_def keyset_encode_def sec_Use_eq sec_IsEmpty_eq Let_def)

text \<open>A cursor that is accepted carries the MAC of its payload, after the package's domain.\<close>

lemma keyset_authentic:
  assumes "cursor \<noteq> []" and "keyset_decode hmac parseTime domain (Some x) cursor = Some (t, cid)"
  shows "\<exists>ts. open_form cursor = Some (ts @ ''|'' @ cid, hmac (sec_Reveal (cs_key x)) (domain @ ts @ ''|'' @ cid)) \<and>
    parseTime ts = Some t \<and> cid \<noteq> []"
proof -
  obtain payload ts where "open_form cursor = Some (payload, hmac (sec_Reveal (cs_key x)) (domain @ payload))"
    "split_byte CHR ''|'' payload = Some (ts, cid)" "parseTime ts = Some t" "cid \<noteq> []"
    using assms by (auto simp: keyset_decode_def sec_Use_eq split: if_splits option.splits)
  then show ?thesis using split_byte_Some by fastforce
qed

text \<open>A cursor issued before a key rotation is accepted after it.\<close>

lemma auditlog_rotation:
  assumes "\<not> sec_IsEmpty (sc_key old)" and "sc_keyLen old \<noteq> 0" and "payload \<noteq> []"
    and "sc_key old \<in> set (sc_key new # sc_older new)" and "\<not> sec_IsEmpty (sc_key new)" and "sc_keyLen new \<noteq> 0"
    and "length (encodeCursor hmac old payload) \<le> cursor_max"
  shows "decodeCursor hmac new (encodeCursor hmac old payload) = Some payload"
proof -
  have "list_ex (\<lambda>key. sec_Use key (\<lambda>k. length k > 0 \<and> hmac (sec_Reveal (sc_key old)) payload = hmac k payload))
      (sc_key new # sc_older new)"
    unfolding list_ex_iff using assms(1,4) by (intro bexI [of _ "sc_key old"]) (auto simp: sec_Use_eq sec_IsEmpty_eq)
  then show ?thesis
    using assms by (simp add: decodeCursor_def encodeCursor_def sec_Use_eq)
qed

end
