(* ===== verification/Approval.thy ===== *)
theory Approval
  imports Core_Tenant Cursors "HOL-Library.List_Lexorder" "HOL-Library.Product_Lexorder"
begin

text \<open>
  Human approval of destructive operations: \<^verbatim>\<open>data/approval/approval.go\<close>, the memory store
  \<^verbatim>\<open>data/approval/memory/memory.go\<close> and the tenant wrapper \<^verbatim>\<open>data/approval/tenantstore.go\<close>.

  The store is the map of requests; every operation runs under its mutex and is one step.  The
  clock is a function of the reading within the call, \<^verbatim>\<open>json.Valid\<close> is the argument \<open>json_valid\<close>, and
  the cursor codec of \<^verbatim>\<open>List\<close> is given by its encoder and decoder (theory \<open>Cursors\<close>).  Contexts are
  not nil.

  Results: a request only moves along the documented transitions and what was decided about it
  never changes; what is executed was approved, in time, by the recorded decider.  What listing
  and the tenant wrapper show is in theory \<open>Approval_Views\<close>.
\<close>

section \<open>The contract package\<close>

datatype apv_error =
    ApNotFound | ApInvalidTransition | ApInvalidRequest | ApInvalidApprover | ApInvalidReason
  | ApInvalidStore | ApDuplicateID | ApQueryTenantRequired | ApQueryScopeConflict
  | ApLimitTooLarge | ApLimitNegative | ApInvalidCursor | ApCtx ctx_error

definition apv_MaxIDLen :: nat where "apv_MaxIDLen = 36"
definition apv_MaxPayloadSize :: nat where "apv_MaxPayloadSize = 64 * 1024"
definition apv_MaxTenantIDLen :: nat where "apv_MaxTenantIDLen = 255"
definition apv_MaxActorLen :: nat where "apv_MaxActorLen = 255"
definition apv_MaxActionLen :: nat where "apv_MaxActionLen = 255"
definition apv_MaxResourceLen :: nat where "apv_MaxResourceLen = 500"
definition apv_MaxReasonLen :: nat where "apv_MaxReasonLen = 4096"
definition apv_MaxPageLimit :: int where "apv_MaxPageLimit = 10000"

definition apv_Pending :: string where "apv_Pending = ''pending''"
definition apv_Approved :: string where "apv_Approved = ''approved''"
definition apv_Rejected :: string where "apv_Rejected = ''rejected''"
definition apv_Executed :: string where "apv_Executed = ''executed''"
definition apv_Expired :: string where "apv_Expired = ''expired''"

lemmas apv_state_defs = apv_Pending_def apv_Approved_def apv_Rejected_def apv_Executed_def apv_Expired_def

record request =
  rqID :: string
  rqTenantID :: string
  rqActor :: string
  rqAction :: string
  rqResource :: string
  rqPayload :: string
  rqState :: string
  rqDecidedBy :: string
  rqDecidedAt :: time
  rqReason :: string
  rqCreatedAt :: time
  rqExpiresAt :: time

definition apv_IsTerminal :: "string \<Rightarrow> bool" where
  "apv_IsTerminal s \<longleftrightarrow> s = apv_Executed \<or> s = apv_Expired"

record query =
  qTenantID :: string
  qAllTenants :: bool
  qActor :: string
  qAction :: string
  qState :: string
  qSince :: time
  qUntil :: time
  qLimit :: int
  qCursor :: string

definition apv_QueryValidate :: "query \<Rightarrow> apv_error option" where
  "apv_QueryValidate q =
     (if qTenantID q \<noteq> [] \<and> qAllTenants q then Some ApQueryScopeConflict
      else if qTenantID q = [] \<and> \<not> qAllTenants q then Some ApQueryTenantRequired
      else if qLimit q < 0 then Some ApLimitNegative
      else if qLimit q > apv_MaxPageLimit then Some ApLimitTooLarge
      else None)"

definition validTenantID :: "string \<Rightarrow> bool" where
  "validTenantID s \<longleftrightarrow> length s \<le> apv_MaxTenantIDLen \<and> ValidateID s = None"

definition has_rune :: "(rune \<Rightarrow> bool) \<Rightarrow> string \<Rightarrow> bool" where
  "has_rune P s = (case runes s of None \<Rightarrow> False | Some rs \<Rightarrow> list_ex P rs)"

definition validTextField :: "string \<Rightarrow> nat \<Rightarrow> bool \<Rightarrow> bool" where
  "validTextField s maxLen required =
     (if s = [] then \<not> required
      else if length s > maxLen \<or> \<not> valid_string s then False
      else \<not> has_rune (\<lambda>r. is_control r \<or> is_space r) s)"

definition validLineField :: "string \<Rightarrow> nat \<Rightarrow> bool \<Rightarrow> bool" where
  "validLineField s maxLen required =
     (if s = [] then \<not> required
      else if length s > maxLen \<or> \<not> valid_string s then False
      else \<not> has_rune is_control s)"

definition validReason :: "string \<Rightarrow> bool" where
  "validReason reason =
     (if length reason > apv_MaxReasonLen \<or> \<not> valid_string reason then False
      else \<not> has_rune is_control reason)"

text \<open>The pattern \<^verbatim>\<open>^[A-Za-z0-9_-]+$\<close>\<close>

definition id_char :: "char \<Rightarrow> bool" where
  "id_char c =
     (let n = (of_char c :: nat)
      in (65 \<le> n \<and> n \<le> 90) \<or> (97 \<le> n \<and> n \<le> 122) \<or> (48 \<le> n \<and> n \<le> 57) \<or> c = CHR ''_'' \<or> c = CHR ''-'')"

definition requestIDPattern :: "string \<Rightarrow> bool" where
  "requestIDPattern s \<longleftrightarrow> s \<noteq> [] \<and> list_all id_char s"

definition ValidateForCreate :: "(string \<Rightarrow> bool) \<Rightarrow> request \<Rightarrow> time \<Rightarrow> apv_error option" where
  "ValidateForCreate json_valid r now =
     (if \<not> validTenantID (rqTenantID r) \<or> \<not> validTextField (rqActor r) apv_MaxActorLen True
         \<or> \<not> validLineField (rqAction r) apv_MaxActionLen True
         \<or> \<not> validTextField (rqResource r) apv_MaxResourceLen False
         \<or> \<not> validReason (rqReason r) then Some ApInvalidRequest
      else if length (rqID r) > apv_MaxIDLen \<or> \<not> requestIDPattern (rqID r) then Some ApInvalidRequest
      else if length (rqPayload r) > apv_MaxPayloadSize then Some ApInvalidRequest
      else if length (rqPayload r) > 0 \<and> \<not> json_valid (rqPayload r) then Some ApInvalidRequest
      else if rqState r \<noteq> [] \<and> rqState r \<noteq> apv_Pending then Some ApInvalidRequest
      else if rqDecidedBy r \<noteq> [] \<or> \<not> is_zero (rqDecidedAt r) then Some ApInvalidRequest
      else if \<not> is_zero (rqCreatedAt r) \<and> rqCreatedAt r > now + 300000000000 then Some ApInvalidRequest
      else if is_zero (rqExpiresAt r) then Some ApInvalidRequest
      else if \<not> rqExpiresAt r > now then Some ApInvalidRequest
      else None)"

definition ValidateDecision :: "string \<Rightarrow> apv_error option" where
  "ValidateDecision decidedBy =
     (if validTextField decidedBy apv_MaxActorLen True then None else Some ApInvalidApprover)"

definition ValidateReason :: "string \<Rightarrow> apv_error option" where
  "ValidateReason reason = (if validReason reason then None else Some ApInvalidReason)"

section \<open>The memory store\<close>

type_synonym apv_store = "(string, request) gomap"

definition apv_defaultLimit :: int where "apv_defaultLimit = 100"
definition ctxCheckBatch :: nat where "ctxCheckBatch = 1024"

definition apv_Create ::
    "(string \<Rightarrow> bool) \<Rightarrow> ctxt \<Rightarrow> (nat \<Rightarrow> time) \<Rightarrow> request \<Rightarrow> apv_store \<Rightarrow> (apv_error + request) \<times> apv_store" where
  "apv_Create json_valid ctx clk r s =
     (case ctx_obs ctx 0 of
        Some e \<Rightarrow> (Inl (ApCtx e), s)
      | None \<Rightarrow>
          (case ValidateForCreate json_valid r (clk 0) of
             Some e \<Rightarrow> (Inl e, s)
           | None \<Rightarrow>
               (case map_of s (rqID r) of
                  Some _ \<Rightarrow> (Inl ApDuplicateID, s)
                | None \<Rightarrow>
                    let r1 = r\<lparr>rqState := apv_Pending,
                               rqCreatedAt := (if is_zero (rqCreatedAt r) then clk 1 else rqCreatedAt r)\<rparr>
                    in (Inr r1, AList.update (rqID r) r1 s))))"

definition apv_Get :: "ctxt \<Rightarrow> string \<Rightarrow> apv_store \<Rightarrow> apv_error + request" where
  "apv_Get ctx rid s =
     (case ctx_obs ctx 0 of
        Some e \<Rightarrow> Inl (ApCtx e)
      | None \<Rightarrow> (case map_of s rid of None \<Rightarrow> Inl ApNotFound | Some r \<Rightarrow> Inr r))"

definition apv_decide ::
    "ctxt \<Rightarrow> (nat \<Rightarrow> time) \<Rightarrow> string \<Rightarrow> string \<Rightarrow> string \<Rightarrow> string \<Rightarrow> bool \<Rightarrow> apv_store \<Rightarrow>
     (apv_error + request) \<times> apv_store" where
  "apv_decide ctx clk rid tenantID decidedBy reason approve s =
     (case ctx_obs ctx 0 of
        Some e \<Rightarrow> (Inl (ApCtx e), s)
      | None \<Rightarrow>
     (case ValidateDecision decidedBy of
        Some e \<Rightarrow> (Inl e, s)
      | None \<Rightarrow>
     (case ValidateReason reason of
        Some e \<Rightarrow> (Inl e, s)
      | None \<Rightarrow>
     (case map_of s rid of
        None \<Rightarrow> (Inl ApNotFound, s)
      | Some r \<Rightarrow>
          if tenantID \<noteq> [] \<and> rqTenantID r \<noteq> tenantID then (Inl ApNotFound, s)
          else
            let now = clk 0;
                target = (if approve then apv_Approved else apv_Rejected)
            in if rqState r = apv_Pending \<and> \<not> is_zero (rqExpiresAt r) \<and> \<not> now < rqExpiresAt r then
                 (Inl ApInvalidTransition,
                  AList.update rid (r\<lparr>rqState := apv_Expired, rqDecidedAt := now\<rparr>) s)
               else if rqState r = target then (Inr r, s)
               else if apv_IsTerminal (rqState r) then (Inl ApInvalidTransition, s)
               else if rqState r = apv_Approved \<or> rqState r = apv_Rejected then (Inl ApInvalidTransition, s)
               else
                 let r1 = r\<lparr>rqState := target, rqDecidedBy := decidedBy, rqReason := reason, rqDecidedAt := clk 1\<rparr>
                 in (Inr r1, AList.update rid r1 s)))))"

definition apv_Approve where
  "apv_Approve ctx clk rid decidedBy reason s = apv_decide ctx clk rid [] decidedBy reason True s"

definition apv_Reject where
  "apv_Reject ctx clk rid decidedBy reason s = apv_decide ctx clk rid [] decidedBy reason False s"

definition ApproveForTenant where
  "ApproveForTenant ctx clk tenantID rid decidedBy reason s =
     (if tenantID = [] then (Inl ApQueryTenantRequired, s)
      else apv_decide ctx clk rid tenantID decidedBy reason True s)"

definition RejectForTenant where
  "RejectForTenant ctx clk tenantID rid decidedBy reason s =
     (if tenantID = [] then (Inl ApQueryTenantRequired, s)
      else apv_decide ctx clk rid tenantID decidedBy reason False s)"

definition apv_markExecuted ::
    "ctxt \<Rightarrow> string \<Rightarrow> string \<Rightarrow> apv_store \<Rightarrow> (apv_error + request) \<times> apv_store" where
  "apv_markExecuted ctx rid tenantID s =
     (case ctx_obs ctx 0 of
        Some e \<Rightarrow> (Inl (ApCtx e), s)
      | None \<Rightarrow>
     (case map_of s rid of
        None \<Rightarrow> (Inl ApNotFound, s)
      | Some r \<Rightarrow>
          if tenantID \<noteq> [] \<and> rqTenantID r \<noteq> tenantID then (Inl ApNotFound, s)
          else if rqState r = apv_Executed then (Inr r, s)
          else if rqState r \<noteq> apv_Approved then (Inl ApInvalidTransition, s)
          else
            let r1 = r\<lparr>rqState := apv_Executed\<rparr>
            in (Inr r1, AList.update rid r1 s)))"

definition apv_MarkExecuted where
  "apv_MarkExecuted ctx rid s = apv_markExecuted ctx rid [] s"

definition MarkExecutedForTenant where
  "MarkExecutedForTenant ctx tenantID rid s =
     (if tenantID = [] then (Inl ApQueryTenantRequired, s) else apv_markExecuted ctx rid tenantID s)"

definition apv_match :: "request \<Rightarrow> query \<Rightarrow> bool" where
  "apv_match r q =
     (if qTenantID q \<noteq> [] \<and> rqTenantID r \<noteq> qTenantID q then False
      else if qActor q \<noteq> [] \<and> rqActor r \<noteq> qActor q then False
      else if qAction q \<noteq> [] \<and> rqAction r \<noteq> qAction q then False
      else if qState q \<noteq> [] \<and> rqState r \<noteq> qState q then False
      else if \<not> is_zero (qSince q) \<and> rqCreatedAt r < qSince q then False
      else if \<not> is_zero (qUntil q) \<and> rqCreatedAt r > qUntil q then False
      else True)"

text \<open>The scan of the map in the order \<open>ks\<close>, with a check of the context every 1024 entries.\<close>

fun apv_scan :: "ctxt \<Rightarrow> query \<Rightarrow> nat \<Rightarrow> string list \<Rightarrow> apv_store \<Rightarrow> apv_error + request list" where
  "apv_scan ctx q i [] s = Inr []"
| "apv_scan ctx q i (k # ks) s =
     (case (if i mod ctxCheckBatch = 0 then ctx_obs ctx (Suc (i div ctxCheckBatch)) else None) of
        Some e \<Rightarrow> Inl (ApCtx e)
      | None \<Rightarrow>
          (case apv_scan ctx q (Suc i) ks s of
             Inl e \<Rightarrow> Inl e
           | Inr rs \<Rightarrow>
               Inr (case map_of s k of
                      Some r \<Rightarrow> if apv_match r q then r # rs else rs
                    | None \<Rightarrow> rs)))"

text \<open>Newest first; strings compare byte by byte.\<close>

definition rq_key :: "request \<Rightarrow> int \<times> nat list" where
  "rq_key r = (rqCreatedAt r, map of_char (rqID r))"

definition sort_newest :: "request list \<Rightarrow> request list" where
  "sort_newest rs = rev (sort_key rq_key rs)"

definition apv_List ::
    "(time \<Rightarrow> string \<Rightarrow> string) \<Rightarrow> (string \<Rightarrow> (time \<times> string) option) \<Rightarrow> string list \<Rightarrow> ctxt \<Rightarrow> query \<Rightarrow> apv_store \<Rightarrow>
     apv_error + request list \<times> string" where
  "apv_List encode decode ks ctx q s =
     (case ctx_obs ctx 0 of
        Some e \<Rightarrow> Inl (ApCtx e)
      | None \<Rightarrow>
     (case apv_QueryValidate q of
        Some e \<Rightarrow> Inl e
      | None \<Rightarrow>
     (case decode (qCursor q) of
        None \<Rightarrow> Inl ApInvalidCursor
      | Some (cursorTime, cursorID) \<Rightarrow>
     (case apv_scan ctx q 0 ks s of
        Inl e \<Rightarrow> Inl e
      | Inr found \<Rightarrow>
          let limit = nat (if qLimit q \<le> 0 then apv_defaultLimit else qLimit q);
              sorted = sort_newest found;
              rest = (if qCursor q \<noteq> []
                      then dropWhile (\<lambda>r. \<not> (rqCreatedAt r < cursorTime \<or>
                             (rqCreatedAt r = cursorTime \<and> map of_char (rqID r) < (map of_char cursorID :: nat list)))) sorted
                      else sorted)
          in if length rest > limit
             then let last = rest ! (limit - 1)
                  in Inr (take limit rest, encode (rqCreatedAt last) (rqID last))
             else Inr (rest, [])))))"

section \<open>The tenant wrapper\<close>

definition ts_Create where
  "ts_Create json_valid tid ctx clk r s =
     (if tid = [] then (Inl ApInvalidStore, s) else apv_Create json_valid ctx clk (r\<lparr>rqTenantID := tid\<rparr>) s)"

definition ts_Get where
  "ts_Get tid ctx rid s =
     (if tid = [] then Inl ApInvalidStore
      else case apv_Get ctx rid s of
             Inl e \<Rightarrow> Inl e
           | Inr r \<Rightarrow> if rqTenantID r \<noteq> tid then Inl ApNotFound else Inr r)"

definition ts_List where
  "ts_List tid encode decode ks ctx q s =
     (if tid = [] then Inl ApInvalidStore
      else apv_List encode decode ks ctx (q\<lparr>qTenantID := tid, qAllTenants := False\<rparr>) s)"

definition ts_Approve where
  "ts_Approve tid ctx clk rid decidedBy reason s =
     (if tid = [] then (Inl ApInvalidStore, s) else ApproveForTenant ctx clk tid rid decidedBy reason s)"

definition ts_Reject where
  "ts_Reject tid ctx clk rid decidedBy reason s =
     (if tid = [] then (Inl ApInvalidStore, s) else RejectForTenant ctx clk tid rid decidedBy reason s)"

definition ts_MarkExecuted where
  "ts_MarkExecuted tid ctx rid s =
     (if tid = [] then (Inl ApInvalidStore, s) else MarkExecutedForTenant ctx tid rid s)"


section \<open>Runs\<close>

datatype apv_op =
    ACreate request
  | ADecide string string string string bool
  | AExecute string string

type_synonym apv_event = "ctxt \<times> (nat \<Rightarrow> time) \<times> apv_op"

text \<open>The request, the tenant of the call (empty for none), the decider, the reason and the verdict.\<close>

fun apv_step :: "(string \<Rightarrow> bool) \<Rightarrow> apv_event \<Rightarrow> apv_store \<Rightarrow> apv_store" where
  "apv_step jv (ctx, clk, ACreate r) s = snd (apv_Create jv ctx clk r s)"
| "apv_step jv (ctx, clk, ADecide rid tid who reason ok) s = snd (apv_decide ctx clk rid tid who reason ok s)"
| "apv_step jv (ctx, clk, AExecute rid tid) s = snd (apv_markExecuted ctx rid tid s)"

definition apv_run :: "(string \<Rightarrow> bool) \<Rightarrow> apv_event list \<Rightarrow> apv_store \<Rightarrow> apv_store" where
  "apv_run jv evs s = fold (apv_step jv) evs s"

definition apv_states :: "string set" where
  "apv_states = {apv_Pending, apv_Approved, apv_Rejected, apv_Executed, apv_Expired}"

definition apv_inv :: "apv_store \<Rightarrow> bool" where
  "apv_inv s \<longleftrightarrow> gm_wf s \<and> (\<forall>k r. map_of s k = Some r \<longrightarrow>
     rqID r = k \<and> k \<noteq> [] \<and> length k \<le> apv_MaxIDLen \<and> rqState r \<in> apv_states \<and> \<not> is_zero (rqExpiresAt r) \<and>
     (rqState r = apv_Pending \<longrightarrow> rqDecidedBy r = [] \<and> is_zero (rqDecidedAt r)))"

lemma apv_states_distinct [simp]:
  "apv_Pending \<noteq> apv_Approved" "apv_Pending \<noteq> apv_Rejected" "apv_Pending \<noteq> apv_Executed" "apv_Pending \<noteq> apv_Expired"
  "apv_Approved \<noteq> apv_Pending" "apv_Approved \<noteq> apv_Rejected" "apv_Approved \<noteq> apv_Executed" "apv_Approved \<noteq> apv_Expired"
  "apv_Rejected \<noteq> apv_Pending" "apv_Rejected \<noteq> apv_Approved" "apv_Rejected \<noteq> apv_Executed" "apv_Rejected \<noteq> apv_Expired"
  "apv_Executed \<noteq> apv_Pending" "apv_Executed \<noteq> apv_Approved" "apv_Executed \<noteq> apv_Rejected" "apv_Executed \<noteq> apv_Expired"
  "apv_Expired \<noteq> apv_Pending" "apv_Expired \<noteq> apv_Approved" "apv_Expired \<noteq> apv_Rejected" "apv_Expired \<noteq> apv_Executed"
  by (simp_all add: apv_state_defs)

text \<open>What one event may do to the request stored under an identifier.\<close>

definition created_as :: "request \<Rightarrow> request \<Rightarrow> bool" where
  "created_as r0 r \<longleftrightarrow> (\<exists>t. r = r0\<lparr>rqState := apv_Pending, rqCreatedAt := t\<rparr>) \<and>
     rqDecidedBy r0 = [] \<and> is_zero (rqDecidedAt r0) \<and> \<not> is_zero (rqExpiresAt r0) \<and>
     rqID r0 \<noteq> [] \<and> length (rqID r0) \<le> apv_MaxIDLen"

inductive apv_move :: "apv_event \<Rightarrow> string \<Rightarrow> request option \<Rightarrow> request option \<Rightarrow> bool" where
  same: "apv_move ev rid x x"
| create: "created_as r0 r \<Longrightarrow> rqID r0 = rid \<Longrightarrow> apv_move (ctx, clk, ACreate r0) rid None (Some r)"
| decide: "rqState r = apv_Pending \<Longrightarrow> clk 0 < rqExpiresAt r \<Longrightarrow> ValidateDecision who = None \<Longrightarrow>
    apv_move (ctx, clk, ADecide rid tid who reason ok) rid (Some r)
      (Some (r\<lparr>rqState := (if ok then apv_Approved else apv_Rejected), rqDecidedBy := who,
               rqReason := reason, rqDecidedAt := clk 1\<rparr>))"
| expire: "rqState r = apv_Pending \<Longrightarrow> rqExpiresAt r \<le> clk 0 \<Longrightarrow>
    apv_move (ctx, clk, ADecide rid tid who reason ok) rid (Some r)
      (Some (r\<lparr>rqState := apv_Expired, rqDecidedAt := clk 0\<rparr>))"
| execute: "rqState r = apv_Approved \<Longrightarrow>
    apv_move (ctx, clk, AExecute rid tid) rid (Some r) (Some (r\<lparr>rqState := apv_Executed\<rparr>))"

inductive_cases apv_move_SomeE: "apv_move ev rid (Some r) x"
inductive_cases apv_move_NoneE: "apv_move ev rid None x"

lemma ValidateForCreate_None:
  assumes "ValidateForCreate jv r now = None"
  shows "rqDecidedBy r = []" and "is_zero (rqDecidedAt r)" and "\<not> is_zero (rqExpiresAt r)" and "now < rqExpiresAt r"
    and "validTenantID (rqTenantID r)" and "rqID r \<noteq> []" and "length (rqID r) \<le> apv_MaxIDLen"
  using assms by (auto simp: ValidateForCreate_def requestIDPattern_def split: if_splits)

lemma apv_move_Create:
  "apv_move (ctx, clk, ACreate r) rid (map_of s rid) (map_of (snd (apv_Create jv ctx clk r s)) rid)"
proof (cases "ctx_obs ctx 0 = None \<and> ValidateForCreate jv r (clk 0) = None \<and> map_of s (rqID r) = None \<and> rid = rqID r")
  case True
  then have "created_as r (r\<lparr>rqState := apv_Pending, rqCreatedAt := (if is_zero (rqCreatedAt r) then clk 1 else rqCreatedAt r)\<rparr>)"
    using ValidateForCreate_None [of jv r "clk 0"] unfolding created_as_def by blast
  then show ?thesis
    using True apv_move.create by (simp add: apv_Create_def Let_def gomap_simps)
next
  case False
  then have "map_of (snd (apv_Create jv ctx clk r s)) rid = map_of s rid"
    by (auto simp: apv_Create_def gomap_simps Let_def split: option.splits)
  then show ?thesis by (simp add: apv_move.same)
qed

lemma apv_decide_pending:
  assumes "ctx_obs ctx 0 = None" and "ValidateDecision who = None" and "ValidateReason reason = None"
    and "map_of s k = Some r" and "tid = [] \<or> rqTenantID r = tid" and "rqState r = apv_Pending"
    and "\<not> is_zero (rqExpiresAt r)"
  shows "snd (apv_decide ctx clk k tid who reason ok s) = AList.update k
    (if clk 0 < rqExpiresAt r
     then r\<lparr>rqState := (if ok then apv_Approved else apv_Rejected), rqDecidedBy := who, rqReason := reason, rqDecidedAt := clk 1\<rparr>
     else r\<lparr>rqState := apv_Expired, rqDecidedAt := clk 0\<rparr>) s"
  using assms by (cases ok) (auto simp: apv_decide_def Let_def apv_IsTerminal_def)

lemma apv_decide_settled:
  assumes "map_of s k = Some r" and "rqState r \<in> apv_states" and "rqState r \<noteq> apv_Pending"
  shows "snd (apv_decide ctx clk k tid who reason ok s) = s"
proof -
  consider "rqState r = apv_Approved" | "rqState r = apv_Rejected" | "apv_IsTerminal (rqState r)"
    using assms(2,3) by (auto simp: apv_states_def apv_IsTerminal_def)
  then show ?thesis
    by cases (simp_all add: apv_decide_def Let_def assms split: option.split)
qed

lemma apv_decide_frame:
  "rid \<noteq> k \<Longrightarrow> map_of (snd (apv_decide ctx clk k tid who reason ok s)) rid = map_of s rid"
  by (simp add: apv_decide_def Let_def gomap_simps split: option.split)

lemma apv_decide_refused:
  assumes "\<not> (ctx_obs ctx 0 = None \<and> ValidateDecision who = None \<and> ValidateReason reason = None \<and>
    (\<exists>r. map_of s k = Some r \<and> (tid = [] \<or> rqTenantID r = tid)))"
  shows "snd (apv_decide ctx clk k tid who reason ok s) = s"
  using assms
  by (cases "ctx_obs ctx 0"; cases "ValidateDecision who"; cases "ValidateReason reason"; cases "map_of s k")
     (simp_all add: apv_decide_def)

lemma apv_move_decide:
  assumes "apv_inv s"
  shows "apv_move (ctx, clk, ADecide k tid who reason ok) rid (map_of s rid)
           (map_of (snd (apv_decide ctx clk k tid who reason ok s)) rid)"
proof (cases "rid = k \<and> ctx_obs ctx 0 = None \<and> ValidateDecision who = None \<and> ValidateReason reason = None \<and>
    (\<exists>r. map_of s k = Some r \<and> (tid = [] \<or> rqTenantID r = tid))")
  case True
  then obtain r where r: "rid = k" "ctx_obs ctx 0 = None" "ValidateDecision who = None" "ValidateReason reason = None"
    "map_of s k = Some r" "tid = [] \<or> rqTenantID r = tid" by blast
  have st: "rqState r \<in> apv_states" and nz: "\<not> is_zero (rqExpiresAt r)"
    using assms r(5) by (simp_all add: apv_inv_def)
  show ?thesis
  proof (cases "rqState r = apv_Pending")
    case pending: True
    show ?thesis
      unfolding apv_decide_pending [OF r(2-6) pending nz] r(1) r(5)
      using apv_move.decide [OF pending, of clk who ctx k tid reason ok] r(3)
        apv_move.expire [OF pending, of clk ctx k tid who reason ok]
      by (simp add: gomap_simps not_less)
  next
    case False
    show ?thesis unfolding apv_decide_settled [OF r(5) st False] by (rule apv_move.same)
  qed
next
  case False
  then have "map_of (snd (apv_decide ctx clk k tid who reason ok s)) rid = map_of s rid"
    using apv_decide_frame [of rid k] apv_decide_refused [of ctx who reason s k tid clk ok] by metis
  then show ?thesis by (simp add: apv_move.same)
qed

lemma apv_move_execute:
  "apv_move (ctx, clk, AExecute k tid) rid (map_of s rid) (map_of (snd (apv_markExecuted ctx k tid s)) rid)"
proof (cases "\<exists>r. rid = k \<and> map_of s k = Some r \<and> rqState r = apv_Approved \<and> ctx_obs ctx 0 = None \<and> (tid = [] \<or> rqTenantID r = tid)")
  case True
  then show ?thesis
    by (auto simp: apv_markExecuted_def Let_def gomap_simps intro!: apv_move.execute)
next
  case False
  then have "map_of (snd (apv_markExecuted ctx k tid s)) rid = map_of s rid"
    by (auto simp: apv_markExecuted_def Let_def gomap_simps split: option.splits)
  then show ?thesis by (simp add: apv_move.same)
qed

lemma apv_step_move: "apv_inv s \<Longrightarrow> apv_move ev rid (map_of s rid) (map_of (apv_step jv ev s) rid)"
  by (cases "(jv, ev, s)" rule: apv_step.cases)
     (simp_all add: apv_move_Create apv_move_decide apv_move_execute)

lemma gm_wf_apv_step: "gm_wf s \<Longrightarrow> gm_wf (apv_step jv ev s)"
  by (cases "(jv, ev, s)" rule: apv_step.cases)
     (auto simp: apv_Create_def apv_decide_def apv_markExecuted_def Let_def split: option.split)

lemma apv_inv_step:
  assumes "apv_inv s"
  shows "apv_inv (apv_step jv ev s)"
proof -
  have "rqID r = k \<and> k \<noteq> [] \<and> length k \<le> apv_MaxIDLen \<and> rqState r \<in> apv_states \<and> \<not> is_zero (rqExpiresAt r) \<and>
      (rqState r = apv_Pending \<longrightarrow> rqDecidedBy r = [] \<and> is_zero (rqDecidedAt r))"
    if "map_of (apv_step jv ev s) k = Some r" for k r
  proof -
    have "apv_move ev k (map_of s k) (Some r)" using apv_step_move [OF assms, of ev k jv] that by simp
    then show ?thesis
    proof (cases rule: apv_move.cases)
      case same
      then have "map_of s k = Some r" by simp
      then show ?thesis using assms by (simp add: apv_inv_def)
    qed (use assms in \<open>auto simp: apv_inv_def created_as_def apv_states_def\<close>)
  qed
  then show ?thesis using assms gm_wf_apv_step by (auto simp: apv_inv_def)
qed

lemma apv_inv_Nil [simp]: "apv_inv []"
  by (simp add: apv_inv_def)

lemma apv_inv_run: "apv_inv s \<Longrightarrow> apv_inv (apv_run jv evs s)"
  unfolding apv_run_def by (induction evs arbitrary: s) (auto intro: apv_inv_step)


section \<open>What never changes\<close>

definition same_request :: "request \<Rightarrow> request \<Rightarrow> bool" where
  "same_request r r' \<longleftrightarrow> rqID r' = rqID r \<and> rqTenantID r' = rqTenantID r \<and> rqActor r' = rqActor r \<and>
     rqAction r' = rqAction r \<and> rqResource r' = rqResource r \<and> rqPayload r' = rqPayload r \<and>
     rqCreatedAt r' = rqCreatedAt r \<and> rqExpiresAt r' = rqExpiresAt r"

definition same_decision :: "request \<Rightarrow> request \<Rightarrow> bool" where
  "same_decision r r' \<longleftrightarrow> rqDecidedBy r' = rqDecidedBy r \<and> rqDecidedAt r' = rqDecidedAt r \<and> rqReason r' = rqReason r"

text \<open>The life cycle: from pending to a verdict or to expiry, and from approved to executed.\<close>

inductive apv_edge :: "string \<Rightarrow> string \<Rightarrow> bool" where
  edge_approve: "apv_edge apv_Pending apv_Approved"
| edge_reject: "apv_edge apv_Pending apv_Rejected"
| edge_expire: "apv_edge apv_Pending apv_Expired"
| edge_execute: "apv_edge apv_Approved apv_Executed"

text \<open>What one call may do to the state stored under an identifier: nothing, a new request, one edge.\<close>

inductive apv_trans :: "request option \<Rightarrow> request option \<Rightarrow> bool" where
  trans_stay: "apv_trans x x"
| trans_new: "rqState r = apv_Pending \<Longrightarrow> apv_trans None (Some r)"
| trans_move: "apv_edge (rqState r) (rqState r') \<Longrightarrow> same_request r r' \<Longrightarrow> apv_trans (Some r) (Some r')"

lemma apv_move_trans: "apv_move ev rid x y \<Longrightarrow> apv_trans x y"
  by (erule apv_move.cases)
     (auto simp: created_as_def same_request_def intro!: apv_trans.intros intro: apv_edge.intros)

definition rq_later :: "request \<Rightarrow> request \<Rightarrow> bool" where
  "rq_later r r' \<longleftrightarrow> same_request r r' \<and> apv_edge\<^sup>*\<^sup>* (rqState r) (rqState r') \<and>
     (rqState r \<noteq> apv_Pending \<longrightarrow> rqState r' \<noteq> apv_Pending \<and> same_decision r r')"

lemmas rq_later_defs = rq_later_def same_request_def same_decision_def

lemma rq_later_move: "apv_move ev rid (Some r) x \<Longrightarrow> \<exists>r'. x = Some r' \<and> rq_later r r'"
  by (erule apv_move_SomeE) (auto simp: rq_later_defs intro: apv_edge.intros)

lemma rq_later_trans: "rq_later a b \<Longrightarrow> rq_later b c \<Longrightarrow> rq_later a c"
  by (auto simp: rq_later_defs intro: rtranclp_trans)

lemma rq_later_run:
  "apv_inv s \<Longrightarrow> map_of s rid = Some r \<Longrightarrow> \<exists>r'. map_of (apv_run jv evs s) rid = Some r' \<and> rq_later r r'"
  unfolding apv_run_def
proof (induction evs arbitrary: s r)
  case Nil
  then show ?case by (simp add: rq_later_defs)
next
  case (Cons ev evs)
  from rq_later_move [of ev rid r] apv_step_move [OF Cons.prems(1), of ev rid jv] Cons.prems(2)
  obtain r1 where "map_of (apv_step jv ev s) rid = Some r1" "rq_later r r1" by auto
  with Cons.IH [OF apv_inv_step [OF Cons.prems(1)]] rq_later_trans show ?case by fastforce
qed

section \<open>Properties\<close>

text \<open>
  Property C13.  Requests only move along their life cycle.  Take any sequence of calls, with any
  tenants, deciders, contexts and clock readings.  One call more leaves what is stored under an
  identifier as it is, stores a new pending request there, or moves the request there along one edge:
  pending to approved, rejected or expired, or approved to executed.  So a stored request stays
  stored, keeps its identity, tenant, actor, action, resource, payload and times, and its state
  is reached along these edges; once it is not pending, who decided, when and why never changes again.
\<close>

theorem approval_moves_forward:
  assumes "map_of (apv_run jv evs0 []) rid = Some r"
  shows "(\<forall>ev k. apv_trans (map_of (apv_run jv evs0 []) k) (map_of (apv_run jv (evs0 @ [ev]) []) k)) \<and>
    (\<exists>r'. map_of (apv_run jv (evs0 @ evs) []) rid = Some r' \<and> same_request r r' \<and>
       apv_edge\<^sup>*\<^sup>* (rqState r) (rqState r') \<and>
       (rqState r \<noteq> apv_Pending \<longrightarrow> rqState r' \<noteq> apv_Pending \<and> same_decision r r'))"
proof
  have inv: "apv_inv (apv_run jv evs0 [])" by (simp add: apv_inv_run)
  show "\<forall>ev k. apv_trans (map_of (apv_run jv evs0 []) k) (map_of (apv_run jv (evs0 @ [ev]) []) k)"
    using apv_move_trans [OF apv_step_move [OF inv]] by (simp add: apv_run_def)
  show "\<exists>r'. map_of (apv_run jv (evs0 @ evs) []) rid = Some r' \<and> same_request r r' \<and>
       apv_edge\<^sup>*\<^sup>* (rqState r) (rqState r') \<and>
       (rqState r \<noteq> apv_Pending \<longrightarrow> rqState r' \<noteq> apv_Pending \<and> same_decision r r')"
    using rq_later_run [OF inv assms, of jv evs] by (auto simp: apv_run_def rq_later_def)
qed

definition apv_ex_request :: request where
  "apv_ex_request = \<lparr>rqID = ''r1'', rqTenantID = ''t1'', rqActor = ''alice'', rqAction = ''delete'', rqResource = [],
     rqPayload = [], rqState = [], rqDecidedBy = [], rqDecidedAt = zero_time, rqReason = [],
     rqCreatedAt = zero_time, rqExpiresAt = 1000\<rparr>"

definition apv_ex_events :: "apv_event list" where
  "apv_ex_events = [(background, (\<lambda>_. 10), ACreate apv_ex_request),
     (background, (\<lambda>_. 20), ADecide ''r1'' [] ''bob'' ''ok'' True)]"

definition apv_ex_approved :: request where
  "apv_ex_approved = apv_ex_request\<lparr>rqState := apv_Approved, rqCreatedAt := 10, rqDecidedBy := ''bob'',
     rqReason := ''ok'', rqDecidedAt := 20\<rparr>"

lemma valid_ascii_field:
  assumes "s \<noteq> []" and "length s \<le> n" and "\<forall>c \<in> set s. 0x21 \<le> (of_char c :: nat) \<and> (of_char c :: nat) < 0x7F"
  shows "validTextField s n b" and "validLineField s n b" and "n \<le> apv_MaxReasonLen \<Longrightarrow> validReason s"
proof -
  have asc: "\<forall>c \<in> set s. (of_char c :: nat) < 0x80" using assms(3) by fastforce
  have "\<not> is_control (of_char c) \<and> \<not> is_space (of_char c)" if "c \<in> set s" for c
    using assms(3) that by (fastforce simp: is_control_def is_space_def)
  then show "validTextField s n b" and "validLineField s n b" and "n \<le> apv_MaxReasonLen \<Longrightarrow> validReason s"
    using assms(1,2) valid_string_ascii [OF asc] runes_ascii [OF asc]
    by (auto simp: validTextField_def validLineField_def validReason_def has_rune_def list_ex_iff)
qed

lemma apv_ex_valid:
  "ValidateForCreate jv apv_ex_request 10 = None" "ValidateDecision ''bob'' = None" "ValidateReason ''ok'' = None"
proof -
  have "ValidateID ''t1'' = None"
    by (simp add: ValidateID_def MaxIDLen_def trim_space_changes_def runes_ascii is_space_def forbiddenBytes_def)
  then have t: "validTenantID ''t1''" by (simp add: validTenantID_def apv_MaxTenantIDLen_def)
  have ids: "requestIDPattern ''r1''" by (simp add: requestIDPattern_def id_char_def)
  have r: "validReason []" by (simp add: validReason_def has_rune_def valid_string_def)
  show "ValidateForCreate jv apv_ex_request 10 = None"
    by (simp add: ValidateForCreate_def apv_ex_request_def t ids r valid_ascii_field apv_MaxActorLen_def
        apv_MaxActionLen_def apv_MaxIDLen_def apv_MaxPayloadSize_def zero_time_def)
       (simp add: validTextField_def)
  show "ValidateDecision ''bob'' = None" "ValidateReason ''ok'' = None"
    using valid_ascii_field(3) [of "''ok''" 2]
    by (simp_all add: ValidateDecision_def ValidateReason_def valid_ascii_field apv_MaxActorLen_def apv_MaxReasonLen_def)
qed

lemma apv_ex_run: "apv_run jv apv_ex_events [] = [(''r1'', apv_ex_approved)]"
  by (simp add: apv_run_def apv_ex_events_def apv_Create_def apv_ex_valid Let_def)
     (simp add: apv_ex_request_def apv_ex_approved_def apv_decide_def Let_def apv_ex_valid apv_IsTerminal_def zero_time_def)

theorem approval_moves_forward_witness:
  "\<exists>r'. map_of (apv_run (\<lambda>_. True) (apv_ex_events @ [(background, (\<lambda>_. 30), ADecide ''r1'' [] ''eve'' ''no'' False)]) []) ''r1'' = Some r' \<and>
     rqDecidedBy r' = ''bob'' \<and> rqDecidedAt r' = 20"
proof -
  have "map_of (apv_run (\<lambda>_. True) apv_ex_events []) ''r1'' = Some apv_ex_approved" by (simp add: apv_ex_run)
  from approval_moves_forward [OF this, of "[(background, (\<lambda>_. 30), ADecide ''r1'' [] ''eve'' ''no'' False)]"]
  show ?thesis by (auto simp: apv_ex_approved_def same_decision_def)
qed

text \<open>The approval a request in state approved or executed rests on.\<close>

definition approved_by :: "apv_event list \<Rightarrow> request \<Rightarrow> bool" where
  "approved_by evs r \<longleftrightarrow> (\<exists>ctx clk tid. (ctx, clk, ADecide (rqID r) tid (rqDecidedBy r) (rqReason r) True) \<in> set evs \<and>
     clk 0 < rqExpiresAt r \<and> rqDecidedAt r = clk 1 \<and> ValidateDecision (rqDecidedBy r) = None)"

lemma approved_by_mono: "approved_by evs r \<Longrightarrow> set evs \<subseteq> set evs' \<Longrightarrow> approved_by evs' r"
  by (auto simp: approved_by_def)

lemma approved_by_run:
  assumes "map_of (apv_run jv evs []) rid = Some r" and "rqState r \<in> {apv_Approved, apv_Executed}"
  shows "approved_by evs r"
  using assms
proof (induction evs arbitrary: r rule: rev_induct)
  case Nil
  then show ?case by (simp add: apv_run_def)
next
  case (snoc ev evs)
  define s where "s = apv_run jv evs []"
  have inv: "apv_inv s" by (simp add: s_def apv_inv_run)
  have "map_of (apv_step jv ev s) rid = Some r" using snoc.prems(1) by (simp add: apv_run_def s_def)
  then have mv: "apv_move ev rid (map_of s rid) (Some r)" using apv_step_move [OF inv, of ev rid jv] by simp
  have id: "rqID q = rid" if "map_of s rid = Some q" for q using inv that by (simp add: apv_inv_def)
  show ?case
    using mv
  proof (cases rule: apv_move.cases)
    case same
    then have "approved_by evs r" using snoc.IH snoc.prems(2) by (simp add: s_def)
    then show ?thesis by (rule approved_by_mono) auto
  next
    case (decide q clk who ctx tid reason ok)
    then show ?thesis
      using snoc.prems(2) id unfolding approved_by_def by (cases ok) auto
  next
    case (execute q ctx clk tid)
    then have "approved_by evs q" using snoc.IH [of q] by (simp add: s_def)
    then show ?thesis using execute by (auto simp: approved_by_def)
  qed (use snoc.prems(2) in \<open>auto simp: created_as_def\<close>)
qed

text \<open>
  Property C16.  Nothing runs unapproved.  In every store that a sequence of calls can produce
  from an empty one, a request in state approved or executed rests on an approval call in that
  sequence, for its identifier, by the decider and with the reason on record, whose decider passed
  validation and whose clock was before the request's expiry; the recorded time is that call's.
\<close>

theorem executed_was_approved:
  assumes "map_of (apv_run jv evs []) rid = Some r" and "rqState r = apv_Approved \<or> rqState r = apv_Executed"
  shows "\<exists>ctx clk tid. (ctx, clk, ADecide rid tid (rqDecidedBy r) (rqReason r) True) \<in> set evs \<and>
    clk 0 < rqExpiresAt r \<and> rqDecidedAt r = clk 1 \<and> ValidateDecision (rqDecidedBy r) = None"
proof -
  have "apv_inv (apv_run jv evs [])" by (simp add: apv_inv_run)
  then have "rqID r = rid" using assms(1) by (simp add: apv_inv_def)
  then show ?thesis using approved_by_run [OF assms(1)] assms(2) by (auto simp: approved_by_def)
qed

theorem executed_was_approved_witness:
  "rqState apv_ex_approved = apv_Approved \<and>
   (\<exists>ctx clk tid. (ctx, clk, ADecide ''r1'' tid ''bob'' ''ok'' True) \<in> set apv_ex_events \<and> clk 0 < 1000)"
proof -
  have "map_of (apv_run (\<lambda>_. True) apv_ex_events []) ''r1'' = Some apv_ex_approved" by (simp add: apv_ex_run)
  from executed_was_approved [OF this] show ?thesis
    by (auto simp: apv_ex_approved_def apv_ex_request_def)
qed

end
