(* ===== verification/Approval_Views.thy ===== *)
theory Approval_Views
  imports Approval "HOL-Library.Multiset"
begin

text \<open>
  What listing shows.  Paging through \<^verbatim>\<open>List\<close> of \<^verbatim>\<open>data/approval/memory/memory.go\<close>, each page asked for
  with the cursor of the page before, yields every matching request once, newest first, whatever
  order the map of requests is iterated in; and the tenant wrapper of
  \<^verbatim>\<open>data/approval/tenantstore.go\<close> neither shows nor changes requests of other tenants.
\<close>

section \<open>One page\<close>

definition apv_found :: "query \<Rightarrow> string list \<Rightarrow> apv_store \<Rightarrow> request list" where
  "apv_found q ks s = filter (\<lambda>r. apv_match r q) (List.map_filter (map_of s) ks)"

definition apv_limit :: "query \<Rightarrow> nat" where
  "apv_limit q = nat (if qLimit q \<le> 0 then apv_defaultLimit else qLimit q)"

definition apv_rest :: "query \<Rightarrow> time \<times> string \<Rightarrow> request list \<Rightarrow> request list" where
  "apv_rest q c rs =
     (if qCursor q \<noteq> [] then dropWhile (\<lambda>r. \<not> rq_key r < (fst c, map of_char (snd c))) rs else rs)"

definition apv_next :: "(time \<Rightarrow> string \<Rightarrow> string) \<Rightarrow> nat \<Rightarrow> request list \<Rightarrow> string" where
  "apv_next encode n rest =
     (if n < length rest then encode (rqCreatedAt (rest ! (n - 1))) (rqID (rest ! (n - 1))) else [])"

lemma apv_scan_found: "apv_scan ctx q i ks s = Inr rs \<Longrightarrow> rs = apv_found q ks s"
  by (induction ks arbitrary: i rs)
     (auto simp: apv_found_def List.map_filter_def split: option.splits sum.splits if_splits)

lemma apv_scan_live: "(\<And>n. ctx_obs ctx n = None) \<Longrightarrow> apv_scan ctx q i ks s = Inr (apv_found q ks s)"
  by (induction ks arbitrary: i) (auto simp: apv_found_def List.map_filter_def split: option.split)

lemma apv_List_eq:
  assumes "ctx_obs ctx 0 = None" and "apv_QueryValidate q = None" and "decode (qCursor q) = Some c"
    and "apv_scan ctx q 0 ks s = Inr found"
  shows "apv_List encode decode ks ctx q s =
    Inr (take (apv_limit q) (apv_rest q c (sort_newest found)),
         apv_next encode (apv_limit q) (apv_rest q c (sort_newest found)))"
proof -
  obtain ct ci where c: "c = (ct, ci)" by (cases c)
  have lt: "rq_key r < (ct, map of_char ci) \<longleftrightarrow>
      rqCreatedAt r < ct \<or> (rqCreatedAt r = ct \<and> map of_char (rqID r) < (map of_char ci :: nat list))" for r
    by (auto simp: rq_key_def)
  show ?thesis
    using assms by (simp add: apv_List_def c Let_def apv_rest_def apv_next_def lt apv_limit_def)
qed

lemma apv_List_Inr:
  assumes "apv_List encode decode ks ctx q s = Inr (page, next)"
  obtains c where "decode (qCursor q) = Some c" "page = take (apv_limit q) (apv_rest q c (sort_newest (apv_found q ks s)))"
proof -
  have ok: "ctx_obs ctx 0 = None" "apv_QueryValidate q = None"
    using assms by (auto simp: apv_List_def split: option.splits)
  obtain c where c: "decode (qCursor q) = Some c"
    using assms ok by (cases "decode (qCursor q)") (auto simp: apv_List_def)
  obtain found where f: "apv_scan ctx q 0 ks s = Inr found"
    using assms ok c by (cases "apv_scan ctx q 0 ks s") (auto simp: apv_List_def split: prod.splits)
  show thesis
    using that [OF c] assms apv_List_eq [of ctx q decode c ks s found encode, OF ok c f] apv_scan_found [OF f] by simp
qed

lemma apv_List_matches:
  assumes "apv_List encode decode ks ctx q s = Inr (page, next)" and "r \<in> set page"
  shows "apv_match r q"
proof -
  obtain c where "page = take (apv_limit q) (apv_rest q c (sort_newest (apv_found q ks s)))"
    using assms(1) by (rule apv_List_Inr)
  then have "r \<in> set (apv_rest q c (sort_newest (apv_found q ks s)))" using assms(2) by (auto dest: in_set_takeD)
  then have "r \<in> set (sort_newest (apv_found q ks s))"
    by (auto simp: apv_rest_def split: if_splits dest: set_dropWhileD)
  then show ?thesis by (simp add: sort_newest_def apv_found_def)
qed

lemma apv_match_tenant: "tid \<noteq> [] \<Longrightarrow> apv_match r (q\<lparr>qTenantID := tid, qAllTenants := b\<rparr>) \<Longrightarrow> rqTenantID r = tid"
  by (cases "rqTenantID r = tid") (simp_all add: apv_match_def)

section \<open>All pages\<close>

fun apv_pages ::
    "(time \<Rightarrow> string \<Rightarrow> string) \<Rightarrow> (string \<Rightarrow> (time \<times> string) option) \<Rightarrow> (nat \<Rightarrow> string list) \<Rightarrow> ctxt \<Rightarrow> apv_store \<Rightarrow>
     nat \<Rightarrow> query \<Rightarrow> request list list" where
  "apv_pages encode decode order ctx s 0 q = []"
| "apv_pages encode decode order ctx s (Suc n) q =
     (case apv_List encode decode (order n) ctx q s of
        Inl e \<Rightarrow> []
      | Inr (page, cursor) \<Rightarrow>
          page # (if cursor = [] then [] else apv_pages encode decode order ctx s n (q\<lparr>qCursor := cursor\<rparr>)))"

definition newest_first :: "query \<Rightarrow> apv_store \<Rightarrow> request list" where
  "newest_first q s = sort_newest (filter (\<lambda>r. apv_match r q) (map snd s))"

lemma apv_match_cursor [simp]: "apv_match r (q\<lparr>qCursor := c\<rparr>) = apv_match r q"
  by (simp add: apv_match_def)

lemma apv_QueryValidate_cursor [simp]: "apv_QueryValidate (q\<lparr>qCursor := c\<rparr>) = apv_QueryValidate q"
  by (simp add: apv_QueryValidate_def)

lemma rq_key_inj:
  assumes "apv_inv s"
  shows "inj_on rq_key (set (map snd s))"
proof (rule inj_onI)
  fix a b assume "a \<in> set (map snd s)" "b \<in> set (map snd s)" and k: "rq_key a = rq_key b"
  then obtain i j where ab: "(i, a) \<in> set s" "(j, b) \<in> set s" by auto
  then have "map_of s i = Some a" "map_of s j = Some b" using assms by (auto simp: apv_inv_def gm_wf_def)
  moreover have "rqID a = rqID b" using k by (auto simp: rq_key_def inj_map_eq_map [OF inj_of_char])
  ultimately show "a = b" using assms by (metis apv_inv_def option.inject)
qed

text \<open>The order the map is iterated in does not matter: the keys the requests are sorted by differ.\<close>

lemma apv_found_perm:
  assumes "apv_inv s" and "mset ks = mset (map fst s)"
  shows "sort_newest (apv_found q ks s) = newest_first q s"
proof -
  have wf: "distinct (map fst s)" using assms(1) by (simp add: apv_inv_def gm_wf_def)
  have "\<forall>x \<in> set s. map_of s (fst x) = Some (snd x)" using wf by (auto simp: map_of_eq_Some_iff)
  then have "List.map_filter (\<lambda>x. map_of s (fst x)) s = List.map_filter (\<lambda>x. Some (snd x)) s"
    by (simp add: List.map_filter_def cong: filter_cong)
  then have "List.map_filter (map_of s) (map fst s) = map snd s"
    by (simp add: List.map_filter_def filter_map comp_def)
  moreover have "mset (List.map_filter (map_of s) ks) = mset (List.map_filter (map_of s) (map fst s))"
    unfolding List.map_filter_def mset_map mset_filter by (simp add: assms(2))
  ultimately have "mset (apv_found q ks s) = mset (filter (\<lambda>r. apv_match r q) (map snd s))"
    by (simp add: apv_found_def)
  moreover have "inj_on rq_key (set (filter (\<lambda>r. apv_match r q) (map snd s)))"
    by (rule inj_on_subset [OF rq_key_inj [OF assms(1)]]) auto
  ultimately have "sort_key rq_key (filter (\<lambda>r. apv_match r q) (map snd s)) = sort_key rq_key (apv_found q ks s)"
    by (intro sort_key_inj_key_eq) simp_all
  then show ?thesis by (simp add: sort_newest_def newest_first_def)
qed

lemma newest_first_desc:
  assumes "apv_inv s"
  shows "sorted_wrt (\<lambda>a b. rq_key b < rq_key a) (newest_first q s)"
proof -
  define xs where "xs = sort_key rq_key (filter (\<lambda>r. apv_match r q) (map snd s))"
  have "distinct (map fst s)" and fst: "map fst s = map (rqID \<circ> snd) s"
    using assms by (auto simp: apv_inv_def gm_wf_def)
  then have "distinct (map rqID (map snd s))" by simp
  then have "distinct (map snd s)" by (metis distinct_map)
  then have "distinct xs" by (simp add: xs_def)
  moreover have "inj_on rq_key (set xs)"
    unfolding xs_def by (rule inj_on_subset [OF rq_key_inj [OF assms]]) auto
  moreover have "sorted (map rq_key xs)" by (simp add: xs_def)
  ultimately have "sorted_wrt (<) (map rq_key xs)" by (simp add: strict_sorted_iff distinct_map)
  then show ?thesis
    by (simp add: newest_first_def sort_newest_def xs_def sorted_wrt_rev sorted_wrt_map)
qed

lemma dropWhile_desc:
  assumes "sorted_wrt (\<lambda>a b. f b < f a) xs" and "i < length xs"
  shows "dropWhile (\<lambda>r. \<not> f r < (f (xs ! i) :: 'k :: linorder)) xs = drop (Suc i) xs"
proof -
  have "takeWhile (\<lambda>r. \<not> f r < f (xs ! i)) xs = take (Suc i) xs"
  proof (rule takeWhile_eq_take_P_nth)
    fix j assume "j < Suc i" "j < length xs"
    then show "\<not> f (xs ! j) < f (xs ! i)"
      using sorted_wrt_nth_less [OF assms(1), of j i] assms(2) by (cases "j = i") auto
  next
    assume "Suc i < length xs"
    then show "\<not> \<not> f (xs ! Suc i) < f (xs ! i)" using sorted_wrt_nth_less [OF assms(1), of i "Suc i"] by simp
  qed
  then show ?thesis using takeWhile_dropWhile_id by (metis append_take_drop_id same_append_eq)
qed

lemma apv_limit_pos: "apv_QueryValidate q = None \<Longrightarrow> 0 < apv_limit q"
  by (auto simp: apv_QueryValidate_def apv_limit_def apv_defaultLimit_def split: if_splits)

lemma apv_pages_from:
  assumes inv: "apv_inv s" and ord: "\<And>i. mset (order i) = mset (map fst s)" and live: "\<And>n. ctx_obs ctx n = None"
    and codec: "\<And>r. r \<in> snd ` set s \<Longrightarrow> encode (rqCreatedAt r) (rqID r) \<noteq> [] \<and>
      decode (encode (rqCreatedAt r) (rqID r)) = Some (rqCreatedAt r, rqID r)"
    and "apv_QueryValidate q = None" and "decode (qCursor q) = Some c"
    and "apv_rest q c (newest_first q s) = drop p (newest_first q s)" and "length (newest_first q s) - p < n"
  shows "concat (apv_pages encode decode order ctx s n q) = drop p (newest_first q s)"
  using assms(5-8)
proof (induction n arbitrary: q c p)
  case (Suc n)
  define L where "L = newest_first q s"
  define l where "l = apv_limit q"
  have lpos: "0 < l" using Suc.prems(1) by (simp add: l_def apv_limit_pos)
  have page: "apv_List encode decode (order n) ctx q s = Inr (take l (drop p L), apv_next encode l (drop p L))"
    using apv_List_eq [of ctx q decode c "order n" s "apv_found q (order n) s" encode, OF live Suc.prems(1,2) apv_scan_live]
      Suc.prems(3) live apv_found_perm [OF inv ord] by (simp add: L_def l_def)
  show ?case
  proof (cases "l < length (drop p L)")
    case False
    then show ?thesis using page by (simp add: apv_next_def L_def)
  next
    case True
    define r where "r = L ! (p + l - 1)"
    define q' where "q' = q\<lparr>qCursor := encode (rqCreatedAt r) (rqID r)\<rparr>"
    have i: "p + l - 1 < length L" and r: "drop p L ! (l - 1) = r" using True lpos by (auto simp: r_def nth_drop)
    have "r \<in> set L" using i by (simp add: r_def)
    then have "r \<in> snd ` set s" by (simp add: L_def newest_first_def sort_newest_def)
    then have cod: "encode (rqCreatedAt r) (rqID r) \<noteq> []"
      "decode (encode (rqCreatedAt r) (rqID r)) = Some (rqCreatedAt r, rqID r)" using codec by auto
    have L': "newest_first q' s = L" by (simp add: L_def q'_def newest_first_def)
    have "dropWhile (\<lambda>x. \<not> rq_key x < rq_key (L ! (p + l - 1))) L = drop (Suc (p + l - 1)) L"
      by (rule dropWhile_desc [OF _ i]) (simp add: L_def newest_first_desc [OF inv])
    then have "apv_rest q' (rqCreatedAt r, rqID r) L = drop (p + l) L"
      using cod(1) lpos unfolding r_def [symmetric] by (simp add: apv_rest_def q'_def rq_key_def)
    moreover have "apv_QueryValidate q' = None" using Suc.prems(1) by (simp add: q'_def)
    moreover have "length L - (p + l) < n" using Suc.prems(4) True lpos by (simp add: L_def)
    ultimately have "concat (apv_pages encode decode order ctx s n q') = drop (p + l) L"
      using Suc.IH [of q' "(rqCreatedAt r, rqID r)" "p + l"] cod(2) L' by (simp add: q'_def)
    then show ?thesis
      using page True r cod(1) append_take_drop_id [of l "drop p L"]
      by (simp add: apv_next_def q'_def L_def [symmetric] add.commute)
  qed
qed simp

text \<open>
  Property C18.  Paging is complete and without repetition.  Starting without a cursor and asking
  for each next page with the cursor returned, the pages of \<^verbatim>\<open>List\<close> together are the matching
  requests in the order newest first, each once, for any page size the query validation admits and
  any order in which each call iterates over the map; one call more than there are matches is
  enough to reach the end.  The cursor codec has to give back what it encoded, and to accept the
  empty cursor.
\<close>

theorem apv_paging_complete:
  assumes "apv_inv s" and "\<forall>i. mset (order i) = mset (map fst s)" and "\<forall>n. ctx_obs ctx n = None"
    and "\<forall>r \<in> snd ` set s. encode (rqCreatedAt r) (rqID r) \<noteq> [] \<and>
      decode (encode (rqCreatedAt r) (rqID r)) = Some (rqCreatedAt r, rqID r)"
    and "apv_QueryValidate q = None" and "qCursor q = []" and "decode [] = Some c"
    and "length (filter (\<lambda>r. apv_match r q) (map snd s)) < n"
  shows "concat (apv_pages encode decode order ctx s n q) = newest_first q s"
  using apv_pages_from [of s order ctx encode decode q c 0 n] assms
  by (simp add: apv_rest_def) (simp add: newest_first_def sort_newest_def)

definition apv_ex_store :: apv_store where
  "apv_ex_store = [(''r1'', apv_ex_approved), (''r2'', apv_ex_approved\<lparr>rqID := ''r2'', rqCreatedAt := 11\<rparr>),
     (''r3'', apv_ex_approved\<lparr>rqID := ''r3''\<rparr>)]"

definition apv_ex_query :: query where
  "apv_ex_query = \<lparr>qTenantID = ''t1'', qAllTenants = False, qActor = [], qAction = [], qState = [], qSince = zero_time,
     qUntil = zero_time, qLimit = 2, qCursor = []\<rparr>"

definition ex_encode :: "time \<Rightarrow> string \<Rightarrow> string" where
  "ex_encode t i = replicate (nat t) CHR ''t'' @ CHR ''|'' # i"

definition ex_decode :: "string \<Rightarrow> (time \<times> string) option" where
  "ex_decode c = Some (int (length (takeWhile (\<lambda>x. x \<noteq> CHR ''|'') c)), drop 1 (dropWhile (\<lambda>x. x \<noteq> CHR ''|'') c))"

lemma ex_codec: "0 \<le> t \<Longrightarrow> ex_encode t i \<noteq> [] \<and> ex_decode (ex_encode t i) = Some (t, i)"
  by (simp add: ex_encode_def ex_decode_def takeWhile_append dropWhile_append)

theorem apv_paging_complete_witness:
  "map rqID (concat (apv_pages ex_encode ex_decode (\<lambda>_. [''r3'', ''r1'', ''r2'']) background apv_ex_store 4 apv_ex_query))
     = [''r2'', ''r3'', ''r1'']"
proof -
  have "apv_inv apv_ex_store"
    by (simp add: apv_inv_def apv_MaxIDLen_def apv_ex_store_def gm_wf_def apv_ex_approved_def apv_ex_request_def apv_states_def zero_time_def)
  moreover have "\<forall>r \<in> snd ` set apv_ex_store. ex_encode (rqCreatedAt r) (rqID r) \<noteq> [] \<and>
      ex_decode (ex_encode (rqCreatedAt r) (rqID r)) = Some (rqCreatedAt r, rqID r)"
    by (simp add: apv_ex_store_def apv_ex_approved_def apv_ex_request_def ex_codec)
  moreover have "apv_QueryValidate apv_ex_query = None" "qCursor apv_ex_query = []" "ex_decode [] = Some (0, [])"
    by (simp_all add: apv_ex_query_def apv_QueryValidate_def apv_MaxPageLimit_def ex_decode_def)
  moreover have "newest_first apv_ex_query apv_ex_store = map snd (rev [apv_ex_store ! 0, apv_ex_store ! 2, apv_ex_store ! 1])"
    by (simp add: newest_first_def sort_newest_def apv_match_def apv_ex_query_def apv_ex_store_def apv_ex_approved_def
        apv_ex_request_def zero_time_def rq_key_def)
  ultimately show ?thesis
    using apv_paging_complete [of apv_ex_store "\<lambda>_. [''r3'', ''r1'', ''r2'']" background ex_encode ex_decode apv_ex_query "(0, [])" 4]
    by (simp add: apv_ex_store_def apv_ex_approved_def apv_ex_request_def)
qed

section \<open>Tenants\<close>

text \<open>
  Property C34.  The tenant wrapper isolates tenants.  Scoped to a tenant, \<^verbatim>\<open>Get\<close> and \<^verbatim>\<open>List\<close> return
  only requests of that tenant, whatever the query asks for; and \<^verbatim>\<open>Create\<close>, \<^verbatim>\<open>Approve\<close>, \<^verbatim>\<open>Reject\<close> and
  \<^verbatim>\<open>MarkExecuted\<close> leave every stored request of another tenant as it is.
\<close>

theorem tenant_store_isolates:
  assumes "tid \<noteq> []" and "map_of s rid = Some r" and "rqTenantID r \<noteq> tid"
  shows "(\<forall>x. ts_Get tid ctx k s = Inr x \<longrightarrow> rqTenantID x = tid)
       \<and> (\<forall>page next. ts_List tid encode decode ks ctx q s = Inr (page, next) \<longrightarrow>
            list_all (\<lambda>x. rqTenantID x = tid) page)
       \<and> map_of (snd (ts_Create jv tid ctx clk r0 s)) rid = Some r
       \<and> map_of (snd (ts_Approve tid ctx clk k who reason s)) rid = Some r
       \<and> map_of (snd (ts_Reject tid ctx clk k who reason s)) rid = Some r
       \<and> map_of (snd (ts_MarkExecuted tid ctx k s)) rid = Some r"
proof -
  have list: "list_all (\<lambda>x. rqTenantID x = tid) page" if "ts_List tid encode decode ks ctx q s = Inr (page, next)" for page "next"
  proof -
    have "apv_List encode decode ks ctx (q\<lparr>qTenantID := tid, qAllTenants := False\<rparr>) s = Inr (page, next)"
      using that assms(1) by (simp add: ts_List_def)
    from apv_List_matches [OF this] have "apv_match x (q\<lparr>qTenantID := tid, qAllTenants := False\<rparr>)" if "x \<in> set page" for x
      using that by simp
    then show ?thesis using apv_match_tenant [OF assms(1)] by (auto simp: list_all_iff)
  qed
  have dec: "map_of (snd (apv_decide ctx clk k tid who reason ok s)) rid = Some r" for ok
  proof (cases "k = rid")
    case True
    then show ?thesis using apv_decide_refused [of ctx who reason s k tid clk ok] assms by simp
  next
    case False
    then show ?thesis using apv_decide_frame [of rid k] assms(2) by simp
  qed
  have exe: "map_of (snd (apv_markExecuted ctx k tid s)) rid = Some r"
    using assms by (cases "k = rid") (auto simp: apv_markExecuted_def Let_def gomap_simps split: option.split)
  have cre: "map_of (snd (apv_Create jv ctx clk r1 s)) rid = Some r" for r1
    using assms(2) by (auto simp: apv_Create_def Let_def gomap_simps split: option.split)
  show ?thesis
    using assms(1) list dec exe cre
    by (auto simp: ts_Get_def ts_Create_def ts_Approve_def ts_Reject_def ts_MarkExecuted_def ApproveForTenant_def
        RejectForTenant_def MarkExecutedForTenant_def split: sum.splits if_splits)
qed

theorem tenant_store_isolates_witness:
  "map_of (snd (ts_Approve ''t2'' background (\<lambda>_. 20) ''r1'' ''eve'' ''x'' [(''r1'', apv_ex_approved)])) ''r1''
     = Some apv_ex_approved"
  using tenant_store_isolates [of "''t2''" "[(''r1'', apv_ex_approved)]" "''r1''" apv_ex_approved background
      "''r1''" "\<lambda>_ _. []" "\<lambda>_. None" "[]" undefined "\<lambda>_. True" "\<lambda>_. 20" undefined "''eve''" "''x''"]
  by (simp add: apv_ex_approved_def apv_ex_request_def)

end
