(* ===== verification/Idempotency.thy ===== *)
theory Idempotency
  imports Core_Tenant "HOL-Library.Sublist"
begin

text \<open>
  Idempotent request processing: the contract of \<^verbatim>\<open>data/idempotency/idempotency.go\<close> and
  \<^verbatim>\<open>data/idempotency/types.go\<close>, the memory store \<^verbatim>\<open>data/idempotency/memorystore.go\<close> and the tenant
  wrapper \<^verbatim>\<open>data/idempotency/tenant/tenant.go\<close>.

  Byte slices are strings; a fingerprint is \<^verbatim>\<open>nil\<close> or a slice, so it is an option.  A call that
  runs under the store's mutex is one step; \<open>clk i\<close> is what the clock says at the \<open>i\<close>-th place of the
  call that reads it.  The random bytes of a token and SHA-256 are arguments.  \<^verbatim>\<open>Get\<close> reads the map
  under the read lock and looks again under the write lock, so it takes the store it first saw and
  the store it finds later.

  Results: once a response is stored it is what every retry gets until it expires, and nobody
  acquires the key meanwhile; a lock excludes everybody but its holder, who can complete; every
  stored response was written by the holder of a lock with the fingerprint that is compared on
  replay; tenants cannot reach each other's keys, nor can a user of the bare store.
\<close>

section \<open>The contract\<close>

datatype idem_error =
    IdLockLost | IdInvalidTTL | IdInvalidCachedResponse | IdKeyEmpty | IdKeyTooLong
  | IdKeyInvalidChars | IdKeyReservedPrefix | IdNilContext | IdCtx ctx_error | IdToken
  | IdTenant tenant_error | IdAlreadyStarted

definition MaxKeyLen :: nat where "MaxKeyLen = 256"
definition TenantStorageKeyPrefix :: string where "TenantStorageKeyPrefix = ''tns:''"
definition reservedUserKeyPrefixes :: "string list" where
  "reservedUserKeyPrefixes = [''tenant:'', TenantStorageKeyPrefix]"
definition tenantStorageKeyHexLen :: nat where "tenantStorageKeyHexLen = 64"

definition hasReservedUserKeyPrefix :: "string \<Rightarrow> bool" where
  "hasReservedUserKeyPrefix key = list_ex (\<lambda>p. prefix p key) reservedUserKeyPrefixes"

definition ValidateKey :: "string \<Rightarrow> idem_error option" where
  "ValidateKey key =
     (if key = [] then Some IdKeyEmpty
      else if length key > MaxKeyLen then Some IdKeyTooLong
      else if containsInvalidKeyRune key then Some IdKeyInvalidChars
      else if hasReservedUserKeyPrefix key then Some IdKeyReservedPrefix
      else None)"

definition lower_hex :: "char \<Rightarrow> bool" where
  "lower_hex c = (let n = of_char c :: nat in (48 \<le> n \<and> n \<le> 57) \<or> (97 \<le> n \<and> n \<le> 102))"

definition isTenantStorageKey :: "string \<Rightarrow> bool" where
  "isTenantStorageKey key =
     (if \<not> prefix TenantStorageKeyPrefix key then False
      else let hexPart = drop (length TenantStorageKeyPrefix) key
           in length hexPart = tenantStorageKeyHexLen \<and> list_all lower_hex hexPart)"

definition ValidateStorageKey :: "string \<Rightarrow> idem_error option" where
  "ValidateStorageKey key = (if isTenantStorageKey key then None else ValidateKey key)"

text \<open>\<^verbatim>\<open>hex.EncodeToString\<close>\<close>

definition hex_digit :: "nat \<Rightarrow> char" where
  "hex_digit n = char_of (if n < 10 then 48 + n else 87 + n)"

definition hex_encode :: "string \<Rightarrow> string" where
  "hex_encode bs = concat (map (\<lambda>b. [hex_digit (of_char b div 16), hex_digit (of_char b mod 16)]) bs)"

definition FormatTenantStorageKey :: "string \<Rightarrow> string" where
  "FormatTenantStorageKey digest = TenantStorageKeyPrefix @ hex_encode digest"

record cached_response =
  cr_StatusCode :: int
  cr_Headers :: "(string, string list) gomap"
  cr_Body :: "string option"

definition MaxCachedBodyBytes :: nat where "MaxCachedBodyBytes = 1048576"
definition MaxCachedHeaders :: nat where "MaxCachedHeaders = 64"
definition MaxCachedHeaderValues :: nat where "MaxCachedHeaderValues = 64"
definition MaxCachedHeaderNameBytes :: nat where "MaxCachedHeaderNameBytes = 128"
definition MaxCachedHeaderValueBytes :: nat where "MaxCachedHeaderValueBytes = 8 * 1024"
definition MaxCachedHeadersBytes :: nat where "MaxCachedHeadersBytes = 64 * 1024"

definition isCachedHeaderNameByte :: "char \<Rightarrow> bool" where
  "isCachedHeaderNameByte c =
     (let n = of_char c :: nat
      in (97 \<le> n \<and> n \<le> 122) \<or> (65 \<le> n \<and> n \<le> 90) \<or> (48 \<le> n \<and> n \<le> 57) \<or>
         c \<in> set ''!#$%&*+-.^_|~'' \<or> n = 39 \<or> n = 96)"

definition validateCachedHeaderName :: "string \<Rightarrow> idem_error option" where
  "validateCachedHeaderName name =
     (if name = [] then Some IdInvalidCachedResponse
      else if length name > MaxCachedHeaderNameBytes then Some IdInvalidCachedResponse
      else if \<not> list_all isCachedHeaderNameByte name then Some IdInvalidCachedResponse
      else None)"

definition validateCachedHeaderValue :: "string \<Rightarrow> idem_error option" where
  "validateCachedHeaderValue value =
     (if length value > MaxCachedHeaderValueBytes then Some IdInvalidCachedResponse
      else case runes value of
             None \<Rightarrow> Some IdInvalidCachedResponse
           | Some rs \<Rightarrow> if list_ex is_control rs then Some IdInvalidCachedResponse else None)"

text \<open>The loop over the headers, with the running total of bytes.\<close>

fun validate_values :: "string list \<Rightarrow> nat \<Rightarrow> idem_error + nat" where
  "validate_values [] tot = Inr tot"
| "validate_values (value # values) tot =
     (case validateCachedHeaderValue value of
        Some e \<Rightarrow> Inl e
      | None \<Rightarrow> validate_values values (tot + length value))"

fun validate_headers :: "(string \<times> string list) list \<Rightarrow> nat \<Rightarrow> idem_error + nat" where
  "validate_headers [] tot = Inr tot"
| "validate_headers ((name, values) # hs) tot =
     (case validateCachedHeaderName name of
        Some e \<Rightarrow> Inl e
      | None \<Rightarrow>
          if length values > MaxCachedHeaderValues then Inl IdInvalidCachedResponse
          else case validate_values values (tot + length name) of
                 Inl e \<Rightarrow> Inl e
               | Inr tot' \<Rightarrow> validate_headers hs tot')"

definition ValidateCachedResponse :: "cached_response \<Rightarrow> idem_error option" where
  "ValidateCachedResponse resp =
     (if cr_StatusCode resp < 100 \<or> cr_StatusCode resp > 999 then Some IdInvalidCachedResponse
      else if (case cr_Body resp of None \<Rightarrow> 0 | Some b \<Rightarrow> length b) > MaxCachedBodyBytes then Some IdInvalidCachedResponse
      else if length (cr_Headers resp) > MaxCachedHeaders then Some IdInvalidCachedResponse
      else case validate_headers (cr_Headers resp) 0 of
             Inl e \<Rightarrow> Some e
           | Inr tot \<Rightarrow> if tot > MaxCachedHeadersBytes then Some IdInvalidCachedResponse else None)"

text \<open>\<open>rnd\<close> is what reading sixteen random bytes gives.\<close>

definition GenerateToken :: "string option \<Rightarrow> idem_error + string" where
  "GenerateToken rnd = (case rnd of None \<Rightarrow> Inl IdToken | Some b \<Rightarrow> Inr (hex_encode b))"

definition memoryStoreMaxEntries :: nat where "memoryStoreMaxEntries = 10000"

section \<open>The memory store\<close>

record mem_entry =
  me_resp :: cached_response
  me_fingerprint :: "string option"
  me_expiresAt :: time

record mem_lock =
  ml_token :: string
  ml_fingerprint :: "string option"
  ml_expiresAt :: time

record imem =
  im_items :: "(string, mem_entry) gomap"
  im_locks :: "(string, mem_lock) gomap"
  im_started :: bool
  im_setCount :: "64 word"
  im_tryLockCount :: "64 word"

definition NewMemoryStore :: imem where
  "NewMemoryStore = \<lparr>im_items = [], im_locks = [], im_started = False, im_setCount = 0, im_tryLockCount = 0\<rparr>"

definition ctxErr :: "ctxt \<Rightarrow> idem_error option" where
  "ctxErr ctx = (case ctx of NilCtx \<Rightarrow> Some IdNilContext | Ctx _ \<Rightarrow> map_option IdCtx (ctx_obs ctx 0))"

text \<open>\<^verbatim>\<open>subtle.ConstantTimeCompare\<close> returns 1 on equal slices and 0 otherwise.\<close>

definition ConstantTimeCompare :: "string \<Rightarrow> string \<Rightarrow> int" where
  "ConstantTimeCompare x y = (if length x \<noteq> length y then 0 else if x = y then 1 else 0)"

text \<open>The comparison of the caller's fingerprint with the stored one in \<^verbatim>\<open>Get\<close> and \<^verbatim>\<open>TryLock\<close>.\<close>

definition fp_mismatch :: "string option \<Rightarrow> string option \<Rightarrow> bool" where
  "fp_mismatch fingerprint stored =
     (case fingerprint of
        None \<Rightarrow> False
      | Some f \<Rightarrow> (case stored of
                    None \<Rightarrow> True
                  | Some g \<Rightarrow> length g \<noteq> length f \<or> ConstantTimeCompare g f \<noteq> 1))"

definition recheckExpiredEntry :: "time \<Rightarrow> string \<Rightarrow> imem \<Rightarrow> mem_entry option \<times> imem" where
  "recheckExpiredEntry now key m =
     (case map_of (im_items m) key of
        None \<Rightarrow> (None, m)
      | Some e \<Rightarrow>
          if now > me_expiresAt e then (None, m\<lparr>im_items := AList.delete key (im_items m)\<rparr>)
          else (Some e, m))"

text \<open>The copy that is stored and handed out: appending no bytes to a nil slice leaves it nil, so an empty body becomes
  nil.  The header maps and their value lists are equal to the originals.\<close>

definition copyResponseForStorage :: "cached_response \<Rightarrow> cached_response" where
  "copyResponseForStorage resp =
     \<lparr>cr_StatusCode = cr_StatusCode resp, cr_Headers = cr_Headers resp,
      cr_Body = (case cr_Body resp of None \<Rightarrow> None | Some b \<Rightarrow> if b = [] then None else Some b)\<rparr>"

definition cloneResponse :: "cached_response \<Rightarrow> cached_response" where
  "cloneResponse resp = copyResponseForStorage resp"

lemma copyResponseForStorage_twice [simp]: "copyResponseForStorage (copyResponseForStorage resp) = copyResponseForStorage resp"
  by (simp add: copyResponseForStorage_def split: option.split)

lemma copyResponseForStorage_valid [simp]:
  "ValidateCachedResponse (copyResponseForStorage resp) = ValidateCachedResponse resp"
  by (cases "cr_Body resp") (simp_all add: copyResponseForStorage_def ValidateCachedResponse_def)

definition im_Get ::
    "ctxt \<Rightarrow> (nat \<Rightarrow> time) \<Rightarrow> string \<Rightarrow> string option \<Rightarrow> imem \<Rightarrow> imem \<Rightarrow>
     (idem_error + cached_response option \<times> bool) \<times> imem" where
  "im_Get ctx clk key fingerprint seen m =
     (case ctxErr ctx of
        Some e \<Rightarrow> (Inl e, m)
      | None \<Rightarrow>
     (case ValidateStorageKey key of
        Some e \<Rightarrow> (Inl e, m)
      | None \<Rightarrow>
     (case map_of (im_items seen) key of
        None \<Rightarrow> (Inr (None, False), m)
      | Some snapshot \<Rightarrow>
          let (found, m') = (if clk 0 > me_expiresAt snapshot then recheckExpiredEntry (clk 1) key m
                             else (Some snapshot, m))
          in (case found of
                None \<Rightarrow> (Inr (None, False), m')
              | Some entry \<Rightarrow>
                  if fp_mismatch fingerprint (me_fingerprint entry) then (Inr (None, True), m')
                  else case ValidateCachedResponse (me_resp entry) of
                         Some e \<Rightarrow> (Inl e, m')
                       | None \<Rightarrow> (Inr (Some (cloneResponse (me_resp entry)), False), m')))))"

definition evictInterval :: "64 word" where "evictInterval = 100"
definition tryLockEvictInterval :: "64 word" where "tryLockEvictInterval = 100"
definition evictBudget :: int where "evictBudget = 256"

text \<open>The keys a sweep scans; \<open>ks\<close> is the order in which the map is iterated.\<close>

definition scanned :: "int \<Rightarrow> string list \<Rightarrow> string list" where
  "scanned budget ks = (if budget > 0 then take (nat budget) ks else ks)"

definition sweepExpiredLocksLocked :: "time \<Rightarrow> string list \<Rightarrow> int \<Rightarrow> imem \<Rightarrow> imem" where
  "sweepExpiredLocksLocked now ks budget m =
     m\<lparr>im_locks := range_delete (\<lambda>l. now > ml_expiresAt l) (scanned budget ks) (im_locks m)\<rparr>"

definition sweepExpiredLocked :: "time \<Rightarrow> time \<Rightarrow> string list \<Rightarrow> string list \<Rightarrow> int \<Rightarrow> imem \<Rightarrow> imem" where
  "sweepExpiredLocked now now' iks lks budget m =
     sweepExpiredLocksLocked now' lks budget
       (m\<lparr>im_items := range_delete (\<lambda>e. now > me_expiresAt e) (scanned budget iks) (im_items m)\<rparr>)"

definition im_Set ::
    "ctxt \<Rightarrow> (nat \<Rightarrow> time) \<Rightarrow> string list \<Rightarrow> string list \<Rightarrow> string \<Rightarrow> string \<Rightarrow> cached_response \<Rightarrow> duration \<Rightarrow> imem \<Rightarrow>
     idem_error option \<times> imem" where
  "im_Set ctx clk iks lks key token resp ttl m =
     (case ctxErr ctx of
        Some e \<Rightarrow> (Some e, m)
      | None \<Rightarrow>
     (case ValidateStorageKey key of
        Some e \<Rightarrow> (Some e, m)
      | None \<Rightarrow>
     if ttl \<le> 0 then (Some IdInvalidTTL, m)
     else
     (case ValidateCachedResponse resp of
        Some e \<Rightarrow> (Some e, m)
      | None \<Rightarrow>
     (case map_of (im_locks m) key of
        None \<Rightarrow> (Some IdLockLost, m)
      | Some l \<Rightarrow>
          if ConstantTimeCompare (ml_token l) token \<noteq> 1 \<or> clk 0 > ml_expiresAt l then (Some IdLockLost, m)
          else
            let m1 = m\<lparr>im_setCount := im_setCount m + 1\<rparr>;
                m2 = (if im_setCount m1 mod evictInterval = 0
                      then sweepExpiredLocked (clk 1) (clk 2) iks lks evictBudget m1 else m1)
            in (case map_of (im_locks m2) key of
                  None \<Rightarrow> (Some IdLockLost, m2)
                | Some l' \<Rightarrow>
                    if ConstantTimeCompare (ml_token l') token \<noteq> 1 then (Some IdLockLost, m2)
                    else (None, m2\<lparr>im_items := AList.update key
                                     \<lparr>me_resp = copyResponseForStorage resp, me_fingerprint = ml_fingerprint l, me_expiresAt = clk 3 + ttl\<rparr>
                                     (im_items m2),
                                   im_locks := AList.delete key (im_locks m2)\<rparr>))))))"

definition im_TryLock ::
    "ctxt \<Rightarrow> (nat \<Rightarrow> time) \<Rightarrow> string list \<Rightarrow> string option \<Rightarrow> string \<Rightarrow> string option \<Rightarrow> duration \<Rightarrow> imem \<Rightarrow>
     (idem_error + string \<times> bool \<times> bool) \<times> imem" where
  "im_TryLock ctx clk lks rnd key fingerprint ttl m =
     (case ctxErr ctx of
        Some e \<Rightarrow> (Inl e, m)
      | None \<Rightarrow>
     (case ValidateStorageKey key of
        Some e \<Rightarrow> (Inl e, m)
      | None \<Rightarrow>
     if ttl \<le> 0 then (Inl IdInvalidTTL, m)
     else
       let m1 = m\<lparr>im_tryLockCount := im_tryLockCount m + 1\<rparr>;
           m2 = (if length (im_locks m1) \<ge> memoryStoreMaxEntries \<or> im_tryLockCount m1 mod tryLockEvictInterval = 0
                 then sweepExpiredLocksLocked (clk 1) lks evictBudget m1 else m1);
           acquire = (case GenerateToken rnd of
                        Inl e \<Rightarrow> (Inl e, m2)
                      | Inr token \<Rightarrow>
                          (Inr (token, False, True),
                           m2\<lparr>im_locks := AList.update key
                                \<lparr>ml_token = token, ml_fingerprint = fingerprint, ml_expiresAt = clk 0 + ttl\<rparr>
                                (im_locks m2)\<rparr>));
           lock = (case map_of (im_locks m2) key of
                     Some l \<Rightarrow>
                       if \<not> clk 0 > ml_expiresAt l
                       then (Inr ([], fp_mismatch fingerprint (ml_fingerprint l), False), m2)
                       else acquire
                   | None \<Rightarrow> acquire)
       in (case map_of (im_items m2) key of
             Some entry \<Rightarrow>
               if \<not> clk 0 > me_expiresAt entry
               then (Inr ([], fp_mismatch fingerprint (me_fingerprint entry), False), m2)
               else lock
           | None \<Rightarrow> lock)))"

definition im_Unlock :: "ctxt \<Rightarrow> string \<Rightarrow> string \<Rightarrow> imem \<Rightarrow> idem_error option \<times> imem" where
  "im_Unlock ctx key token m =
     (case ctxErr ctx of
        Some e \<Rightarrow> (Some e, m)
      | None \<Rightarrow>
     (case ValidateStorageKey key of
        Some e \<Rightarrow> (Some e, m)
      | None \<Rightarrow>
     (case map_of (im_locks m) key of
        None \<Rightarrow> (None, m)
      | Some l \<Rightarrow>
          if ConstantTimeCompare (ml_token l) token = 1
          then (None, m\<lparr>im_locks := AList.delete key (im_locks m)\<rparr>)
          else (None, m))))"

text \<open>\<^verbatim>\<open>Run\<close>: how it starts, what one tick of the ticker does, and what it does when it returns.\<close>

definition Run_begin :: "ctxt \<Rightarrow> imem \<Rightarrow> idem_error option \<times> imem" where
  "Run_begin ctx m =
     (if case_ctxt True (\<lambda>_. False) ctx then (Some IdNilContext, m)
      else if im_started m then (Some IdAlreadyStarted, m)
      else (None, m\<lparr>im_started := True\<rparr>))"

definition Run_tick :: "(nat \<Rightarrow> time) \<Rightarrow> string list \<Rightarrow> string list \<Rightarrow> imem \<Rightarrow> imem" where
  "Run_tick clk iks lks m = sweepExpiredLocked (clk 0) (clk 1) iks lks evictBudget m"

definition Run_end :: "imem \<Rightarrow> imem" where
  "Run_end m = m\<lparr>im_started := False\<rparr>"

end
