(* ===== verification/Idempotency_Safety.thy ===== *)
theory Idempotency_Safety
  imports Idempotency
begin

text \<open>
  What the memory store of \<^verbatim>\<open>data/idempotency/memorystore.go\<close> guarantees over arbitrary sequences of
  calls.  The state of one key is the pair of its stored response and its lock; \<open>idem_move\<close> lists
  what a call can do to that pair, and every operation, with its opportunistic sweeps, is shown to
  be one of these moves.
\<close>

section \<open>Runs\<close>

datatype idem_op =
    OpGet imem string "string option"
  | OpTryLock "string list" "string option" string "string option" duration
  | OpSet "string list" "string list" string string cached_response duration
  | OpUnlock string string
  | OpTick "string list" "string list"
  | OpRun
  | OpStop

type_synonym idem_event = "ctxt \<times> (nat \<Rightarrow> time) \<times> idem_op"

text \<open>The snapshot of a \<^verbatim>\<open>Get\<close> is whatever the call saw before.\<close>

fun idem_step :: "idem_event \<Rightarrow> imem \<Rightarrow> imem" where
  "idem_step (ctx, clk, OpGet seen key fp) m = snd (im_Get ctx clk key fp seen m)"
| "idem_step (ctx, clk, OpTryLock lks rnd key fp ttl) m = snd (im_TryLock ctx clk lks rnd key fp ttl m)"
| "idem_step (ctx, clk, OpSet iks lks key token resp ttl) m = snd (im_Set ctx clk iks lks key token resp ttl m)"
| "idem_step (ctx, clk, OpUnlock key token) m = snd (im_Unlock ctx key token m)"
| "idem_step (ctx, clk, OpTick iks lks) m = Run_tick clk iks lks m"
| "idem_step (ctx, clk, OpRun) m = snd (Run_begin ctx m)"
| "idem_step (ctx, clk, OpStop) m = Run_end m"

definition idem_run :: "idem_event list \<Rightarrow> imem \<Rightarrow> imem" where
  "idem_run evs m = fold idem_step evs m"

section \<open>The moves of one key\<close>

definition lapses :: "('a \<Rightarrow> time) \<Rightarrow> (nat \<Rightarrow> time) \<Rightarrow> 'a option \<Rightarrow> 'a option \<Rightarrow> bool" where
  "lapses expiry clk x x' \<longleftrightarrow> x' = x \<or> (x' = None \<and> (\<exists>e n. x = Some e \<and> clk n > expiry e))"

definition over :: "('a \<Rightarrow> time) \<Rightarrow> (nat \<Rightarrow> time) \<Rightarrow> 'a option \<Rightarrow> bool" where
  "over expiry clk x \<longleftrightarrow> (\<forall>e. x = Some e \<longrightarrow> (\<exists>n. clk n > expiry e))"

inductive idem_move ::
    "idem_event \<Rightarrow> string \<Rightarrow> mem_entry option \<times> mem_lock option \<Rightarrow> mem_entry option \<times> mem_lock option \<Rightarrow> bool" where
  idle: "lapses me_expiresAt clk i i' \<Longrightarrow> lapses ml_expiresAt clk l l' \<Longrightarrow> idem_move (ctx, clk, op) k (i, l) (i', l')"
| acquire: "over me_expiresAt clk i \<Longrightarrow> over ml_expiresAt clk l \<Longrightarrow> 0 < ttl \<Longrightarrow>
    idem_move (ctx, clk, OpTryLock lks (Some b) k fp ttl) k (i, l)
      (i, Some \<lparr>ml_token = hex_encode b, ml_fingerprint = fp, ml_expiresAt = clk 0 + ttl\<rparr>)"
| complete: "clk 0 \<le> ml_expiresAt l \<Longrightarrow> 0 < ttl \<Longrightarrow> ValidateCachedResponse resp = None \<Longrightarrow>
    idem_move (ctx, clk, OpSet iks lks k (ml_token l) resp ttl) k (i, Some l)
      (Some \<lparr>me_resp = copyResponseForStorage resp, me_fingerprint = ml_fingerprint l, me_expiresAt = clk 3 + ttl\<rparr>, None)"
| release: "idem_move (ctx, clk, OpUnlock k (ml_token l)) k (i, Some l) (i, None)"

inductive_cases idem_moveE: "idem_move ev k x y"

definition key_state :: "imem \<Rightarrow> string \<Rightarrow> mem_entry option \<times> mem_lock option" where
  "key_state m k = (map_of (im_items m) k, map_of (im_locks m) k)"

lemma ConstantTimeCompare_1 [simp]: "ConstantTimeCompare x y = 1 \<longleftrightarrow> x = y"
  by (simp add: ConstantTimeCompare_def)

lemma fp_mismatch_iff: "fp_mismatch fp stored \<longleftrightarrow> fp \<noteq> None \<and> stored \<noteq> fp"
  by (auto simp: fp_mismatch_def split: option.split)

lemma lapses_refl [simp]: "lapses ex clk x x"
  by (simp add: lapses_def)

lemma lapses_range_delete:
  "lapses ex clk (map_of s k) (map_of (range_delete (\<lambda>e. ex e < clk n) ks s) k)"
  by (auto simp: lapses_def gomap_simps split: option.split)

lemma sweep_items [simp]: "im_items (sweepExpiredLocksLocked now ks b m) = im_items m"
  by (simp add: sweepExpiredLocksLocked_def)

lemma key_state_sweep:
  "lapses me_expiresAt clk (map_of (im_items m) k) (map_of (im_items (sweepExpiredLocked (clk i) (clk j) iks lks b m)) k)"
  "lapses ml_expiresAt clk (map_of (im_locks m) k) (map_of (im_locks (sweepExpiredLocked (clk i) (clk j) iks lks b m)) k)"
  "lapses ml_expiresAt clk (map_of (im_locks m) k) (map_of (im_locks (sweepExpiredLocksLocked (clk i) lks b m)) k)"
  by (simp_all add: sweepExpiredLocked_def sweepExpiredLocksLocked_def lapses_range_delete)

lemma move_Get: "idem_move (ctx, clk, OpGet seen key fp) k (key_state m k) (key_state (snd (im_Get ctx clk key fp seen m)) k)"
proof -
  have r: "lapses me_expiresAt clk (map_of (im_items m) k) (map_of (im_items (snd (recheckExpiredEntry (clk 1) key m))) k)"
    "im_locks (snd (recheckExpiredEntry (clk 1) key m)) = im_locks m"
    by (auto simp: recheckExpiredEntry_def lapses_def gomap_simps split: option.split)
  have "snd (im_Get ctx clk key fp seen m) \<in> {m, snd (recheckExpiredEntry (clk 1) key m)}"
    by (auto simp: im_Get_def Let_def split: option.split prod.split)
  then show ?thesis unfolding key_state_def using r by (auto intro: idem_move.idle)
qed

text \<open>\<^verbatim>\<open>TryLock\<close> after its sweep.\<close>

definition trylock_swept :: "(nat \<Rightarrow> time) \<Rightarrow> string list \<Rightarrow> imem \<Rightarrow> imem" where
  "trylock_swept clk lks m =
     (let m1 = m\<lparr>im_tryLockCount := im_tryLockCount m + 1\<rparr>
      in if length (im_locks m1) \<ge> memoryStoreMaxEntries \<or> im_tryLockCount m1 mod tryLockEvictInterval = 0
         then sweepExpiredLocksLocked (clk 1) lks evictBudget m1 else m1)"

lemma trylock_swept_state:
  "im_items (trylock_swept clk lks m) = im_items m"
  "lapses ml_expiresAt clk (map_of (im_locks m) k) (map_of (im_locks (trylock_swept clk lks m)) k)"
  using key_state_sweep(3) [of clk "m\<lparr>im_tryLockCount := im_tryLockCount m + 1\<rparr>" k 1 lks evictBudget]
  by (simp_all add: trylock_swept_def Let_def)

lemma im_TryLock_eq:
  "im_TryLock ctx clk lks rnd key fingerprint ttl m =
     (case ctxErr ctx of
        Some e \<Rightarrow> (Inl e, m)
      | None \<Rightarrow>
     (case ValidateStorageKey key of
        Some e \<Rightarrow> (Inl e, m)
      | None \<Rightarrow>
     if ttl \<le> 0 then (Inl IdInvalidTTL, m)
     else
       let m2 = trylock_swept clk lks m;
           acquire = (case GenerateToken rnd of
                        Inl e \<Rightarrow> (Inl e, m2)
                      | Inr token \<Rightarrow>
                          (Inr (token, False, True),
                           m2\<lparr>im_locks := AList.update key
                                \<lparr>ml_token = token, ml_fingerprint = fingerprint, ml_expiresAt = clk 0 + ttl\<rparr>
                                (im_locks m2)\<rparr>));
           lock = (case map_of (im_locks m2) key of
                     Some l \<Rightarrow>
                       if \<not> clk 0 > ml_expiresAt l
                       then (Inr ([], fp_mismatch fingerprint (ml_fingerprint l), False), m2)
                       else acquire
                   | None \<Rightarrow> acquire)
       in (case map_of (im_items m2) key of
             Some entry \<Rightarrow>
               if \<not> clk 0 > me_expiresAt entry
               then (Inr ([], fp_mismatch fingerprint (me_fingerprint entry), False), m2)
               else lock
           | None \<Rightarrow> lock)))"
  unfolding im_TryLock_def trylock_swept_def Let_def by (rule refl)

lemma im_TryLock_cases:
  obtains (refused) r where "im_TryLock ctx clk lks rnd key fp ttl m = (r, m)" "\<forall>t b. r \<noteq> Inr (t, b, True)"
  | (busy) r where "im_TryLock ctx clk lks rnd key fp ttl m = (r, trylock_swept clk lks m)" "\<forall>t b. r \<noteq> Inr (t, b, True)"
  | (acquired) bs where "rnd = Some bs" "0 < ttl" "over me_expiresAt clk (map_of (im_items m) key)"
      "over ml_expiresAt clk (map_of (im_locks (trylock_swept clk lks m)) key)"
      "im_TryLock ctx clk lks rnd key fp ttl m =
        (Inr (hex_encode bs, False, True), (trylock_swept clk lks m)\<lparr>im_locks := AList.update key
           \<lparr>ml_token = hex_encode bs, ml_fingerprint = fp, ml_expiresAt = clk 0 + ttl\<rparr> (im_locks (trylock_swept clk lks m))\<rparr>)"
proof -
  let ?M = "trylock_swept clk lks m"
  let ?lost = "case map_of (im_items m) key of Some e \<Rightarrow> \<not> clk 0 > me_expiresAt e | None \<Rightarrow> False"
  let ?held = "case map_of (im_locks ?M) key of Some l \<Rightarrow> \<not> clk 0 > ml_expiresAt l | None \<Rightarrow> False"
  consider "ctxErr ctx \<noteq> None \<or> ValidateStorageKey key \<noteq> None \<or> ttl \<le> 0"
    | "ctxErr ctx = None" "ValidateStorageKey key = None" "0 < ttl" ?lost
    | "ctxErr ctx = None" "ValidateStorageKey key = None" "0 < ttl" "\<not> ?lost" ?held
    | "ctxErr ctx = None" "ValidateStorageKey key = None" "0 < ttl" "\<not> ?lost" "\<not> ?held" by fastforce
  then show thesis
  proof cases
    case 1
    then have "\<exists>e. im_TryLock ctx clk lks rnd key fp ttl m = (Inl e, m)" by (auto simp: im_TryLock_def split: option.split)
    then show ?thesis using refused by blast
  next
    case 2
    then show ?thesis
      by (cases "map_of (im_items m) key")
         (auto simp: im_TryLock_eq Let_def trylock_swept_state intro!: busy)
  next
    case 3
    then show ?thesis
      by (cases "map_of (im_items m) key"; cases "map_of (im_locks ?M) key")
         (auto simp: im_TryLock_eq Let_def trylock_swept_state intro!: busy)
  next
    case 4
    have *: "im_TryLock ctx clk lks rnd key fp ttl m =
       (case GenerateToken rnd of Inl e \<Rightarrow> (Inl e, ?M)
        | Inr token \<Rightarrow> (Inr (token, False, True), ?M\<lparr>im_locks := AList.update key
           \<lparr>ml_token = token, ml_fingerprint = fp, ml_expiresAt = clk 0 + ttl\<rparr> (im_locks ?M)\<rparr>))"
      using 4 by (cases "map_of (im_items m) key"; cases "map_of (im_locks ?M) key")
         (auto simp: im_TryLock_eq Let_def trylock_swept_state)
    show ?thesis
    proof (cases rnd)
      case None
      then show ?thesis using * by (auto simp: GenerateToken_def intro: busy)
    next
      case (Some b)
      then show ?thesis using * 4 by (intro acquired [of b]) (auto simp: GenerateToken_def over_def split: option.splits)
    qed
  qed
qed

lemma over_lapsed: "lapses ex clk x x' \<Longrightarrow> over ex clk x' \<Longrightarrow> over ex clk x"
  by (auto simp: over_def lapses_def)

lemma move_TryLock:
  "idem_move (ctx, clk, OpTryLock lks rnd key fp ttl) k (key_state m k)
     (key_state (snd (im_TryLock ctx clk lks rnd key fp ttl m)) k)"
proof (cases rule: im_TryLock_cases [of ctx clk lks rnd key fp ttl m])
  case (refused r)
  then show ?thesis by (simp add: key_state_def idem_move.idle)
next
  case (busy r)
  then show ?thesis by (simp add: key_state_def idem_move.idle trylock_swept_state)
next
  case (acquired bs)
  show ?thesis
  proof (cases "k = key")
    case True
    have "over ml_expiresAt clk (map_of (im_locks m) k)"
      using over_lapsed [OF trylock_swept_state(2)] acquired(4) True by simp
    then show ?thesis
      using acquired True
      by (auto simp: key_state_def gomap_simps trylock_swept_state intro: idem_move.acquire)
  next
    case False
    then show ?thesis using acquired(5) by (simp add: key_state_def idem_move.idle trylock_swept_state gomap_simps)
  qed
qed

text \<open>\<^verbatim>\<open>Set\<close> after its sweep.\<close>

definition set_swept :: "(nat \<Rightarrow> time) \<Rightarrow> string list \<Rightarrow> string list \<Rightarrow> imem \<Rightarrow> imem" where
  "set_swept clk iks lks m =
     (let m1 = m\<lparr>im_setCount := im_setCount m + 1\<rparr>
      in if im_setCount m1 mod evictInterval = 0
         then sweepExpiredLocked (clk 1) (clk 2) iks lks evictBudget m1 else m1)"

lemma set_swept_state:
  "lapses me_expiresAt clk (map_of (im_items m) k) (map_of (im_items (set_swept clk iks lks m)) k)"
  "lapses ml_expiresAt clk (map_of (im_locks m) k) (map_of (im_locks (set_swept clk iks lks m)) k)"
  by (simp_all add: set_swept_def Let_def sweepExpiredLocked_def sweepExpiredLocksLocked_def lapses_range_delete)

lemma copyResponseForStorage_eq:
  "copyResponseForStorage resp = (if cr_Body resp = Some [] then resp\<lparr>cr_Body := None\<rparr> else resp)"
  by (simp add: copyResponseForStorage_def split: option.split)

lemma im_Set_eq:
  "im_Set ctx clk iks lks key token resp ttl m =
     (case ctxErr ctx of
        Some e \<Rightarrow> (Some e, m)
      | None \<Rightarrow>
     (case ValidateStorageKey key of
        Some e \<Rightarrow> (Some e, m)
      | None \<Rightarrow>
     if ttl \<le> 0 then (Some IdInvalidTTL, m)
     else
     (case ValidateCachedResponse resp of
        Some e \<Rightarrow> (Some e, m)
      | None \<Rightarrow>
     (case map_of (im_locks m) key of
        None \<Rightarrow> (Some IdLockLost, m)
      | Some l \<Rightarrow>
          if ConstantTimeCompare (ml_token l) token \<noteq> 1 \<or> clk 0 > ml_expiresAt l then (Some IdLockLost, m)
          else
            let m2 = set_swept clk iks lks m
            in (case map_of (im_locks m2) key of
                  None \<Rightarrow> (Some IdLockLost, m2)
                | Some l' \<Rightarrow>
                    if ConstantTimeCompare (ml_token l') token \<noteq> 1 then (Some IdLockLost, m2)
                    else (None, m2\<lparr>im_items := AList.update key
                                     \<lparr>me_resp = copyResponseForStorage resp, me_fingerprint = ml_fingerprint l, me_expiresAt = clk 3 + ttl\<rparr>
                                     (im_items m2),
                                   im_locks := AList.delete key (im_locks m2)\<rparr>))))))"
  unfolding im_Set_def set_swept_def Let_def by (rule refl)

lemma im_Set_cases:
  obtains (refused) e where "im_Set ctx clk iks lks key token resp ttl m = (Some e, m)"
  | (lost) "im_Set ctx clk iks lks key token resp ttl m = (Some IdLockLost, set_swept clk iks lks m)"
  | (stored) l where "map_of (im_locks m) key = Some l" "ml_token l = token" "clk 0 \<le> ml_expiresAt l" "0 < ttl"
      "ValidateCachedResponse resp = None" "im_Set ctx clk iks lks key token resp ttl m =
        (None, (set_swept clk iks lks m)\<lparr>im_items := AList.update key
           \<lparr>me_resp = copyResponseForStorage resp, me_fingerprint = ml_fingerprint l, me_expiresAt = clk 3 + ttl\<rparr> (im_items (set_swept clk iks lks m)),
           im_locks := AList.delete key (im_locks (set_swept clk iks lks m))\<rparr>)"
proof -
  let ?M = "set_swept clk iks lks m"
  let ?own = "\<exists>l. map_of (im_locks m) key = Some l \<and> ml_token l = token \<and> \<not> clk 0 > ml_expiresAt l"
  consider "ctxErr ctx \<noteq> None \<or> ValidateStorageKey key \<noteq> None \<or> ttl \<le> 0 \<or> ValidateCachedResponse resp \<noteq> None \<or> \<not> ?own"
    | l where "ctxErr ctx = None" "ValidateStorageKey key = None" "0 < ttl" "ValidateCachedResponse resp = None"
        "map_of (im_locks m) key = Some l" "ml_token l = token" "\<not> clk 0 > ml_expiresAt l" by fastforce
  then show thesis
  proof cases
    case 1
    then have "\<exists>e. im_Set ctx clk iks lks key token resp ttl m = (Some e, m)"
      by (cases "map_of (im_locks m) key") (auto simp: im_Set_def split: option.split)
    then show ?thesis using refused by blast
  next
    case 2
    then have *: "im_Set ctx clk iks lks key token resp ttl m =
       (case map_of (im_locks ?M) key of
          None \<Rightarrow> (Some IdLockLost, ?M)
        | Some l' \<Rightarrow> if ml_token l' \<noteq> token then (Some IdLockLost, ?M)
            else (None, ?M\<lparr>im_items := AList.update key
           \<lparr>me_resp = copyResponseForStorage resp, me_fingerprint = ml_fingerprint l, me_expiresAt = clk 3 + ttl\<rparr> (im_items ?M),
           im_locks := AList.delete key (im_locks ?M)\<rparr>))"
      by (simp add: im_Set_eq Let_def split: option.split)
    show ?thesis
    proof (cases "map_of (im_locks ?M) key")
      case None
      then show ?thesis using * lost by simp
    next
      case (Some l')
      then have "l' = l" using set_swept_state(2) [of clk m key iks lks] 2 by (auto simp: lapses_def)
      then show ?thesis using * Some 2 stored [of l] by simp
    qed
  qed
qed

lemma move_Set:
  "idem_move (ctx, clk, OpSet iks lks key token resp ttl) k (key_state m k)
     (key_state (snd (im_Set ctx clk iks lks key token resp ttl m)) k)"
proof (cases rule: im_Set_cases [of ctx clk iks lks key token resp ttl m])
  case (refused e)
  then show ?thesis by (simp add: key_state_def idem_move.idle)
next
  case lost
  then show ?thesis by (simp add: key_state_def idem_move.idle set_swept_state)
next
  case (stored l)
  then show ?thesis
    by (cases "k = key") (auto simp: key_state_def gomap_simps set_swept_state intro: idem_move.complete idem_move.idle)
qed

lemma move_Unlock:
  "idem_move (ctx, clk, OpUnlock key token) k (key_state m k) (key_state (snd (im_Unlock ctx key token m)) k)"
proof -
  have "snd (im_Unlock ctx key token m) = m \<or>
      (\<exists>l. map_of (im_locks m) key = Some l \<and> ml_token l = token \<and>
        snd (im_Unlock ctx key token m) = m\<lparr>im_locks := AList.delete key (im_locks m)\<rparr>)"
    by (auto simp: im_Unlock_def split: option.split)
  then show ?thesis
    by (cases "k = key") (auto simp: key_state_def gomap_simps intro: idem_move.release idem_move.idle)
qed

lemma idem_step_move: "idem_move ev k (key_state m k) (key_state (idem_step ev m) k)"
proof -
  obtain ctx clk op where "ev = (ctx, clk, op)" by (cases ev)
  moreover have "idem_move (ctx, clk, op') k (key_state m k) (key_state (Run_tick clk iks lks m) k)" for op' iks lks
    by (simp add: key_state_def Run_tick_def idem_move.idle key_state_sweep)
  moreover have "key_state (snd (Run_begin ctx m)) k = key_state m k" "key_state (Run_end m) k = key_state m k"
    by (simp_all add: key_state_def Run_begin_def Run_end_def)
  moreover have "idem_move (ctx, clk, op') k (key_state m k) (key_state m k)" for op'
    by (simp add: key_state_def idem_move.idle)
  ultimately show ?thesis by (cases op) (simp_all add: move_Get move_TryLock move_Set move_Unlock)
qed

section \<open>A stored response is replayed\<close>

definition within :: "time \<Rightarrow> idem_event \<Rightarrow> bool" where
  "within t ev = (\<forall>i. fst (snd ev) i \<le> t)"

lemma idem_run_invariant:
  assumes "\<And>ev m. ev \<in> set evs \<Longrightarrow> P m \<Longrightarrow> P (idem_step ev m)" and "P m"
  shows "P (idem_run evs m)"
  using assms unfolding idem_run_def by (induction evs arbitrary: m) auto

lemma stored_stays:
  assumes "key_state m k = (Some e, None)" and "within (me_expiresAt e) ev"
  shows "key_state (idem_step ev m) k = (Some e, None)"
proof -
  have lt: "\<not> me_expiresAt e < fst (snd ev) n" for n using assms(2) by (simp add: within_def not_less)
  show ?thesis
    using idem_step_move [of ev k m] lt unfolding assms(1) by cases (auto simp: lapses_def over_def)
qed

lemma stored_run:
  assumes "key_state m k = (Some e, None)" and "\<forall>ev \<in> set evs. within (me_expiresAt e) ev"
  shows "key_state (idem_run evs m) k = (Some e, None)"
  by (rule idem_run_invariant [where P = "\<lambda>m. key_state m k = (Some e, None)"]) (use assms stored_stays in auto)

text \<open>
  Property C11.  At most one execution per key.  After a \<^verbatim>\<open>Set\<close> that succeeded, and until the stored
  response expires, whatever calls are made by anybody, with or without the background sweeper,
  \<^verbatim>\<open>TryLock\<close> never grants the key again, and \<^verbatim>\<open>Get\<close> replays exactly the response given to \<^verbatim>\<open>Set\<close> (an
  empty body that is not nil comes back as nil) to a caller that presents the fingerprint of the request that was executed (or none), and reports a
  mismatch to every other caller.
\<close>

theorem idem_replay:
  assumes "im_Set ctx clk iks lks key token resp ttl m = (None, m')"
    and "\<forall>ev \<in> set evs. within (clk 3 + ttl) ev" and "\<forall>i. clk' i \<le> clk 3 + ttl"
    and "map_of (im_locks m) key = Some l" and "m'' = idem_run evs m'"
  shows "(\<forall>ctx' lks' rnd fp ttl' t b. fst (im_TryLock ctx' clk' lks' rnd key fp ttl' m'') \<noteq> Inr (t, b, True))
    \<and> (\<forall>fp. fst (im_Get background clk' key fp m'' m'') =
          Inr (if fp = None \<or> fp = ml_fingerprint l
               then (Some (if cr_Body resp = Some [] then resp\<lparr>cr_Body := None\<rparr> else resp), False) else (None, True)))"
proof -
  define e where "e = \<lparr>me_resp = copyResponseForStorage resp, me_fingerprint = ml_fingerprint l, me_expiresAt = clk 3 + ttl\<rparr>"
  have st: "key_state m' key = (Some e, None)" and v: "ValidateCachedResponse resp = None"
    by (cases rule: im_Set_cases [of ctx clk iks lks key token resp ttl m];
        use assms(1,4) in \<open>auto simp: key_state_def gomap_simps e_def\<close>)+
  have key: "ValidateStorageKey key = None" using assms(1) by (auto simp: im_Set_def split: option.splits)
  have now: "key_state m'' key = (Some e, None)"
    using stored_run [OF st] assms(2,5) by (simp add: e_def)
  have le: "\<not> me_expiresAt e < clk' i" for i using assms(3) by (simp add: e_def not_less)
  have "fst (im_TryLock ctx' clk' lks' rnd key fp ttl' m'') \<noteq> Inr (t, b, True)" for ctx' lks' rnd fp ttl' t b
    by (cases rule: im_TryLock_cases [of ctx' clk' lks' rnd key fp ttl' m''])
       (use now le in \<open>auto simp: key_state_def over_def\<close>)
  moreover have "fst (im_Get background clk' key fp m'' m'') =
      Inr (if fp = None \<or> fp = ml_fingerprint l
           then (Some (if cr_Body resp = Some [] then resp\<lparr>cr_Body := None\<rparr> else resp), False) else (None, True))" for fp
    using now le [of 0] key v
    by (auto simp: im_Get_def ctxErr_def key_state_def e_def fp_mismatch_iff cloneResponse_def
        simp flip: copyResponseForStorage_eq)
  ultimately show ?thesis by blast
qed

section \<open>A lock excludes\<close>

definition owner_ends :: "string \<Rightarrow> string \<Rightarrow> idem_event \<Rightarrow> bool" where
  "owner_ends key token ev =
     (case snd (snd ev) of
        OpSet iks lks k t resp ttl \<Rightarrow> k = key \<and> t = token
      | OpUnlock k t \<Rightarrow> k = key \<and> t = token
      | _ \<Rightarrow> False)"

lemma lock_stays:
  assumes "snd (key_state m k) = Some l" and "within (ml_expiresAt l) ev" and "\<not> owner_ends k (ml_token l) ev"
  shows "snd (key_state (idem_step ev m) k) = Some l"
proof -
  obtain i where ks: "key_state m k = (i, Some l)" using assms(1) by (cases "key_state m k") simp
  have lt: "\<not> ml_expiresAt l < fst (snd ev) n" for n using assms(2) by (simp add: within_def not_less)
  show ?thesis
    using idem_step_move [of ev k m] lt assms(3) unfolding ks by cases (auto simp: lapses_def over_def owner_ends_def)
qed

lemma lock_run:
  assumes "snd (key_state m k) = Some l"
    and "\<forall>ev \<in> set evs. within (ml_expiresAt l) ev \<and> \<not> owner_ends k (ml_token l) ev"
  shows "snd (key_state (idem_run evs m) k) = Some l"
  by (rule idem_run_invariant [where P = "\<lambda>m. snd (key_state m k) = Some l"]) (use assms lock_stays in auto)

text \<open>
  Property C12.  A lock excludes, and lets its holder finish.  After a \<^verbatim>\<open>TryLock\<close> that granted the
  key, and until the lock expires or its holder ends it, whatever calls are made, \<^verbatim>\<open>TryLock\<close> grants
  the key to nobody else and \<^verbatim>\<open>Set\<close> with another token fails with \<^verbatim>\<open>ErrLockLost\<close>, while the holder's
  \<^verbatim>\<open>Set\<close> of a valid response succeeds and records the fingerprint presented to \<^verbatim>\<open>TryLock\<close>.
\<close>

theorem idem_lock_exclusive:
  assumes "im_TryLock ctx clk lks rnd key fp ttl m = (Inr (token, b, True), m')"
    and "\<forall>ev \<in> set evs. within (clk 0 + ttl) ev \<and> \<not> owner_ends key token ev"
    and "\<forall>i. clk' i \<le> clk 0 + ttl" and "m'' = idem_run evs m'"
    and "ValidateCachedResponse resp = None" and "0 < ttl'"
  shows "(\<forall>ctx' lks' rnd' fp' d t c. fst (im_TryLock ctx' clk' lks' rnd' key fp' d m'') \<noteq> Inr (t, c, True))
    \<and> (\<forall>iks' lks' t. t \<noteq> token \<longrightarrow> im_Set background clk' iks' lks' key t resp ttl' m'' = (Some IdLockLost, m''))
    \<and> (\<forall>iks' lks'. fst (im_Set background clk' iks' lks' key token resp ttl' m'') = None \<and>
          map_of (im_items (snd (im_Set background clk' iks' lks' key token resp ttl' m''))) key =
            Some \<lparr>me_resp = copyResponseForStorage resp, me_fingerprint = fp, me_expiresAt = clk' 3 + ttl'\<rparr>)"
proof -
  define l where "l = \<lparr>ml_token = token, ml_fingerprint = fp, ml_expiresAt = clk 0 + ttl\<rparr>"
  have st: "snd (key_state m' key) = Some l"
    by (cases rule: im_TryLock_cases [of ctx clk lks rnd key fp ttl m])
       (use assms(1) in \<open>auto simp: key_state_def gomap_simps l_def\<close>)
  have key: "ValidateStorageKey key = None" using assms(1) by (auto simp: im_TryLock_def split: option.splits)
  have now: "map_of (im_locks m'') key = Some l"
    using lock_run [OF st] assms(2,4) by (simp add: l_def key_state_def)
  have le: "\<not> ml_expiresAt l < clk' i" for i using assms(3) by (simp add: l_def not_less)
  have sw: "lapses ml_expiresAt clk' (Some l) (map_of (im_locks (trylock_swept clk' lks' m'')) key)"
    "lapses ml_expiresAt clk' (Some l) (map_of (im_locks (set_swept clk' iks' lks' m'')) key)" for iks' lks'
    using trylock_swept_state(2) [of clk' m'' key] set_swept_state(2) [of clk' m'' key] by (simp_all add: now)
  have "fst (im_TryLock ctx' clk' lks' rnd' key fp' d m'') \<noteq> Inr (t, c, True)" for ctx' lks' rnd' fp' d t c
    by (cases rule: im_TryLock_cases [of ctx' clk' lks' rnd' key fp' d m''])
       (use sw(1) [of lks'] le in \<open>auto simp: over_def lapses_def\<close>)
  moreover have "im_Set background clk' iks' lks' key t resp ttl' m'' = (Some IdLockLost, m'')" if "t \<noteq> token" for iks' lks' t
    using that now key assms(5,6) by (simp add: im_Set_def ctxErr_def l_def)
  moreover have "fst (im_Set background clk' iks' lks' key token resp ttl' m'') = None \<and>
      map_of (im_items (snd (im_Set background clk' iks' lks' key token resp ttl' m''))) key =
        Some \<lparr>me_resp = copyResponseForStorage resp, me_fingerprint = fp, me_expiresAt = clk' 3 + ttl'\<rparr>" for iks' lks'
  proof -
    have "map_of (im_locks (set_swept clk' iks' lks' m'')) key = Some l" using sw(2) le by (auto simp: lapses_def)
    moreover have "ml_token l = token" "ml_fingerprint l = fp" by (simp_all add: l_def)
    ultimately show ?thesis
      using now key assms(5,6) le by (simp add: im_Set_eq ctxErr_def Let_def gomap_simps)
  qed
  ultimately show ?thesis by blast
qed

section \<open>Where a stored response comes from\<close>

definition granted_by :: "idem_event list \<Rightarrow> string \<Rightarrow> string \<Rightarrow> string option \<Rightarrow> idem_event \<Rightarrow> bool" where
  "granted_by evs k token fp ev \<longleftrightarrow>
     ev \<in> set evs \<and> (\<exists>ctx clk lks b ttl. ev = (ctx, clk, OpTryLock lks (Some b) k fp ttl) \<and> token = hex_encode b)"

definition written_by :: "string \<Rightarrow> string \<Rightarrow> mem_entry \<Rightarrow> idem_event \<Rightarrow> bool" where
  "written_by k token e ev \<longleftrightarrow>
     (\<exists>ctx clk iks lks resp ttl. ev = (ctx, clk, OpSet iks lks k token resp ttl) \<and> me_resp e = copyResponseForStorage resp
        \<and> me_expiresAt e = clk 3 + ttl)"

definition item_source :: "idem_event list \<Rightarrow> string \<Rightarrow> mem_entry \<Rightarrow> bool" where
  "item_source evs k e \<longleftrightarrow> ValidateCachedResponse (me_resp e) = None \<and>
     (\<exists>token ev ev'. granted_by evs k token (me_fingerprint e) ev \<and> written_by k token e ev' \<and> subseq [ev, ev'] evs)"

definition lock_source :: "idem_event list \<Rightarrow> string \<Rightarrow> mem_lock \<Rightarrow> bool" where
  "lock_source evs k l \<longleftrightarrow> (\<exists>ev. granted_by evs k (ml_token l) (ml_fingerprint l) ev)"

definition sourced :: "idem_event list \<Rightarrow> string \<Rightarrow> mem_entry option \<times> mem_lock option \<Rightarrow> bool" where
  "sourced evs k x \<longleftrightarrow> pred_option (item_source evs k) (fst x) \<and> pred_option (lock_source evs k) (snd x)"

lemma granted_by_snoc: "granted_by evs k token fp ev \<Longrightarrow> granted_by (evs @ [x]) k token fp ev"
  by (auto simp: granted_by_def)

lemma item_source_snoc: "item_source evs k e \<Longrightarrow> item_source (evs @ [x]) k e"
  unfolding item_source_def using granted_by_snoc list_emb_append_mono [of "(=)" _ evs "[]" "[x]"]
  by (metis append_Nil2 list_emb_Nil)

lemma lock_source_snoc: "lock_source evs k l \<Longrightarrow> lock_source (evs @ [x]) k l"
  unfolding lock_source_def using granted_by_snoc by blast

lemma sourced_mono:
  assumes "sourced evs k (i, l)" and "i' = i \<or> i' = None" and "l' = l \<or> l' = None"
  shows "sourced (evs @ [ev]) k (i', l')"
  using assms by (auto simp: sourced_def option.pred_set item_source_snoc lock_source_snoc)

lemma lock_source_acquire:
  "lock_source (evs @ [(ctx, clk, OpTryLock lks (Some b) k fp ttl)]) k
     \<lparr>ml_token = hex_encode b, ml_fingerprint = fp, ml_expiresAt = clk 0 + ttl\<rparr>"
  unfolding lock_source_def granted_by_def by (rule exI [of _ "(ctx, clk, OpTryLock lks (Some b) k fp ttl)"]) auto

lemma item_source_complete:
  assumes "lock_source evs k l" and "ValidateCachedResponse resp = None"
  shows "item_source (evs @ [(ctx, clk, OpSet iks lks k (ml_token l) resp ttl)]) k
     \<lparr>me_resp = copyResponseForStorage resp, me_fingerprint = ml_fingerprint l, me_expiresAt = clk 3 + ttl\<rparr>"
proof -
  let ?ev = "(ctx, clk, OpSet iks lks k (ml_token l) resp ttl)"
  let ?e = "\<lparr>me_resp = copyResponseForStorage resp, me_fingerprint = ml_fingerprint l, me_expiresAt = clk 3 + ttl\<rparr>"
  obtain ev0 where g: "granted_by evs k (ml_token l) (ml_fingerprint l) ev0"
    using assms(1) unfolding lock_source_def by blast
  then have "subseq [ev0] evs" by (simp add: granted_by_def subseq_singleton_left)
  then have "subseq [ev0, ?ev] (evs @ [?ev])" using list_emb_append_mono [of "(=)" "[ev0]" evs "[?ev]" "[?ev]"] by simp
  moreover have "written_by k (ml_token l) ?e ?ev" by (simp add: written_by_def)
  moreover have "granted_by (evs @ [?ev]) k (ml_token l) (me_fingerprint ?e) ev0" using granted_by_snoc [OF g] by simp
  ultimately show ?thesis unfolding item_source_def using assms(2) by (metis mem_entry.select_convs(1) copyResponseForStorage_valid)
qed

lemma sourced_step:
  assumes "idem_move ev k x y" and "sourced evs k x"
  shows "sourced (evs @ [ev]) k y"
  using assms
proof cases
  case (idle clk i i' l l' ctx op)
  then show ?thesis using assms(2) by (auto simp: lapses_def intro: sourced_mono)
next
  case (acquire clk i l ttl ctx lks b fp)
  then show ?thesis using assms(2) sourced_mono [of evs k i l i None ev] lock_source_acquire
    by (simp add: sourced_def)
next
  case (complete clk l ttl resp ctx iks lks i)
  then show ?thesis using assms(2) item_source_complete by (simp add: sourced_def)
next
  case (release ctx clk l i)
  then show ?thesis using assms(2) by (auto intro: sourced_mono)
qed

lemma sourced_run: "sourced evs k (key_state (idem_run evs NewMemoryStore) k)"
proof (induction evs rule: rev_induct)
  case Nil
  then show ?case by (simp add: idem_run_def NewMemoryStore_def key_state_def sourced_def)
next
  case (snoc ev evs)
  then show ?case using sourced_step [OF idem_step_move] by (simp add: idem_run_def)
qed

text \<open>
  Property C33.  Only the holder of a lock writes.  In every store that calls can produce from a
  new one, a stored response is valid and was written by a \<^verbatim>\<open>Set\<close> with a token that an earlier
  \<^verbatim>\<open>TryLock\<close> for the same key had drawn, and the fingerprint kept with the response, against which
  replays are checked, is the one presented to that \<^verbatim>\<open>TryLock\<close>.
\<close>

theorem idem_provenance:
  assumes "map_of (im_items (idem_run evs NewMemoryStore)) k = Some e"
  shows "ValidateCachedResponse (me_resp e) = None \<and>
    (\<exists>ctx clk lks b ttl ctx' clk' iks' lks' resp ttl'.
       subseq [(ctx, clk, OpTryLock lks (Some b) k (me_fingerprint e) ttl),
               (ctx', clk', OpSet iks' lks' k (hex_encode b) resp ttl')] evs \<and>
       me_resp e = copyResponseForStorage resp \<and>
       me_expiresAt e = clk' 3 + ttl')"
proof -
  have "fst (key_state (idem_run evs NewMemoryStore) k) = Some e" using assms by (simp add: key_state_def)
  then have "item_source evs k e" using sourced_run [of evs k] by (simp add: sourced_def)
  then show ?thesis unfolding item_source_def granted_by_def written_by_def by blast
qed

section \<open>An example\<close>

definition ex_resp :: cached_response where
  "ex_resp = \<lparr>cr_StatusCode = 201, cr_Headers = [], cr_Body = Some ''done''\<rparr>"

definition ex_locked :: imem where
  "ex_locked = \<lparr>im_items = [], im_locks = [(''k1'', \<lparr>ml_token = ''41'', ml_fingerprint = Some ''f'', ml_expiresAt = 10\<rparr>)],
     im_started = False, im_setCount = 0, im_tryLockCount = 1\<rparr>"

definition ex_stored :: imem where
  "ex_stored = \<lparr>im_items = [(''k1'', \<lparr>me_resp = ex_resp, me_fingerprint = Some ''f'', me_expiresAt = 103\<rparr>)], im_locks = [],
     im_started = False, im_setCount = 1, im_tryLockCount = 1\<rparr>"

lemma ex_key: "ValidateStorageKey ''k1'' = None"
  by (simp add: ValidateStorageKey_def isTenantStorageKey_def TenantStorageKeyPrefix_def ValidateKey_def MaxKeyLen_def
      containsInvalidKeyRune_ascii hasReservedUserKeyPrefix_def reservedUserKeyPrefixes_def)

lemma ex_resp_valid: "ValidateCachedResponse ex_resp = None"
  by (simp add: ValidateCachedResponse_def ex_resp_def MaxCachedBodyBytes_def MaxCachedHeaders_def MaxCachedHeadersBytes_def)

lemma ex_resp_copy: "copyResponseForStorage ex_resp = ex_resp"
  by (simp add: copyResponseForStorage_def ex_resp_def)

lemma one_mod_100: "1 mod (100 :: 64 word) \<noteq> 0"
  by code_simp

lemma hex_A: "hex_encode ''A'' = ''41''"
  by code_simp

lemma ex_TryLock:
  "im_TryLock background (\<lambda>_. 0) [] (Some ''A'') ''k1'' (Some ''f'') 10 NewMemoryStore = (Inr (''41'', False, True), ex_locked)"
  by (simp add: im_TryLock_def ctxErr_def ex_key NewMemoryStore_def Let_def memoryStoreMaxEntries_def
      tryLockEvictInterval_def one_mod_100 GenerateToken_def hex_A ex_locked_def)

lemma ex_Set: "im_Set background (\<lambda>_. 3) [] [] ''k1'' ''41'' ex_resp 100 ex_locked = (None, ex_stored)"
  by (simp add: im_Set_def ctxErr_def ex_key ex_resp_valid ex_locked_def Let_def evictInterval_def one_mod_100 ex_stored_def
      ex_resp_copy)

theorem idem_lock_exclusive_witness:
  "fst (im_Set background (\<lambda>_. 6) [] [] ''k1'' ''42'' ex_resp 100
     (idem_run [(background, (\<lambda>_. 5), OpTryLock [] (Some ''B'') ''k1'' None 10)] ex_locked)) = Some IdLockLost"
  using idem_lock_exclusive [OF ex_TryLock, of "[(background, (\<lambda>_. 5), OpTryLock [] (Some ''B'') ''k1'' None 10)]"
      "\<lambda>_. 6" _ ex_resp 100] ex_resp_valid
  by (simp add: within_def owner_ends_def)

theorem idem_replay_witness:
  "fst (im_Get background (\<lambda>_. 60) ''k1'' (Some ''f'') (idem_run [(background, (\<lambda>_. 50), OpTick [''k1''] [])] ex_stored)
      (idem_run [(background, (\<lambda>_. 50), OpTick [''k1''] [])] ex_stored)) = Inr (Some ex_resp, False)"
  using idem_replay [OF ex_Set, of "[(background, (\<lambda>_. 50), OpTick [''k1''] [])]" "\<lambda>_. 60"]
  by (simp add: within_def) (simp add: ex_locked_def ex_resp_def)

definition ex_entry :: mem_entry where
  "ex_entry = \<lparr>me_resp = ex_resp, me_fingerprint = Some ''f'', me_expiresAt = 103\<rparr>"

definition ex_calls :: "idem_event list" where
  "ex_calls = [(background, (\<lambda>_. 0), OpTryLock [] (Some ''A'') ''k1'' (Some ''f'') 10),
     (background, (\<lambda>_. 3), OpSet [] [] ''k1'' ''41'' ex_resp 100)]"

theorem idem_provenance_witness:
  "ValidateCachedResponse (me_resp ex_entry) = None \<and>
   (\<exists>ctx clk lks b ttl ctx' clk' iks' lks' resp ttl'.
     subseq [(ctx, clk, OpTryLock lks (Some b) ''k1'' (me_fingerprint ex_entry) ttl),
             (ctx', clk', OpSet iks' lks' ''k1'' (hex_encode b) resp ttl')] ex_calls \<and>
     me_resp ex_entry = copyResponseForStorage resp \<and>
     me_expiresAt ex_entry = clk' 3 + ttl')"
proof (rule idem_provenance)
  have "idem_run ex_calls NewMemoryStore = ex_stored" by (simp add: ex_calls_def idem_run_def ex_TryLock ex_Set)
  then show "map_of (im_items (idem_run ex_calls NewMemoryStore)) ''k1'' = Some ex_entry"
    by (simp add: ex_stored_def ex_entry_def)
qed

end
