(* ===== verification/Idempotency_Tenant.thy ===== *)
theory Idempotency_Tenant
  imports Idempotency_Safety
begin

text \<open>
  The tenant wrapper of \<^verbatim>\<open>data/idempotency/tenant/tenant.go\<close> over any store.  The interface
  \<^verbatim>\<open>idempotency.Store\<close> is the locale \<open>idem_backend\<close>: its law is that an operation on one key leaves
  what can be observed of every other key as it is.  SHA-256 is an argument; where the result
  needs that two keys do not collide, this is a hypothesis on these two keys.
\<close>

section \<open>The wrapper\<close>

definition scopedKey :: "(string \<Rightarrow> string) \<Rightarrow> tenant_ctx \<Rightarrow> string \<Rightarrow> idem_error + string" where
  "scopedKey sha256 tctx raw =
     (case ValidateKey raw of
        Some e \<Rightarrow> Inl e
      | None \<Rightarrow>
     (case Required tctx of
        Inl e \<Rightarrow> Inl (IdTenant e)
      | Inr tid \<Rightarrow>
     (case KeyFor tid [raw] of
        Inl e \<Rightarrow> Inl (IdTenant e)
      | Inr sc \<Rightarrow>
          let storageKey = FormatTenantStorageKey (sha256 sc)
          in case ValidateStorageKey storageKey of
               Some e \<Rightarrow> Inl e
             | None \<Rightarrow> Inr storageKey)))"

definition sc_Get where
  "sc_Get sha256 get tctx ctx clk key fingerprint s =
     (case scopedKey sha256 tctx key of
        Inl e \<Rightarrow> (Inl e, s)
      | Inr sc \<Rightarrow> get ctx clk sc fingerprint s)"

definition sc_TryLock where
  "sc_TryLock sha256 tryLock tctx ctx clk key fingerprint ttl s =
     (case scopedKey sha256 tctx key of
        Inl e \<Rightarrow> (Inl e, s)
      | Inr sc \<Rightarrow> tryLock ctx clk sc fingerprint ttl s)"

definition sc_Set where
  "sc_Set sha256 set_op tctx ctx clk key token resp ttl s =
     (case scopedKey sha256 tctx key of
        Inl e \<Rightarrow> (Some e, s)
      | Inr sc \<Rightarrow> set_op ctx clk sc token resp ttl s)"

definition sc_Unlock where
  "sc_Unlock sha256 unlock tctx ctx key token s =
     (case scopedKey sha256 tctx key of
        Inl e \<Rightarrow> (Some e, s)
      | Inr sc \<Rightarrow> unlock ctx sc token s)"

section \<open>The interface\<close>

locale idem_backend =
  fixes view :: "time \<Rightarrow> string \<Rightarrow> 's \<Rightarrow> 'v"
    and get :: "ctxt \<Rightarrow> (nat \<Rightarrow> time) \<Rightarrow> string \<Rightarrow> string option \<Rightarrow> 's \<Rightarrow> (idem_error + 'g) \<times> 's"
    and tryLock :: "ctxt \<Rightarrow> (nat \<Rightarrow> time) \<Rightarrow> string \<Rightarrow> string option \<Rightarrow> duration \<Rightarrow> 's \<Rightarrow> (idem_error + 'l) \<times> 's"
    and set_op :: "ctxt \<Rightarrow> (nat \<Rightarrow> time) \<Rightarrow> string \<Rightarrow> string \<Rightarrow> 'r \<Rightarrow> duration \<Rightarrow> 's \<Rightarrow> idem_error option \<times> 's"
    and unlock :: "ctxt \<Rightarrow> string \<Rightarrow> string \<Rightarrow> 's \<Rightarrow> idem_error option \<times> 's"
  assumes get_frame: "k \<noteq> key \<Longrightarrow> \<forall>i. clk i \<le> t \<Longrightarrow> view t k (snd (get ctx clk key fp s)) = view t k s"
    and tryLock_frame: "k \<noteq> key \<Longrightarrow> \<forall>i. clk i \<le> t \<Longrightarrow> view t k (snd (tryLock ctx clk key fp ttl s)) = view t k s"
    and set_frame: "k \<noteq> key \<Longrightarrow> \<forall>i. clk i \<le> t \<Longrightarrow> view t k (snd (set_op ctx clk key token resp ttl s)) = view t k s"
    and unlock_frame: "k \<noteq> key \<Longrightarrow> view t k (snd (unlock ctx key token s)) = view t k s"
begin

lemma scoped_frame:
  assumes "scopedKey sha256 tctx raw \<noteq> Inr k" and "\<forall>i. clk i \<le> t"
  shows "view t k (snd (sc_Get sha256 get tctx ctx clk raw fp s)) = view t k s"
    and "view t k (snd (sc_TryLock sha256 tryLock tctx ctx clk raw fp ttl s)) = view t k s"
    and "view t k (snd (sc_Set sha256 set_op tctx ctx clk raw token resp ttl s)) = view t k s"
    and "view t k (snd (sc_Unlock sha256 unlock tctx ctx raw token s)) = view t k s"
  using assms
  by (auto simp: sc_Get_def sc_TryLock_def sc_Set_def sc_Unlock_def get_frame tryLock_frame set_frame unlock_frame
      split: sum.split)

end

text \<open>What can be observed of a key from time \<open>t\<close> on: its response and its lock, unless expired.\<close>

definition live :: "('a \<Rightarrow> time) \<Rightarrow> time \<Rightarrow> 'a option \<Rightarrow> 'a option" where
  "live expiry t x = (case x of None \<Rightarrow> None | Some e \<Rightarrow> if t > expiry e then None else Some e)"

definition im_view :: "time \<Rightarrow> string \<Rightarrow> imem \<Rightarrow> mem_entry option \<times> mem_lock option" where
  "im_view t k m = (live me_expiresAt t (map_of (im_items m) k), live ml_expiresAt t (map_of (im_locks m) k))"

definition op_key :: "idem_op \<Rightarrow> string option" where
  "op_key x =
     (case x of
        OpTryLock lks rnd key fp ttl \<Rightarrow> Some key
      | OpSet iks lks key token resp ttl \<Rightarrow> Some key
      | OpUnlock key token \<Rightarrow> Some key
      | _ \<Rightarrow> None)"

lemma live_lapses: "lapses ex clk x x' \<Longrightarrow> \<forall>i. clk i \<le> t \<Longrightarrow> live ex t x' = live ex t x"
  unfolding lapses_def live_def by (fastforce dest: spec less_le_trans)

lemma im_view_frame:
  assumes "op_key x \<noteq> Some k" and "\<forall>i. clk i \<le> t"
  shows "im_view t k (idem_step (ctx, clk, x) m) = im_view t k m"
  using idem_step_move [of "(ctx, clk, x)" k m]
  by cases (use assms live_lapses [of me_expiresAt clk _ _ t] live_lapses [of ml_expiresAt clk _ _ t] in
      \<open>auto simp: im_view_def key_state_def op_key_def\<close>)

interpretation mem_idem: idem_backend im_view "\<lambda>ctx clk key fp. im_Get ctx clk key fp seen"
  "\<lambda>ctx clk. im_TryLock ctx clk lks rnd" "\<lambda>ctx clk. im_Set ctx clk iks lks" im_Unlock
  for seen lks rnd iks
proof unfold_locales
  fix k key :: string and clk :: "nat \<Rightarrow> time" and t ctx fp s ttl token resp
  assume k: "k \<noteq> key"
  show "im_view t k (snd (im_Unlock ctx key token s)) = im_view t k s"
    using im_view_frame [of "OpUnlock key token" k "\<lambda>_. t" t ctx s] k by (simp add: op_key_def)
  assume clk: "\<forall>i. clk i \<le> t"
  show "im_view t k (snd (im_Get ctx clk key fp seen s)) = im_view t k s"
    using im_view_frame [of "OpGet seen key fp" k clk t ctx s] clk by (simp add: op_key_def)
  show "im_view t k (snd (im_TryLock ctx clk lks rnd key fp ttl s)) = im_view t k s"
    using im_view_frame [of "OpTryLock lks rnd key fp ttl" k clk t ctx s] k clk by (simp add: op_key_def)
  show "im_view t k (snd (im_Set ctx clk iks lks key token resp ttl s)) = im_view t k s"
    using im_view_frame [of "OpSet iks lks key token resp ttl" k clk t ctx s] k clk by (simp add: op_key_def)
qed

section \<open>Storage keys\<close>

lemma of_char_hex_digit: "n < 16 \<Longrightarrow> (of_char (hex_digit n) :: nat) = (if n < 10 then 48 + n else 87 + n)"
  by (simp add: hex_digit_def)

lemma hex_digit_inj: "a < 16 \<Longrightarrow> b < 16 \<Longrightarrow> hex_digit a = hex_digit b \<longleftrightarrow> a = b"
proof
  assume "a < 16" "b < 16" "hex_digit a = hex_digit b"
  then have "(if a < 10 then 48 + a else 87 + a) = (if b < 10 then 48 + b else 87 + b)"
    using of_char_hex_digit by metis
  with \<open>a < 16\<close> \<open>b < 16\<close> show "a = b" by (simp split: if_splits)
qed simp

lemma nibble_lt: "(of_char c :: nat) div 16 < 16" "(of_char c :: nat) mod 16 < 16"
  by (simp_all add: less_mult_imp_div_less)

lemma hex_encode_inj: "hex_encode x = hex_encode y \<longleftrightarrow> x = y"
proof (induction x arbitrary: y)
  case Nil
  then show ?case by (cases y) (auto simp: hex_encode_def)
next
  case (Cons c x)
  have byte: "of_char c div 16 = (of_char d :: nat) div 16 \<and> of_char c mod 16 = (of_char d :: nat) mod 16 \<longleftrightarrow> c = d" for d
    by (metis div_mult_mod_eq of_char_eq_iff)
  show ?case
    using Cons.IH byte by (cases y) (auto simp: hex_encode_def hex_digit_inj nibble_lt)
qed

lemma length_hex_encode: "length (hex_encode x) = 2 * length x"
  by (induction x) (simp_all add: hex_encode_def)

lemma lower_hex_encode: "list_all lower_hex (hex_encode x)"
proof -
  have "lower_hex (hex_digit n)" if "n < 16" for n using of_char_hex_digit [OF that] that by (auto simp: lower_hex_def Let_def)
  then show ?thesis by (induction x) (simp_all add: hex_encode_def nibble_lt)
qed

lemma scopedKey_Inr:
  "scopedKey sha256 tctx raw = Inr k \<longleftrightarrow>
     ValidateKey raw = None \<and> (\<exists>tid s. Required tctx = Inr tid \<and> KeyFor tid [raw] = Inr s \<and>
       k = FormatTenantStorageKey (sha256 s) \<and> ValidateStorageKey k = None)"
  by (auto simp: scopedKey_def Let_def split: option.split sum.split)

lemma user_key_not_storage: "ValidateKey k = None \<Longrightarrow> k \<noteq> FormatTenantStorageKey d"
  by (auto simp: ValidateKey_def hasReservedUserKeyPrefix_def reservedUserKeyPrefixes_def FormatTenantStorageKey_def
      split: if_splits)

lemma storage_key_valid: "length d = 32 \<Longrightarrow> ValidateStorageKey (FormatTenantStorageKey d) = None"
  using lower_hex_encode [of d]
  by (simp add: ValidateStorageKey_def isTenantStorageKey_def FormatTenantStorageKey_def length_hex_encode
      tenantStorageKeyHexLen_def)

lemma length_itoa: "length (itoa n) \<le> Suc n"
proof (induction n rule: itoa.induct)
  case (1 n)
  then show ?case by (cases "n < 10") (simp_all add: itoa.simps [of n])
qed

text \<open>
  Property C32.  Tenants are isolated.  A call of the tenant wrapper over the memory store, by one
  tenant on one of its keys, leaves the observable response and lock of every other key as they
  are: of a key that a user of the bare store may name, whatever the digest function does, and of
  the storage key of another tenant or another raw key, as long as the digests of the two scoped
  keys differ when the scoped keys do.
\<close>

theorem idem_tenant_isolated:
  assumes "ValidateKey k = None \<or>
      (scopedKey sha256 (Some t2) raw2 = Inr k \<and> (t1, raw1) \<noteq> (t2, raw2) \<and>
       inj_on sha256 {s. KeyFor t1 [raw1] = Inr s \<or> KeyFor t2 [raw2] = Inr s})"
    and "\<forall>i. clk i \<le> now"
  shows "im_view now k (snd (sc_Get sha256 (\<lambda>ctx clk key fp. im_Get ctx clk key fp seen) (Some t1) ctx clk raw1 fp m)) = im_view now k m
    \<and> im_view now k (snd (sc_TryLock sha256 (\<lambda>ctx clk. im_TryLock ctx clk lks rnd) (Some t1) ctx clk raw1 fp ttl m)) = im_view now k m
    \<and> im_view now k (snd (sc_Set sha256 (\<lambda>ctx clk. im_Set ctx clk iks lks) (Some t1) ctx clk raw1 token resp ttl m)) = im_view now k m
    \<and> im_view now k (snd (sc_Unlock sha256 im_Unlock (Some t1) ctx raw1 token m)) = im_view now k m"
proof -
  have "scopedKey sha256 (Some t1) raw1 \<noteq> Inr k"
  proof
    assume eq: "scopedKey sha256 (Some t1) raw1 = Inr k"
    then obtain t1' s1 where 1: "Required (Some t1) = Inr t1'" "KeyFor t1' [raw1] = Inr s1" "k = FormatTenantStorageKey (sha256 s1)"
      unfolding scopedKey_Inr by blast
    then have "ValidateKey k \<noteq> None" using user_key_not_storage by blast
    with assms(1) have 2: "scopedKey sha256 (Some t2) raw2 = Inr k" "(t1, raw1) \<noteq> (t2, raw2)"
      "inj_on sha256 {s. KeyFor t1 [raw1] = Inr s \<or> KeyFor t2 [raw2] = Inr s}" by auto
    then obtain t2' s2 where 3: "Required (Some t2) = Inr t2'" "KeyFor t2' [raw2] = Inr s2" "k = FormatTenantStorageKey (sha256 s2)"
      unfolding scopedKey_Inr by blast
    have tt: "t1' = t1" "t2' = t2" using 1(1) 3(1) by (auto simp: Required_def FromContext_def split: if_splits)
    have "sha256 s1 = sha256 s2" using 1(3) 3(3) by (simp add: FormatTenantStorageKey_def hex_encode_inj)
    then have "s1 = s2" using 2(3) 1(2) 3(2) tt by (auto dest: inj_onD)
    then show False using KeyFor_Inr_inj [of t1 "[raw1]" s1 t2 "[raw2]"] 1(2) 3(2) tt 2(2) by simp
  qed
  note frame = mem_idem.scoped_frame [OF this assms(2)]
  show ?thesis by (intro conjI frame)
qed

text \<open>
  Every key is usable.  For a tenant identifier that can be a key part and any key
  a user may choose, the wrapper finds a storage key, and the storage key is one the backends
  accept: it never runs into a length limit, and the final validation never fails, given that
  digests have 32 bytes.
\<close>

lemma scopedKey_total:
  assumes "validateKeyPart tid" and "length tid \<le> MaxIDLen" and "ValidateKey raw = None"
    and "\<forall>s. length (sha256 s) = 32"
  shows "\<exists>s. KeyFor tid [raw] = Inr s \<and> scopedKey sha256 (Some tid) raw = Inr (FormatTenantStorageKey (sha256 s))"
proof -
  have raw: "validateKeyPart raw" "length raw \<le> 256"
    using assms(3) by (auto simp: ValidateKey_def validateKeyPart_def MaxKeyLen_def MaxKeyPartLen_def split: if_splits)
  have "length (key_field x) \<le> 2 * length x + 3" for x using length_itoa [of "length x"] by (simp add: key_field_def)
  from this [of tid] this [of raw] obtain s where s: "KeyFor tid [raw] = Inr s"
    using assms(1,2) raw
    by (auto simp: KeyFor_Inr MaxKeyTotalLen_def MaxKeyParts_def MaxIDLen_def)
  have "Required (Some tid) = Inr tid" using assms(1) by (simp add: Required_def FromContext_def validateKeyPart_def)
  then show ?thesis using s assms(3,4) by (auto simp: scopedKey_Inr storage_key_valid)
qed

definition ex_digest :: "string \<Rightarrow> string" where
  "ex_digest s = take 32 (drop 7 s @ replicate 32 CHR ''x'')"

lemma ex_tenant_keys:
  "validateKeyPart ''acme''" "validateKeyPart ''corp''" "ValidateKey ''k1'' = None"
  by (simp_all add: validateKeyPart_def MaxKeyPartLen_def containsInvalidKeyRune_ascii ValidateKey_def MaxKeyLen_def
      hasReservedUserKeyPrefix_def reservedUserKeyPrefixes_def TenantStorageKeyPrefix_def)

lemma ex_KeyFor:
  "KeyFor ''acme'' [''k1''] = Inr ''tenant:4:acme:2:k1''" "KeyFor ''corp'' [''k1''] = Inr ''tenant:4:corp:2:k1''"
proof -
  have "itoa (Suc (Suc (Suc (Suc 0)))) = ''4''" "itoa (Suc (Suc 0)) = ''2''" by code_simp+
  moreover have "validateKeyPart ''k1''"
    by (simp add: validateKeyPart_def MaxKeyPartLen_def containsInvalidKeyRune_ascii)
  ultimately show "KeyFor ''acme'' [''k1''] = Inr ''tenant:4:acme:2:k1''" "KeyFor ''corp'' [''k1''] = Inr ''tenant:4:corp:2:k1''"
    unfolding KeyFor_Inr by (simp_all add: key_field_def ex_tenant_keys MaxKeyTotalLen_def MaxKeyParts_def)
qed

lemma length_ex_digest: "length (ex_digest s) = 32"
  by (cases "length s - 7 < 32") (simp_all add: ex_digest_def)

lemma scopedKey_total_example:
  "\<exists>s. KeyFor ''acme'' [''k1''] = Inr s \<and> scopedKey ex_digest (Some ''acme'') ''k1'' = Inr (FormatTenantStorageKey (ex_digest s))"
  by (rule scopedKey_total) (simp_all add: ex_tenant_keys MaxIDLen_def length_ex_digest)

theorem idem_tenant_isolated_witness:
  "\<exists>k. scopedKey ex_digest (Some ''corp'') ''k1'' = Inr k \<and>
     im_view 9 k (snd (sc_TryLock ex_digest (\<lambda>ctx clk. im_TryLock ctx clk [] (Some ''A'')) (Some ''acme'') background
       (\<lambda>_. 9) ''k1'' None 5 NewMemoryStore)) = im_view 9 k NewMemoryStore"
proof -
  define k where "k = FormatTenantStorageKey (ex_digest ''tenant:4:corp:2:k1'')"
  have k: "scopedKey ex_digest (Some ''corp'') ''k1'' = Inr k"
    unfolding scopedKey_Inr k_def
    by (simp add: ex_tenant_keys Required_def FromContext_def ex_KeyFor storage_key_valid length_ex_digest)
  have "inj_on ex_digest {s. KeyFor ''acme'' [''k1''] = Inr s \<or> KeyFor ''corp'' [''k1''] = Inr s}"
    by (auto simp: ex_KeyFor inj_on_def ex_digest_def)
  then show ?thesis
    using idem_tenant_isolated [of k ex_digest "''corp''" "''k1''" "''acme''" "''k1''" "\<lambda>_. 9" 9] k by auto
qed

end
