(* ===== verification/Retry.thy ===== *)
theory Retry
  imports Complex_Main Go_Prelude
begin

text \<open>
  Retries with backoff: \<^verbatim>\<open>resilience/retry/retry.go\<close>.

  Everything outside the package is a record of effects on a world of any type: the context, the
  clock, the retried function, the timer (whether it fires before the context is done), the
  \<^verbatim>\<open>OnRetry\<close> callback and the exponential backoff of \<^verbatim>\<open>cenkalti/backoff\<close> with its state.  The loops
  may run forever (a negative \<^verbatim>\<open>MaxRetries\<close> means no limit), so they are partial functions and not
  returning is \<^const>\<open>None\<close>.  A callback that panics is an outcome of its own.  Metrics, spans and
  logging are left out.

  Results: without stability detection a bounded policy returns, after at most one call more than
  \<^verbatim>\<open>MaxRetries\<close>, with success exactly if the last call succeeded, and no pause exceeds \<^verbatim>\<open>MaxDelay\<close>;
  if every call fails with a retryable error the number of calls is exactly that.
\<close>

section \<open>Policies\<close>

text \<open>The comparisons of \<^verbatim>\<open>float64\<close> the package uses: those with NaN are false.\<close>

datatype f64 = NaN | PosInf | NegInf | Fin rat

fun f64_less :: "f64 \<Rightarrow> f64 \<Rightarrow> bool" where
  "f64_less (Fin a) (Fin b) \<longleftrightarrow> a < b"
| "f64_less (Fin a) PosInf \<longleftrightarrow> True"
| "f64_less NegInf (Fin a) \<longleftrightarrow> True"
| "f64_less NegInf PosInf \<longleftrightarrow> True"
| "f64_less _ _ \<longleftrightarrow> False"

text \<open>The error of an attempt: what the function returned, or the one made of a panic.\<close>

datatype 'e rerr = Returned 'e | WorkerPanic

text \<open>\<open>None\<close> as the result of a callback means that it panicked.\<close>

record 'e policy =
  MaxRetries :: int
  BaseDelay :: duration
  MaxDelay :: duration
  Factor :: f64
  Jitter :: f64
  StableReset :: duration
  RetryIf :: "('e rerr \<Rightarrow> bool option) option"
  hasOnRetry :: bool
  MaxElapsedTime :: duration
  DelayOverride :: "('e rerr \<Rightarrow> duration option) option"

definition second :: duration where "second = 1000000000"

definition DefaultPolicy :: "('e rerr \<Rightarrow> bool option) \<Rightarrow> 'e policy" where
  "DefaultPolicy retryIfNotPermanent =
     \<lparr>MaxRetries = 3, BaseDelay = 1 * second, MaxDelay = 30 * second, Factor = Fin 2, Jitter = Fin (1 / 4),
      StableReset = 0, RetryIf = Some retryIfNotPermanent, hasOnRetry = False, MaxElapsedTime = 0, DelayOverride = None\<rparr>"

definition WorkerPolicy :: "'e policy" where
  "WorkerPolicy =
     \<lparr>MaxRetries = -1, BaseDelay = 3 * second, MaxDelay = 60 * second, Factor = Fin 2, Jitter = Fin (1 / 4),
      StableReset = 30 * second, RetryIf = None, hasOnRetry = False, MaxElapsedTime = 0, DelayOverride = None\<rparr>"

datatype policy_error = BadBaseDelay | BadMaxDelay | BadFactor | BadJitter | BadStableReset | BadMaxElapsed

definition policy_Validate :: "'e policy \<Rightarrow> policy_error option" where
  "policy_Validate p =
     (if BaseDelay p \<le> 0 then Some BadBaseDelay
      else if MaxDelay p \<le> 0 then Some BadMaxDelay
      else if f64_less (Factor p) (Fin 1) then Some BadFactor
      else if f64_less (Jitter p) (Fin 0) \<or> f64_less (Fin 1) (Jitter p) then Some BadJitter
      else if StableReset p < 0 then Some BadStableReset
      else if MaxElapsedTime p < 0 then Some BadMaxElapsed
      else None)"

definition clampDelay :: "duration \<Rightarrow> duration \<Rightarrow> duration" where
  "clampDelay wait mx = (if mx > 0 \<and> wait > mx then mx else wait)"

text \<open>The options: \<^const>\<open>None\<close> is a panic at construction.\<close>

type_synonym 'e retry_option = "('e policy \<Rightarrow> 'e policy) option"

definition WithMaxRetries :: "int \<Rightarrow> 'e retry_option" where
  "WithMaxRetries n = Some (\<lambda>p. p\<lparr>MaxRetries := n\<rparr>)"

definition WithBaseDelay :: "duration \<Rightarrow> 'e retry_option" where
  "WithBaseDelay d = (if d \<le> 0 then None else Some (\<lambda>p. p\<lparr>BaseDelay := d\<rparr>))"

definition WithMaxDelay :: "duration \<Rightarrow> 'e retry_option" where
  "WithMaxDelay d = (if d \<le> 0 then None else Some (\<lambda>p. p\<lparr>MaxDelay := d\<rparr>))"

definition WithFactor :: "f64 \<Rightarrow> 'e retry_option" where
  "WithFactor f = (if f64_less f (Fin 1) then None else Some (\<lambda>p. p\<lparr>Factor := f\<rparr>))"

definition WithMaxElapsedTime :: "duration \<Rightarrow> 'e retry_option" where
  "WithMaxElapsedTime d = (if d < 0 then None else Some (\<lambda>p. p\<lparr>MaxElapsedTime := d\<rparr>))"

definition WithDelayOverride :: "('e rerr \<Rightarrow> duration option) option \<Rightarrow> 'e retry_option" where
  "WithDelayOverride f = Some (\<lambda>p. p\<lparr>DelayOverride := f\<rparr>)"

definition WithJitter :: "f64 \<Rightarrow> 'e retry_option" where
  "WithJitter f = (if f64_less f (Fin 0) \<or> f64_less (Fin 1) f then None else Some (\<lambda>p. p\<lparr>Jitter := f\<rparr>))"

definition WithStableReset :: "duration \<Rightarrow> 'e retry_option" where
  "WithStableReset d = (if d < 0 then None else Some (\<lambda>p. p\<lparr>StableReset := d\<rparr>))"

definition WithRetryIf :: "('e rerr \<Rightarrow> bool option) option \<Rightarrow> 'e retry_option" where
  "WithRetryIf f = Some (\<lambda>p. p\<lparr>RetryIf := f\<rparr>)"

definition WithOnRetry :: "bool \<Rightarrow> 'e retry_option" where
  "WithOnRetry given = Some (\<lambda>p. p\<lparr>hasOnRetry := given\<rparr>)"

section \<open>The world\<close>

datatype 'e outcome = Succeeded | Failed 'e | Panicked

record ('w, 'e, 'b) renv =
  re_ctxErr :: "'w \<Rightarrow> ctx_error option \<times> 'w"
  re_now :: "'w \<Rightarrow> time \<times> 'w"
  re_fn :: "'w \<Rightarrow> 'e outcome \<times> 'w"
  re_sleep :: "duration \<Rightarrow> 'w \<Rightarrow> bool \<times> 'w"
  re_onRetry :: "'e rerr \<Rightarrow> int \<Rightarrow> duration \<Rightarrow> 'w \<Rightarrow> 'w"
  re_newBackOff :: "duration \<Rightarrow> duration \<Rightarrow> f64 \<Rightarrow> f64 \<Rightarrow> 'b"
  re_NextBackOff :: "'b \<Rightarrow> duration \<times> 'b"
  re_Reset :: "'b \<Rightarrow> 'b"

definition newBackOff :: "('w, 'e, 'b) renv \<Rightarrow> 'e policy \<Rightarrow> 'b" where
  "newBackOff E p = re_newBackOff E (BaseDelay p) (MaxDelay p) (Factor p) (Jitter p)"

section \<open>The decision after a failure\<close>

definition callRetryIf :: "('e rerr \<Rightarrow> bool option) \<Rightarrow> 'e rerr \<Rightarrow> bool" where
  "callRetryIf f err = (case f err of None \<Rightarrow> False | Some b \<Rightarrow> b)"

definition callDelayOverride :: "('e rerr \<Rightarrow> duration option) \<Rightarrow> 'e rerr \<Rightarrow> duration" where
  "callDelayOverride f err = (case f err of None \<Rightarrow> 0 | Some d \<Rightarrow> d)"

datatype plan = PlanContinue | PlanStopNonRetryable | PlanStopMaxElapsed | PlanStopMaxRetries

definition since_at_least :: "('w, 'e, 'b) renv \<Rightarrow> duration \<Rightarrow> time \<Rightarrow> 'w \<Rightarrow> bool \<times> 'w" where
  "since_at_least E limit start w =
     (if limit > 0 then let (t, w') = re_now E w in (time_sub t start \<ge> limit, w') else (False, w))"

definition evaluateRetry ::
    "('w, 'e, 'b) renv \<Rightarrow> 'e policy \<Rightarrow> 'b \<Rightarrow> int \<Rightarrow> time \<Rightarrow> time \<Rightarrow> 'e rerr \<Rightarrow> 'w \<Rightarrow> (duration \<times> plan) \<times> 'b \<times> int \<times> 'w" where
  "evaluateRetry E p bo attempt loopStart attemptStart err w =
     (if (case RetryIf p of None \<Rightarrow> False | Some f \<Rightarrow> \<not> callRetryIf f err)
      then ((0, PlanStopNonRetryable), bo, attempt, w)
      else
        let (late, w1) = since_at_least E (MaxElapsedTime p) loopStart w
        in if late then ((0, PlanStopMaxElapsed), bo, attempt, w1)
           else
             let (stable, w2) = since_at_least E (StableReset p) attemptStart w1;
                 bo1 = (if stable then re_Reset E bo else bo);
                 attempt1 = (if stable then 0 else attempt)
             in if MaxRetries p \<ge> 0 \<and> attempt1 \<ge> MaxRetries p
                then ((0, PlanStopMaxRetries), bo1, attempt1, w2)
                else
                  let (next_wait, bo2) = re_NextBackOff E bo1;
                      override = (case DelayOverride p of None \<Rightarrow> 0 | Some f \<Rightarrow> callDelayOverride f err);
                      wait = clampDelay (if override > 0 then override else next_wait) (MaxDelay p)
                  in ((wait, PlanContinue), bo2, attempt1,
                      if hasOnRetry p then re_onRetry E err (wrap64 (attempt1 + 1)) wait w2 else w2))"

section \<open>Bounded retries\<close>

datatype 'e do_result =
    DoNil
  | DoErr "'e rerr"
  | DoCtx ctx_error
  | DoJoin "'e rerr" "ctx_error option"
  | DoFnPanic
  | DoPolicyPanic policy_error

text \<open>One iteration: either a result, or the state the next iteration starts with.\<close>

definition do_iter ::
    "('w, 'e, 'b) renv \<Rightarrow> 'e policy \<Rightarrow> 'b \<Rightarrow> int \<Rightarrow> time \<Rightarrow> 'w \<Rightarrow> ('e do_result + 'b \<times> int) \<times> 'w" where
  "do_iter E p bo attempt loopStart w =
     (case re_ctxErr E w of
        (Some e, w1) \<Rightarrow> (Inl (DoCtx e), w1)
      | (None, w1) \<Rightarrow>
     (case re_now E w1 of (start, w2) \<Rightarrow>
     (case re_fn E w2 of
        (Succeeded, w3) \<Rightarrow> (Inl DoNil, w3)
      | (Panicked, w3) \<Rightarrow> (Inl DoFnPanic, w3)
      | (Failed e, w3) \<Rightarrow>
     (case re_ctxErr E w3 of
        (Some ce, w4) \<Rightarrow> (Inl (DoJoin (Returned e) (Some ce)), w4)
      | (None, w4) \<Rightarrow>
     (case evaluateRetry E p bo attempt loopStart start (Returned e) w4 of
        ((wait, pl), bo', attempt', w5) \<Rightarrow>
          if pl \<noteq> PlanContinue then (Inl (DoErr (Returned e)), w5)
          else case re_sleep E wait w5 of
                 (False, w6) \<Rightarrow> (case re_ctxErr E w6 of (ce, w7) \<Rightarrow> (Inl (DoJoin (Returned e) ce), w7))
               | (True, w6) \<Rightarrow> (Inr (bo', wrap64 (attempt' + 1)), w6))))))"

partial_function (option) do_loop ::
    "('w, 'e, 'b) renv \<Rightarrow> 'e policy \<Rightarrow> 'b \<Rightarrow> int \<Rightarrow> time \<Rightarrow> 'w \<Rightarrow> ('e do_result \<times> 'w) option" where
  "do_loop E p bo attempt loopStart w =
     (case do_iter E p bo attempt loopStart w of
        (Inl r, w') \<Rightarrow> Some (r, w')
      | (Inr (bo', attempt'), w') \<Rightarrow> do_loop E p bo' attempt' loopStart w')"

definition doWithPolicy :: "('w, 'e, 'b) renv \<Rightarrow> 'e policy \<Rightarrow> 'w \<Rightarrow> ('e do_result \<times> 'w) option" where
  "doWithPolicy E p w =
     (case policy_Validate p of
        Some e \<Rightarrow> Some (DoPolicyPanic e, w)
      | None \<Rightarrow> (case re_now E w of (loopStart, w1) \<Rightarrow> do_loop E p (newBackOff E p) 0 loopStart w1))"

text \<open>\<^verbatim>\<open>Do\<close> and \<^verbatim>\<open>DoWith\<close>: options are functions on policies, applied in order.\<close>

definition retry_Do ::
    "('e rerr \<Rightarrow> bool option) \<Rightarrow> ('w, 'e, 'b) renv \<Rightarrow> ('e policy \<Rightarrow> 'e policy) list \<Rightarrow> 'w \<Rightarrow> ('e do_result \<times> 'w) option" where
  "retry_Do retryIfNotPermanent E opts w = doWithPolicy E (fold id opts (DefaultPolicy retryIfNotPermanent)) w"

definition retry_DoWith ::
    "('w, 'e, 'b) renv \<Rightarrow> 'e policy \<Rightarrow> ('e policy \<Rightarrow> 'e policy) list \<Rightarrow> 'w \<Rightarrow> ('e do_result \<times> 'w) option" where
  "retry_DoWith E base opts w = doWithPolicy E (fold id opts base) w"

section \<open>The restart loop\<close>

definition callLoopFunc :: "('w, 'e, 'b) renv \<Rightarrow> 'w \<Rightarrow> 'e rerr option \<times> 'w" where
  "callLoopFunc E w =
     (case re_fn E w of
        (Succeeded, w') \<Rightarrow> (None, w')
      | (Failed e, w') \<Rightarrow> (Some (Returned e), w')
      | (Panicked, w') \<Rightarrow> (Some WorkerPanic, w'))"

datatype 'e loop_end =
    LoopCancelled | LoopShutdown "'e rerr" | LoopDone | LoopStopped plan "'e rerr" | LoopPolicyPanic policy_error

definition loop_iter ::
    "('w, 'e, 'b) renv \<Rightarrow> 'e policy \<Rightarrow> 'b \<Rightarrow> int \<Rightarrow> time \<Rightarrow> 'w \<Rightarrow> ('e loop_end + 'b \<times> int) \<times> 'w" where
  "loop_iter E p bo attempt loopStart w =
     (case re_ctxErr E w of
        (Some e, w1) \<Rightarrow> (Inl LoopCancelled, w1)
      | (None, w1) \<Rightarrow>
     (case re_now E w1 of (start, w2) \<Rightarrow>
     (case callLoopFunc E w2 of
        (Some err, w3) \<Rightarrow>
     (case re_ctxErr E w3 of
        (Some ce, w4) \<Rightarrow> (Inl (LoopShutdown err), w4)
      | (None, w4) \<Rightarrow>
     (case re_ctxErr E w4 of
        (Some ce, w5) \<Rightarrow> (Inl LoopCancelled, w5)
      | (None, w5) \<Rightarrow>
     (case evaluateRetry E p bo attempt loopStart start err w5 of
        ((wait, pl), bo', attempt', w6) \<Rightarrow>
          if pl \<noteq> PlanContinue then (Inl (LoopStopped pl err), w6)
          else case re_sleep E wait w6 of
                 (False, w7) \<Rightarrow> (Inl LoopCancelled, w7)
               | (True, w7) \<Rightarrow> (Inr (bo', wrap64 (attempt' + 1)), w7))))
      | (None, w3) \<Rightarrow>
     (case re_ctxErr E w3 of
        (Some ce, w4) \<Rightarrow> (Inl LoopCancelled, w4)
      | (None, w4) \<Rightarrow> (Inl LoopDone, w4)))))"

partial_function (option) loop_loop ::
    "('w, 'e, 'b) renv \<Rightarrow> 'e policy \<Rightarrow> 'b \<Rightarrow> int \<Rightarrow> time \<Rightarrow> 'w \<Rightarrow> ('e loop_end \<times> 'w) option" where
  "loop_loop E p bo attempt loopStart w =
     (case loop_iter E p bo attempt loopStart w of
        (Inl r, w') \<Rightarrow> Some (r, w')
      | (Inr (bo', attempt'), w') \<Rightarrow> loop_loop E p bo' attempt' loopStart w')"

definition retry_Loop ::
    "('w, 'e, 'b) renv \<Rightarrow> ('e policy \<Rightarrow> 'e policy) list \<Rightarrow> 'w \<Rightarrow> ('e loop_end \<times> 'w) option" where
  "retry_Loop E opts w =
     (let p = fold id opts WorkerPolicy
      in case policy_Validate p of
           Some e \<Rightarrow> Some (LoopPolicyPanic e, w)
         | None \<Rightarrow> (case re_now E w of (loopStart, w1) \<Rightarrow> loop_loop E p (newBackOff E p) 0 loopStart w1))"

section \<open>Delays\<close>

text \<open>\<^verbatim>\<open>Policy.Delay\<close> draws one delay more than the attempt number and returns the last.\<close>

fun draw :: "('w, 'e, 'b) renv \<Rightarrow> nat \<Rightarrow> 'b \<Rightarrow> duration \<times> 'b" where
  "draw E 0 bo = re_NextBackOff E bo"
| "draw E (Suc n) bo = draw E n (snd (re_NextBackOff E bo))"

definition policy_Delay :: "('w, 'e, 'b) renv \<Rightarrow> 'e policy \<Rightarrow> int \<Rightarrow> policy_error + duration" where
  "policy_Delay E p attempt =
     (case policy_Validate p of
        Some e \<Rightarrow> Inl e
      | None \<Rightarrow>
          let wait = fst (draw E (nat (if attempt < 0 then 0 else attempt)) (newBackOff E p))
          in Inr (if wait = 0 then BaseDelay p else clampDelay wait (MaxDelay p)))"

definition NewBackoff :: "('w, 'e, 'b) renv \<Rightarrow> 'e policy \<Rightarrow> policy_error + 'b" where
  "NewBackoff E p = (case policy_Validate p of Some e \<Rightarrow> Inl e | None \<Rightarrow> Inr (newBackOff E p))"

text \<open>The backoff's \<^verbatim>\<open>MaxInterval\<close> is the policy's \<^verbatim>\<open>MaxDelay\<close>.\<close>

definition backoff_Next :: "('w, 'e, 'b) renv \<Rightarrow> duration \<Rightarrow> 'b \<Rightarrow> duration \<times> 'b" where
  "backoff_Next E maxInterval bo = (case re_NextBackOff E bo of (d, bo') \<Rightarrow> (clampDelay d maxInterval, bo'))"

section \<open>What is called\<close>

text \<open>The world extended by a record of the calls of the function and of the pauses.\<close>

datatype 'e revent = EvCall "'e outcome" | EvSleep duration

definition logged :: "('w, 'e, 'b) renv \<Rightarrow> ('w \<times> 'e revent list, 'e, 'b) renv" where
  "logged E =
     \<lparr>re_ctxErr = (\<lambda>(w, l). case re_ctxErr E w of (x, w') \<Rightarrow> (x, (w', l))),
      re_now = (\<lambda>(w, l). case re_now E w of (x, w') \<Rightarrow> (x, (w', l))),
      re_fn = (\<lambda>(w, l). case re_fn E w of (x, w') \<Rightarrow> (x, (w', l @ [EvCall x]))),
      re_sleep = (\<lambda>d (w, l). case re_sleep E d w of (x, w') \<Rightarrow> (x, (w', l @ [EvSleep d]))),
      re_onRetry = (\<lambda>err n d (w, l). (re_onRetry E err n d w, l)),
      re_newBackOff = re_newBackOff E, re_NextBackOff = re_NextBackOff E, re_Reset = re_Reset E\<rparr>"

fun calls :: "'e revent list \<Rightarrow> 'e outcome list" where
  "calls [] = []"
| "calls (EvCall x # l) = x # calls l"
| "calls (EvSleep d # l) = calls l"

fun pauses :: "'e revent list \<Rightarrow> duration list" where
  "pauses [] = []"
| "pauses (EvCall x # l) = pauses l"
| "pauses (EvSleep d # l) = d # pauses l"

lemma calls_append [simp]: "calls (l @ l') = calls l @ calls l'"
  by (induction l rule: calls.induct) simp_all

lemma pauses_append [simp]: "pauses (l @ l') = pauses l @ pauses l'"
  by (induction l rule: pauses.induct) simp_all

lemma clampDelay_le: "0 < mx \<Longrightarrow> clampDelay d mx \<le> mx"
  by (simp add: clampDelay_def)

lemma since_logged: "snd (since_at_least (logged E) limit start (w, l)) = (w', l') \<Longrightarrow> l' = l"
  by (auto simp: since_at_least_def logged_def Let_def split: if_splits prod.splits)

lemma evaluateRetry_logged:
  assumes "evaluateRetry (logged E) p bo attempt loopStart start err (w, l) = ((wait, pl), bo', attempt', (w', l'))"
  shows "l' = l" and "pl = PlanContinue \<Longrightarrow> 0 < MaxDelay p \<Longrightarrow> wait \<le> MaxDelay p"
    and "pl = PlanContinue \<Longrightarrow> StableReset p = 0 \<Longrightarrow> attempt' = attempt \<and> (MaxRetries p \<ge> 0 \<longrightarrow> attempt < MaxRetries p)"
proof -
  obtain late w1 l1 where s1: "since_at_least (logged E) (MaxElapsedTime p) loopStart (w, l) = (late, (w1, l1))"
    by (metis surj_pair)
  obtain stable w2 l2 where s2: "since_at_least (logged E) (StableReset p) start (w1, l1) = (stable, (w2, l2))"
    by (metis surj_pair)
  have l: "l1 = l" "l2 = l1" using since_logged s1 s2 by (metis snd_conv)+
  have st: "StableReset p = 0 \<Longrightarrow> \<not> stable" using s2 by (simp add: since_at_least_def)
  note d = assms [unfolded evaluateRetry_def s1 s2 Let_def case_prod_conv s2]
  show "l' = l" using d l by (auto simp: logged_def split: if_splits prod.splits option.splits)
  show "pl = PlanContinue \<Longrightarrow> 0 < MaxDelay p \<Longrightarrow> wait \<le> MaxDelay p"
    using d by (auto simp: clampDelay_le split: if_splits prod.splits)
  show "pl = PlanContinue \<Longrightarrow> StableReset p = 0 \<Longrightarrow> attempt' = attempt \<and> (MaxRetries p \<ge> 0 \<longrightarrow> attempt < MaxRetries p)"
    using d st by (auto split: if_splits prod.splits)
qed

text \<open>What one iteration does to the record.\<close>

definition iter_ends :: "bool \<Rightarrow> 'e revent list \<Rightarrow> 'e revent list \<Rightarrow> bool" where
  "iter_ends ok l l' \<longleftrightarrow> (l' = l \<and> \<not> ok) \<or> (\<exists>x. l' = l @ [EvCall x] \<and> (ok \<longleftrightarrow> x = Succeeded))"

definition iter_pauses :: "duration \<Rightarrow> 'e revent list \<Rightarrow> 'e revent list \<Rightarrow> bool" where
  "iter_pauses mx l l' \<longleftrightarrow> (\<exists>e d. l' = l @ [EvCall (Failed e), EvSleep d] \<and> d \<le> mx)"

lemma do_iter_logged:
  assumes "do_iter (logged E) p bo attempt loopStart (w, l) = (res, (w', l'))" and "0 < MaxDelay p"
  shows "res = Inl r \<Longrightarrow> iter_ends (r = DoNil) l l' \<or> (r \<noteq> DoNil \<and> iter_pauses (MaxDelay p) l l')"
    and "res = Inr (bo', attempt') \<Longrightarrow> iter_pauses (MaxDelay p) l l' \<and>
      (StableReset p = 0 \<longrightarrow> 0 \<le> MaxRetries p \<longrightarrow> attempt < MaxRetries p \<and> attempt' = wrap64 (attempt + 1))"
proof -
  obtain c w1 where c: "re_ctxErr E w = (c, w1)" by force
  obtain start w2 where n: "re_now E w1 = (start, w2)" by force
  obtain x w3 where f: "re_fn E w2 = (x, w3)" by force
  obtain c2 w4 where c2: "re_ctxErr E w3 = (c2, w4)" by force
  define ev where "ev = evaluateRetry (logged E) p bo attempt loopStart start"
  obtain wait pl bo2 att w5 l5 where e: "ev (Returned (case x of Failed e \<Rightarrow> e)) (w4, l @ [EvCall x]) = ((wait, pl), bo2, att, (w5, l5))"
    by (metis surj_pair)
  note el = evaluateRetry_logged [OF e [unfolded ev_def]]
  obtain fired w6 where s: "re_sleep E wait w5 = (fired, w6)" by force
  obtain c3 w7 where c3: "re_ctxErr E w6 = (c3, w7)" by force
  note d = assms(1) [unfolded do_iter_def]
  have E: "re_ctxErr (logged E) (a, k) = (case re_ctxErr E a of (x, w') \<Rightarrow> (x, (w', k)))"
    "re_now (logged E) (a, k) = (case re_now E a of (x, w') \<Rightarrow> (x, (w', k)))"
    "re_fn (logged E) (a, k) = (case re_fn E a of (x, w') \<Rightarrow> (x, (w', k @ [EvCall x])))"
    "re_sleep (logged E) dd (a, k) = (case re_sleep E dd a of (x, w') \<Rightarrow> (x, (w', k @ [EvSleep dd])))" for a k dd
    by (simp_all add: logged_def)
  consider "c \<noteq> None" | "c = None" "x = Succeeded" | "c = None" "x = Panicked"
    | e where "c = None" "x = Failed e" "c2 \<noteq> None" | e where "c = None" "x = Failed e" "c2 = None" "pl \<noteq> PlanContinue"
    | e where "c = None" "x = Failed e" "c2 = None" "pl = PlanContinue"
    by (cases x; cases c; cases c2; cases pl) auto
  then have "(res = Inl r \<longrightarrow> iter_ends (r = DoNil) l l' \<or> (r \<noteq> DoNil \<and> iter_pauses (MaxDelay p) l l')) \<and>
    (res = Inr (bo', attempt') \<longrightarrow> iter_pauses (MaxDelay p) l l' \<and>
      (StableReset p = 0 \<longrightarrow> 0 \<le> MaxRetries p \<longrightarrow> attempt < MaxRetries p \<and> attempt' = wrap64 (attempt + 1)))"
  proof cases
    case 6
    then have "ev (Returned e) (w4, l @ [EvCall x]) = ((wait, pl), bo2, att, (w5, l @ [EvCall x]))"
      using \<open>x = Failed e\<close> e el(1) by simp
    then show ?thesis
      using d 6 el(2,3) assms(2) c n f c2 s c3
      by (cases fired) (auto simp: E ev_def iter_pauses_def)
  qed (use d c n f c2 e el(1) in \<open>auto simp: E ev_def iter_ends_def split: option.splits\<close>)
  then show "res = Inl r \<Longrightarrow> iter_ends (r = DoNil) l l' \<or> (r \<noteq> DoNil \<and> iter_pauses (MaxDelay p) l l')"
    and "res = Inr (bo', attempt') \<Longrightarrow> iter_pauses (MaxDelay p) l l' \<and>
      (StableReset p = 0 \<longrightarrow> 0 \<le> MaxRetries p \<longrightarrow> attempt < MaxRetries p \<and> attempt' = wrap64 (attempt + 1))"
    by blast+
qed

section \<open>Bounded policies return\<close>

definition run_ok :: "'e policy \<Rightarrow> int \<Rightarrow> 'e revent list \<Rightarrow> bool" where
  "run_ok p n l \<longleftrightarrow> int (length (calls l)) \<le> n \<and> list_all (\<lambda>d. d \<le> MaxDelay p) (pauses l) \<and>
     list_all (\<lambda>x. \<exists>e. x = Failed e) (butlast (calls l))"

definition all_failed :: "'e revent list \<Rightarrow> bool" where
  "all_failed l \<longleftrightarrow> list_all (\<lambda>x. \<exists>e. x = Failed e) (calls l)"

lemma run_ok_ends:
  assumes "run_ok p n l" and "all_failed l" and "0 \<le> n" and "iter_ends ok l l' \<or> (\<not> ok \<and> iter_pauses (MaxDelay p) l l')"
  shows "run_ok p (n + 1) l' \<and> (ok \<longleftrightarrow> calls l' \<noteq> [] \<and> last (calls l') = Succeeded)"
proof -
  have "last (calls l) \<noteq> Succeeded" if "calls l \<noteq> []"
    using assms(2) that last_in_set by (fastforce simp: all_failed_def list_all_iff)
  then show ?thesis
    using assms by (auto simp: run_ok_def iter_ends_def iter_pauses_def all_failed_def butlast_append list_all_iff
        dest: in_set_butlastD)
qed

lemma run_ok_pauses:
  assumes "run_ok p n l" and "all_failed l" and "iter_pauses (MaxDelay p) l l'"
  shows "run_ok p (n + 1) l' \<and> all_failed l'"
  using assms by (auto simp: run_ok_def iter_pauses_def all_failed_def butlast_append)

lemma do_loop_bounded:
  assumes "0 < MaxDelay p" "StableReset p = 0" "0 \<le> MaxRetries p" "in_i64 (MaxRetries p)"
    and "0 \<le> attempt" "attempt \<le> MaxRetries p" "run_ok p attempt l" "all_failed l"
  shows "\<exists>r w' l'. do_loop (logged E) p bo attempt loopStart (w, l) = Some (r, (w', l')) \<and>
    run_ok p (MaxRetries p + 1) l' \<and> (r = DoNil \<longleftrightarrow> calls l' \<noteq> [] \<and> last (calls l') = Succeeded)"
  using assms(5-)
proof (induction "nat (MaxRetries p - attempt)" arbitrary: attempt bo w l rule: less_induct)
  case less
  obtain res w1 l1 where it: "do_iter (logged E) p bo attempt loopStart (w, l) = (res, (w1, l1))" by (metis surj_pair)
  note step = do_iter_logged [OF it assms(1)]
  show ?case
  proof (cases res)
    case (Inl r)
    then have "run_ok p (attempt + 1) l1 \<and> (r = DoNil \<longleftrightarrow> calls l1 \<noteq> [] \<and> last (calls l1) = Succeeded)"
      using run_ok_ends [OF less.prems(3,4,1), of "r = DoNil" l1] step(1) by simp
    then show ?thesis
      using it Inl less.prems(2) by (auto simp: do_loop.simps run_ok_def)
  next
    case (Inr nx)
    obtain bo' a' where nx: "nx = (bo', a')" by (cases nx)
    have s: "iter_pauses (MaxDelay p) l l1" "attempt < MaxRetries p" "a' = wrap64 (attempt + 1)"
      using step(2) [of bo' a'] Inr nx assms(2,3) by auto
    then have a': "a' = attempt + 1" using assms(4) less.prems(1) by (simp add: wrap64_id in_i64_def)
    have "run_ok p a' l1" "all_failed l1" using run_ok_pauses [OF less.prems(3,4) s(1)] a' by auto
    then obtain r w' l' where "do_loop (logged E) p bo' a' loopStart (w1, l1) = Some (r, (w', l'))"
      "run_ok p (MaxRetries p + 1) l'" "r = DoNil \<longleftrightarrow> calls l' \<noteq> [] \<and> last (calls l') = Succeeded"
      using less.hyps [of a' l1 bo' w1] a' s(2) less.prems(1) by auto
    then show ?thesis using it Inr nx by (auto simp: do_loop.simps [of _ _ bo])
  qed
qed

lemma policy_valid_MaxDelay: "policy_Validate p = None \<Longrightarrow> 0 < MaxDelay p"
  by (auto simp: policy_Validate_def split: if_splits)

text \<open>
  Property C30.  Bounded retries return.  For a valid policy with a retry limit and without
  stability detection, whatever the function, the context, the clock and the backoff do, \<^verbatim>\<open>Do\<close>
  returns; it has called the function at most once more than \<^verbatim>\<open>MaxRetries\<close>, every call but the last
  failed, the result is nil exactly if the last call succeeded, and no pause was longer than
  \<^verbatim>\<open>MaxDelay\<close>, not even one asked for by a server through \<^verbatim>\<open>DelayOverride\<close>.
\<close>

theorem retry_bounded_returns:
  assumes "policy_Validate p = None" and "StableReset p = 0" and "0 \<le> MaxRetries p" and "in_i64 (MaxRetries p)"
  shows "\<exists>r w l. doWithPolicy (logged E) p (w0, []) = Some (r, (w, l)) \<and>
    int (length (calls l)) \<le> MaxRetries p + 1 \<and>
    list_all (\<lambda>x. \<exists>e. x = Failed e) (butlast (calls l)) \<and>
    (r = DoNil \<longleftrightarrow> calls l \<noteq> [] \<and> last (calls l) = Succeeded) \<and>
    list_all (\<lambda>d. d \<le> MaxDelay p) (pauses l)"
proof -
  obtain t w1 where n: "re_now (logged E) (w0, []) = (t, (w1, []))"
    by (cases "re_now E w0") (simp add: logged_def)
  show ?thesis
    using do_loop_bounded [OF policy_valid_MaxDelay [OF assms(1)] assms(2-4), of 0 "[]" E "newBackOff (logged E) p" t w1] assms n
    by (auto simp: doWithPolicy_def run_ok_def all_failed_def)
qed

definition ex_env :: "(nat, nat, duration) renv" where
  "ex_env = \<lparr>re_ctxErr = (\<lambda>w. (None, w)), re_now = (\<lambda>w. (int w, w)),
     re_fn = (\<lambda>w. (if w < 2 then Failed w else Succeeded, Suc w)), re_sleep = (\<lambda>d w. (True, w)),
     re_onRetry = (\<lambda>_ _ _ w. w), re_newBackOff = (\<lambda>b _ _ _. b), re_NextBackOff = (\<lambda>b. (b, 2 * b)), re_Reset = (\<lambda>b. b)\<rparr>"

theorem retry_bounded_returns_witness:
  "\<exists>r w l. doWithPolicy (logged ex_env) (DefaultPolicy (\<lambda>_. Some True)) (0, []) = Some (r, (w, l)) \<and> length (calls l) \<le> 4"
proof -
  have v: "policy_Validate (DefaultPolicy (\<lambda>_. Some True) :: nat policy) = None"
    by (simp add: policy_Validate_def DefaultPolicy_def second_def)
  have "StableReset (DefaultPolicy (\<lambda>_. Some True) :: nat policy) = 0" "MaxRetries (DefaultPolicy (\<lambda>_. Some True) :: nat policy) = 3"
    by (simp_all add: DefaultPolicy_def)
  then show ?thesis using retry_bounded_returns [OF v, of ex_env 0] by (auto simp: in_i64_def)
qed

section \<open>Exhaustion\<close>

definition accepts_all :: "'e policy \<Rightarrow> bool" where
  "accepts_all p \<longleftrightarrow> (case RetryIf p of None \<Rightarrow> True | Some f \<Rightarrow> \<forall>err. f err = Some True)"

lemma evaluateRetry_plain:
  assumes "accepts_all p" and "MaxElapsedTime p = 0" and "StableReset p = 0" and "0 \<le> MaxRetries p"
  shows "attempt \<ge> MaxRetries p \<Longrightarrow>
      evaluateRetry E p bo attempt loopStart start err w = ((0, PlanStopMaxRetries), bo, attempt, w)"
    and "attempt < MaxRetries p \<Longrightarrow>
      \<exists>wait bo' w'. evaluateRetry E p bo attempt loopStart start err w = ((wait, PlanContinue), bo', attempt, w')"
  using assms
  by (auto simp: evaluateRetry_def since_at_least_def accepts_all_def callRetryIf_def Let_def split: option.splits prod.split)

text \<open>A world where the context lives, the function fails and the timer fires, with a policy that goes on.\<close>

definition failing_world :: "('w, 'e, 'b) renv \<Rightarrow> 'e policy \<Rightarrow> bool" where
  "failing_world E p \<longleftrightarrow> (\<forall>w. fst (re_ctxErr E w) = None) \<and> (\<forall>w. \<exists>e. fst (re_fn E w) = Failed e) \<and>
     (\<forall>d w. fst (re_sleep E d w)) \<and> accepts_all p \<and> MaxElapsedTime p = 0 \<and> StableReset p = 0 \<and>
     0 \<le> MaxRetries p \<and> in_i64 (MaxRetries p)"

lemma failing_worldD:
  assumes "failing_world E p"
  shows "fst (re_ctxErr E w) = None" "\<exists>e. fst (re_fn E w) = Failed e" "fst (re_sleep E d w)"
    "accepts_all p" "MaxElapsedTime p = 0" "StableReset p = 0" "0 \<le> MaxRetries p" "in_i64 (MaxRetries p)"
  using assms by (simp_all add: failing_world_def)

lemma failing_iter:
  assumes "failing_world E p"
  shows "\<exists>w1 w2 e. re_fn E w1 = (Failed e, w2) \<and>
     (attempt \<ge> MaxRetries p \<longrightarrow>
       (\<exists>w'. do_iter (logged E) p bo attempt loopStart (w, l) = (Inl (DoErr (Returned e)), (w', l @ [EvCall (Failed e)])))) \<and>
     (attempt < MaxRetries p \<longrightarrow>
       (\<exists>bo' w' d. do_iter (logged E) p bo attempt loopStart (w, l) =
          (Inr (bo', wrap64 (attempt + 1)), (w', l @ [EvCall (Failed e), EvSleep d]))))"
proof -
  note alive = failing_worldD(1) [OF assms] and fails = failing_worldD(2) [OF assms] and fires = failing_worldD(3) [OF assms]
  note patient = failing_worldD(4-6) [OF assms] and limit = failing_worldD(7-8) [OF assms]
  obtain w1 where c: "re_ctxErr E w = (None, w1)" using alive by (metis prod.collapse)
  obtain start w2 where n: "re_now E w1 = (start, w2)" by force
  obtain e w3 where f: "re_fn E w2 = (Failed e, w3)" using fails by (metis prod.collapse)
  obtain w4 where c2: "re_ctxErr E w3 = (None, w4)" using alive by (metis prod.collapse)
  have L: "re_ctxErr (logged E) (w, l) = (None, (w1, l))" "re_now (logged E) (w1, l) = (start, (w2, l))"
    "re_fn (logged E) (w2, l) = (Failed e, (w3, l @ [EvCall (Failed e)]))"
    "re_ctxErr (logged E) (w3, l @ [EvCall (Failed e)]) = (None, (w4, l @ [EvCall (Failed e)]))"
    by (simp_all add: logged_def c n f c2)
  note ev = evaluateRetry_plain [OF patient limit(1), of attempt "logged E" bo loopStart start "Returned e" "(w4, l @ [EvCall (Failed e)])"]
  have "\<exists>w'. do_iter (logged E) p bo attempt loopStart (w, l) = (Inl (DoErr (Returned e)), (w', l @ [EvCall (Failed e)]))"
    if "attempt \<ge> MaxRetries p"
    using ev(1) [OF that] by (simp add: do_iter_def L)
  moreover have "\<exists>bo' w' d. do_iter (logged E) p bo attempt loopStart (w, l) =
      (Inr (bo', wrap64 (attempt + 1)), (w', l @ [EvCall (Failed e), EvSleep d]))" if lt: "attempt < MaxRetries p"
  proof -
    obtain wait bo' w5 l5 where e: "evaluateRetry (logged E) p bo attempt loopStart start (Returned e) (w4, l @ [EvCall (Failed e)])
        = ((wait, PlanContinue), bo', attempt, (w5, l5))" using ev(2) [OF lt] by (metis surj_pair)
    have l5: "l5 = l @ [EvCall (Failed e)]" using evaluateRetry_logged(1) [OF e] .
    obtain w6 where s: "re_sleep E wait w5 = (True, w6)" using fires by (metis prod.collapse)
    have "re_sleep (logged E) wait (w5, l5) = (True, (w6, l @ [EvCall (Failed e), EvSleep wait]))"
      by (simp add: logged_def s l5)
    then show ?thesis by (simp add: do_iter_def L e)
  qed
  ultimately show ?thesis using f by blast
qed

lemma failing_loop:
  assumes fw: "failing_world E p" and "0 \<le> attempt" and "attempt \<le> MaxRetries p" and "int (length (calls l)) = attempt"
  shows "\<exists>e w' l'. do_loop (logged E) p bo attempt loopStart (w, l) = Some (DoErr (Returned e), (w', l')) \<and>
    int (length (calls l')) = MaxRetries p + 1 \<and> last (calls l') = Failed e"
  using assms(2-)
proof (induction "nat (MaxRetries p - attempt)" arbitrary: attempt bo w l rule: less_induct)
  case less
  show ?case
  proof (cases "attempt < MaxRetries p")
    case False
    then obtain e w' where "do_iter (logged E) p bo attempt loopStart (w, l) = (Inl (DoErr (Returned e)), (w', l @ [EvCall (Failed e)]))"
      using failing_iter [OF fw, of attempt bo loopStart w l] by (metis not_less)
    then show ?thesis using False less.prems by (simp add: do_loop.simps)
  next
    case True
    then obtain e bo' w' d where it: "do_iter (logged E) p bo attempt loopStart (w, l) =
        (Inr (bo', wrap64 (attempt + 1)), (w', l @ [EvCall (Failed e), EvSleep d]))"
      using failing_iter [OF fw, of attempt bo loopStart w l] by metis
    have a: "wrap64 (attempt + 1) = attempt + 1" using True less.prems(1) failing_worldD(8) [OF fw] by (simp add: wrap64_id in_i64_def)
    have "\<exists>e' w'' l'. do_loop (logged E) p bo' (attempt + 1) loopStart (w', l @ [EvCall (Failed e), EvSleep d]) =
        Some (DoErr (Returned e'), (w'', l')) \<and> int (length (calls l')) = MaxRetries p + 1 \<and> last (calls l') = Failed e'"
      by (rule less.hyps) (use True less.prems in auto)
    then show ?thesis using it a by (simp add: do_loop.simps [of _ _ bo])
  qed
qed

text \<open>
  A persistent failure is reported after exactly \<^verbatim>\<open>MaxRetries\<close> retries.  If every call
  fails with an error the policy retries, the context is never cancelled and there is no limit on
  the elapsed time, \<^verbatim>\<open>Do\<close> calls the function exactly once more than \<^verbatim>\<open>MaxRetries\<close> and returns the error
  of the last call.
\<close>

lemma retry_exhausts:
  assumes "policy_Validate p = None" and "StableReset p = 0" and "MaxElapsedTime p = 0"
    and "0 \<le> MaxRetries p" and "in_i64 (MaxRetries p)" and "accepts_all p"
    and "\<forall>w. fst (re_ctxErr E w) = None" and "\<forall>w. \<exists>e. fst (re_fn E w) = Failed e" and "\<forall>d w. fst (re_sleep E d w)"
  shows "\<exists>e w l. doWithPolicy (logged E) p (w0, []) = Some (DoErr (Returned e), (w, l)) \<and>
    int (length (calls l)) = MaxRetries p + 1 \<and> last (calls l) = Failed e"
proof -
  obtain t w1 where n: "re_now (logged E) (w0, []) = (t, (w1, []))"
    by (cases "re_now E w0") (simp add: logged_def)
  show ?thesis
    using failing_loop [of E p 0 "[]" "newBackOff (logged E) p" t w1] assms n
    by (simp add: doWithPolicy_def failing_world_def)
qed

definition ex_failing :: "(nat, nat, duration) renv" where
  "ex_failing = ex_env\<lparr>re_fn := (\<lambda>w. (Failed w, Suc w))\<rparr>"

lemma retry_exhausts_example:
  "\<exists>e w l. doWithPolicy (logged ex_failing) (DefaultPolicy (\<lambda>_. Some True)) (0, []) = Some (DoErr (Returned e), (w, l)) \<and>
     int (length (calls l)) = 4 \<and> last (calls l) = Failed e"
proof -
  have "policy_Validate (DefaultPolicy (\<lambda>_. Some True) :: nat policy) = None"
    by (simp add: policy_Validate_def DefaultPolicy_def second_def)
  from retry_exhausts [OF this, of ex_failing 0] show ?thesis
    by (simp add: DefaultPolicy_def accepts_all_def in_i64_def ex_failing_def ex_env_def)
qed

text \<open>The validation of a policy accepts NaN as factor and as jitter.\<close>

lemma policy_accepts_NaN: "policy_Validate ((DefaultPolicy f)\<lparr>Factor := NaN, Jitter := NaN\<rparr>) = None"
  by (simp add: policy_Validate_def DefaultPolicy_def second_def)

section \<open>Options\<close>

inductive kit_option :: "'e retry_option \<Rightarrow> bool" where
  "kit_option (WithMaxRetries n)"
| "kit_option (WithBaseDelay d)"
| "kit_option (WithMaxDelay d)"
| "kit_option (WithFactor f)"
| "kit_option (WithMaxElapsedTime d)"
| "kit_option (WithDelayOverride g)"
| "kit_option (WithJitter f)"
| "kit_option (WithStableReset d)"
| "kit_option (WithRetryIf h)"
| "kit_option (WithOnRetry b)"

lemma kit_option_valid:
  assumes "kit_option (Some g)" and "policy_Validate p = None"
  shows "policy_Validate (g p) = None"
  using assms
  by cases (auto simp: policy_Validate_def WithMaxRetries_def WithBaseDelay_def WithMaxDelay_def WithFactor_def
      WithMaxElapsedTime_def WithDelayOverride_def WithJitter_def WithStableReset_def WithRetryIf_def WithOnRetry_def
      split: if_splits)

text \<open>
  The options cannot produce an invalid policy.  Whatever options of the package are
  constructed without panic and applied to the default policy or to the worker policy, in whatever
  number and order, the policy passes validation, so \<^verbatim>\<open>Do\<close> and \<^verbatim>\<open>Loop\<close> do not panic on it.
\<close>

lemma options_keep_policy_valid:
  assumes "\<forall>g \<in> set opts. kit_option (Some g)"
  shows "policy_Validate (fold id opts (DefaultPolicy f)) = None \<and> policy_Validate (fold id opts WorkerPolicy) = None"
proof -
  have *: "policy_Validate (fold id opts p) = None" if "policy_Validate p = None" for p
    using assms that by (induction opts arbitrary: p) (auto dest: kit_option_valid)
  show ?thesis by (intro conjI *) (simp_all add: policy_Validate_def DefaultPolicy_def WorkerPolicy_def second_def)
qed

lemma options_keep_policy_valid_example:
  "policy_Validate (fold id [the (WithBaseDelay 5), the (WithFactor (Fin 3))] (DefaultPolicy (\<lambda>_. Some True) :: nat policy)) = None"
proof -
  have "kit_option (WithBaseDelay 5 :: nat retry_option)" "kit_option (WithFactor (Fin 3) :: nat retry_option)"
    by (rule kit_option.intros)+
  then have "kit_option (Some (the (WithBaseDelay 5 :: nat retry_option)))" "kit_option (Some (the (WithFactor (Fin 3) :: nat retry_option)))"
    by (simp_all add: WithBaseDelay_def WithFactor_def)
  then have "\<forall>g \<in> set [the (WithBaseDelay 5), the (WithFactor (Fin 3) :: nat retry_option)]. kit_option (Some g)" by simp
  from options_keep_policy_valid [OF this, of "\<lambda>_. Some True"] show ?thesis by blast
qed

end
