(* ===== verification/Timeout_Budget.thy ===== *)
theory Timeout_Budget
  imports Go_Prelude
begin

text \<open>
  A time budget that the calls of one request share: \<^verbatim>\<open>resilience/timeoutbudget/budget.go\<close>.

  The budget is a record; every method runs under its mutex and is one step.  The function that
  \<^verbatim>\<open>WithReservation\<close> returns is a value: the duration and the generation it closes over and whether
  its \<^verbatim>\<open>sync.Once\<close> has fired.  A context is represented by its deadline, if it has one.

  Result: however reservations, restores and clears interleave, what is reserved is exactly the
  sum of the reservations that are neither restored nor cleared, and what remains is what is left
  until the deadline minus that sum.  Which those are is read off the sequence of calls alone
  (\<open>ledger\<close>), without the budget's generation counter and the flags of the restore functions.
\<close>

section \<open>The budget\<close>

record tbudget =
  tb_deadline :: time
  tb_total :: duration
  tb_reservation :: duration
  tb_gen :: "64 word"

type_synonym ctx_deadline = "time option"

definition WithDeadline :: "ctx_deadline \<Rightarrow> time \<Rightarrow> ctx_deadline" where
  "WithDeadline parent d = (case parent of None \<Rightarrow> Some d | Some p \<Rightarrow> Some (min p d))"

text \<open>\<^const>\<open>None\<close> is a panic.\<close>

definition tb_New :: "time \<Rightarrow> ctx_deadline \<Rightarrow> duration \<Rightarrow> (ctx_deadline \<times> tbudget) option" where
  "tb_New now parent tot =
     (if tot \<le> 0 then None
      else let b = \<lparr>tb_deadline = now + tot, tb_total = tot, tb_reservation = 0, tb_gen = 0\<rparr>
           in Some (WithDeadline parent (tb_deadline b), b))"

definition Remaining :: "time \<Rightarrow> tbudget \<Rightarrow> duration" where
  "Remaining now b =
     (let rem = wrap64 (time_sub (tb_deadline b) now - tb_reservation b)
      in if rem < 0 then 0 else rem)"

definition Used :: "time \<Rightarrow> tbudget \<Rightarrow> duration" where
  "Used now b =
     (let used = wrap64 (tb_total b - time_sub (tb_deadline b) now)
      in if used < 0 then 0 else if used > tb_total b then tb_total b else used)"

definition Reservation :: "tbudget \<Rightarrow> duration" where
  "Reservation b = tb_reservation b"

record restore_fn =
  rf_d :: duration
  rf_gen :: "64 word"
  rf_done :: bool

definition WithReservation :: "duration \<Rightarrow> tbudget \<Rightarrow> restore_fn \<times> tbudget" where
  "WithReservation d b =
     (if d > 0
      then (\<lparr>rf_d = d, rf_gen = tb_gen b, rf_done = False\<rparr>, b\<lparr>tb_reservation := wrap64 (tb_reservation b + d)\<rparr>)
      else (\<lparr>rf_d = d, rf_gen = tb_gen b + 1, rf_done = False\<rparr>, b\<lparr>tb_reservation := 0, tb_gen := tb_gen b + 1\<rparr>))"

definition restore :: "restore_fn \<Rightarrow> tbudget \<Rightarrow> restore_fn \<times> tbudget" where
  "restore f b =
     (if rf_done f then (f, b)
      else (f\<lparr>rf_done := True\<rparr>,
            if rf_d f \<le> 0 then b
            else if tb_gen b = rf_gen f
            then let r = wrap64 (tb_reservation b - rf_d f) in b\<lparr>tb_reservation := if r < 0 then 0 else r\<rparr>
            else b))"

definition Clear :: "tbudget \<Rightarrow> tbudget" where
  "Clear b = b\<lparr>tb_reservation := 0, tb_gen := tb_gen b + 1\<rparr>"

datatype tb_error = TbExhausted | TbNilContext

text \<open>\<open>now\<close> is the budget's clock, \<open>sysnow\<close> the system clock that \<^verbatim>\<open>context.WithTimeout\<close> reads.\<close>

definition WithRemaining :: "time \<Rightarrow> time \<Rightarrow> ctx_deadline option \<Rightarrow> tbudget \<Rightarrow> tb_error + ctx_deadline" where
  "WithRemaining now sysnow parent b =
     (case parent of
        None \<Rightarrow> Inl TbNilContext
      | Some p \<Rightarrow>
          let rem = Remaining now b
          in if rem \<le> 0 then Inl TbExhausted else Inr (WithDeadline p (sysnow + rem)))"

section \<open>Interleavings\<close>

datatype tb_op = TReserve duration | TRestore nat | TClear

type_synonym tb_state = "tbudget \<times> restore_fn list"

text \<open>The restore functions handed out, in the order of the calls; each may be called at any time.\<close>

fun tb_step :: "tb_op \<Rightarrow> tb_state \<Rightarrow> tb_state" where
  "tb_step (TReserve d) (b, fs) = (case WithReservation d b of (f, b') \<Rightarrow> (b', fs @ [f]))"
| "tb_step (TRestore i) (b, fs) =
     (if i < length fs then case restore (fs ! i) b of (f, b') \<Rightarrow> (b', fs[i := f]) else (b, fs))"
| "tb_step TClear (b, fs) = (Clear b, fs)"

definition tb_run :: "tb_op list \<Rightarrow> tb_state \<Rightarrow> tb_state" where
  "tb_run ops s = fold tb_step ops s"

section \<open>The specification\<close>

text \<open>
  The ledger of a sequence of calls has one entry per call of \<^verbatim>\<open>WithReservation\<close>: what that call still
  holds back.  A positive reservation adds its duration; a restore sets its own entry to zero; a
  clear, or a reservation that is not positive, sets every entry to zero.
\<close>

fun ledger_step :: "tb_op \<Rightarrow> duration list \<Rightarrow> duration list" where
  "ledger_step (TReserve d) L = (if d > 0 then L @ [d] else map (\<lambda>_. 0) L @ [0])"
| "ledger_step (TRestore i) L = L[i := 0]"
| "ledger_step TClear L = map (\<lambda>_. 0) L"

definition ledger :: "tb_op list \<Rightarrow> duration list" where
  "ledger ops = fold ledger_step ops []"

definition outstanding :: "tb_op list \<Rightarrow> duration" where
  "outstanding ops = sum_list (ledger ops)"

section \<open>Refinement\<close>

text \<open>What a restore function still holds back.\<close>

definition holds :: "64 word \<Rightarrow> restore_fn \<Rightarrow> duration" where
  "holds g f = (if \<not> rf_done f \<and> rf_d f > 0 \<and> rf_gen f = g then rf_d f else 0)"

definition held :: "tb_state \<Rightarrow> duration list" where
  "held s = map (holds (tb_gen (fst s))) (snd s)"

fun op_reserves :: "tb_op \<Rightarrow> duration" where
  "op_reserves (TReserve d) = max 0 d"
| "op_reserves _ = 0"

text \<open>The budget after \<open>n\<close> calls that reserved at most \<open>r\<close>, with ledger \<open>L\<close>.\<close>

definition tb_inv :: "nat \<Rightarrow> duration \<Rightarrow> duration list \<Rightarrow> tb_state \<Rightarrow> bool" where
  "tb_inv n r L s \<longleftrightarrow>
     held s = L \<and> tb_reservation (fst s) = sum_list L \<and> sum_list L \<le> r \<and>
     unat (tb_gen (fst s)) \<le> n \<and> (\<forall>f \<in> set (snd s). unat (rf_gen f) \<le> unat (tb_gen (fst s)))"

lemma holds_nonneg: "0 \<le> holds g f"
  by (simp add: holds_def)

lemma held_nonneg: "x \<in> set (held s) \<Longrightarrow> 0 \<le> x"
  by (auto simp: held_def holds_nonneg)

lemma tb_inv_sum: "tb_inv n r L s \<Longrightarrow> 0 \<le> sum_list L"
  using held_nonneg [of _ s] by (auto simp: tb_inv_def intro!: sum_list_nonneg)

lemma sum_list_zero [simp]: "sum_list (map (\<lambda>_. 0 :: int) L) = 0"
  by (induction L) simp_all

text \<open>Advancing the generation releases every reservation, as long as the counter does not wrap.\<close>

lemma held_next_gen:
  assumes "tb_inv n r L (b, fs)" and "Suc n < 2 ^ 64"
  shows "map (holds (tb_gen b + 1)) fs = map (\<lambda>_. 0) L" and "unat (tb_gen b + 1) = Suc (unat (tb_gen b))"
proof -
  have "unat (tb_gen b) \<le> n" using assms(1) by (simp add: tb_inv_def)
  then have "unat (tb_gen b) + unat (1 :: 64 word) < 2 ^ LENGTH(64)" using assms(2) by simp
  then show g: "unat (tb_gen b + 1) = Suc (unat (tb_gen b))" using unat_add_lem [of "tb_gen b" 1] by simp
  have "holds (tb_gen b + 1) f = 0" if "f \<in> set fs" for f
    using assms(1) that g by (auto simp: tb_inv_def holds_def)
  moreover have "L = map (holds (tb_gen b)) fs" using assms(1) by (simp add: tb_inv_def held_def)
  ultimately show "map (holds (tb_gen b + 1)) fs = map (\<lambda>_. 0) L" by simp
qed

lemma tb_inv_reserve:
  assumes "tb_inv n r L (b, fs)" and "Suc n < 2 ^ 64" and "r + max 0 d \<le> i64_max"
  shows "tb_inv (Suc n) (r + max 0 d) (ledger_step (TReserve d) L) (tb_step (TReserve d) (b, fs))"
proof (cases "d > 0")
  case True
  have "in_i64 (sum_list L + d)" using assms(1,3) tb_inv_sum [OF assms(1)] True by (auto simp: tb_inv_def in_i64_def)
  then show ?thesis
    using assms(1) True by (auto simp: tb_inv_def WithReservation_def held_def wrap64_id holds_def)
next
  case False
  note g = held_next_gen [OF assms(1,2)]
  have "0 \<le> r" using assms(1) tb_inv_sum [OF assms(1)] by (simp add: tb_inv_def)
  moreover have "holds (tb_gen b + 1) \<lparr>rf_d = d, rf_gen = tb_gen b + 1, rf_done = False\<rparr> = 0" using False by (simp add: holds_def)
  ultimately show ?thesis
    using assms(1) False g by (fastforce simp: tb_inv_def WithReservation_def held_def)
qed

lemma tb_inv_clear:
  assumes "tb_inv n r L (b, fs)" and "Suc n < 2 ^ 64"
  shows "tb_inv (Suc n) r (ledger_step TClear L) (tb_step TClear (b, fs))"
  using assms held_next_gen [OF assms] tb_inv_sum [OF assms(1)]
  by (fastforce simp: tb_inv_def Clear_def held_def)

lemma tb_inv_restore:
  assumes "tb_inv n r L (b, fs)" and "r \<le> i64_max"
  shows "tb_inv (Suc n) r (ledger_step (TRestore i) L) (tb_step (TRestore i) (b, fs))"
proof (cases "i < length fs")
  case True
  define f where "f = fs ! i"
  define h where "h = holds (tb_gen b) f"
  obtain f' b' where res: "restore f b = (f', b')" by force
  have L: "L = map (holds (tb_gen b)) fs" and sum: "tb_reservation b = sum_list L" "sum_list L \<le> r"
    using assms(1) by (simp_all add: tb_inv_def held_def)
  have Li: "L ! i = h" "i < length L" using True by (simp_all add: L h_def f_def)
  have pos: "\<forall>x \<in> set L. 0 \<le> x" by (auto simp: L holds_nonneg)
  moreover have "h \<in> set L" using Li nth_mem by blast
  ultimately have "h \<le> sum_list L" "0 \<le> h" using member_le_sum_list [of h L] by auto
  then have "in_i64 (tb_reservation b - h)" "0 \<le> tb_reservation b - h" using sum assms(2) by (auto simp: in_i64_def)
  then have b': "tb_reservation b' = tb_reservation b - h" "tb_gen b' = tb_gen b"
    and f': "holds (tb_gen b) f' = 0" "rf_gen f' = rf_gen f"
    using res by (auto simp: restore_def h_def holds_def Let_def wrap64_id split: if_splits)
  have "held (b', fs[i := f']) = L[i := 0]"
    by (simp add: held_def b'(2) L map_update f'(1))
  moreover have "sum_list (L[i := 0]) = sum_list L - h"
    using Li sum_list_update_int [of i L id 0] by simp
  moreover have "unat (rf_gen x) \<le> unat (tb_gen b)" if "x \<in> set (fs[i := f'])" for x
    using that assms(1) f'(2) True set_update_subset_insert [of fs i f'] by (auto simp: tb_inv_def f_def)
  ultimately show ?thesis
    using assms(1) b' sum \<open>0 \<le> h\<close> True res by (auto simp: tb_inv_def f_def)
next
  case False
  then have "L[i := 0] = L" using assms(1) by (auto simp: tb_inv_def held_def list_update_beyond)
  then show ?thesis using assms(1) False by (auto simp: tb_inv_def)
qed

lemma tb_inv_run:
  assumes "length ops < 2 ^ 64" and "sum_list (map op_reserves ops) \<le> i64_max"
  shows "tb_inv (length ops) (sum_list (map op_reserves ops)) (ledger ops)
    (tb_run ops (\<lparr>tb_deadline = dl, tb_total = tot, tb_reservation = 0, tb_gen = 0\<rparr>, []))"
  using assms
proof (induction ops rule: rev_induct)
  case Nil
  then show ?case by (simp add: tb_run_def tb_inv_def ledger_def held_def)
next
  case (snoc x ops)
  define s where "s = tb_run ops (\<lparr>tb_deadline = dl, tb_total = tot, tb_reservation = 0, tb_gen = 0\<rparr>, [])"
  have "0 \<le> op_reserves x" by (cases x) auto
  then have le: "sum_list (map op_reserves ops) \<le> i64_max" using snoc.prems(2) by simp
  then have "tb_inv (length ops) (sum_list (map op_reserves ops)) (ledger ops) s" using snoc by (simp add: s_def)
  then have "tb_inv (Suc (length ops)) (sum_list (map op_reserves (ops @ [x]))) (ledger_step x (ledger ops)) (tb_step x s)"
    using snoc.prems le tb_inv_reserve tb_inv_clear tb_inv_restore
    by (cases s; cases x) (simp_all del: tb_step.simps ledger_step.simps)
  then show ?case by (simp add: tb_run_def s_def ledger_def)
qed

lemma tb_run_deadline: "tb_deadline (fst (tb_run ops s)) = tb_deadline (fst s)"
proof (induction ops arbitrary: s)
  case (Cons x ops)
  have "tb_deadline (fst (tb_step x s)) = tb_deadline (fst s)"
    by (cases s; cases x) (auto simp: WithReservation_def restore_def Clear_def Let_def)
  then show ?case using Cons by (simp add: tb_run_def)
qed (simp add: tb_run_def)

text \<open>
  Property C35.  Reservations are exact.  From a new budget, after any interleaving of reservations,
  calls of the restore functions (in any order, repeated or not) and clears, the time held back is
  the sum of the ledger of these calls: of the positive reservations after which there was neither a call of their
  restore function, nor a clear, nor a reservation that is not positive.  \<^verbatim>\<open>Remaining\<close> is the time to
  the deadline minus that sum, and 0 when there is none.  The durations reserved must not add up to more than an
  \<^verbatim>\<open>int64\<close>, nor must the time that is left overflow, and there are fewer than \<open>2 ^ 64\<close> calls.
\<close>

theorem timeoutbudget_exact:
  assumes "tb_New now0 parent tot = Some (ctx, b0)" and "length ops < 2 ^ 64"
    and "sum_list (map op_reserves ops) \<le> i64_max"
    and "in_i64 (now0 + tot - now)" and "in_i64 (now0 + tot - now - sum_list (map op_reserves ops))"
  shows "Reservation (fst (tb_run ops (b0, []))) = outstanding ops \<and>
    Remaining now (fst (tb_run ops (b0, []))) = max 0 (now0 + tot - now - outstanding ops)"
proof -
  define s where "s = tb_run ops (b0, [])"
  have b0: "b0 = \<lparr>tb_deadline = now0 + tot, tb_total = tot, tb_reservation = 0, tb_gen = 0\<rparr>"
    using assms(1) by (auto simp: tb_New_def Let_def split: if_splits)
  have inv: "tb_inv (length ops) (sum_list (map op_reserves ops)) (ledger ops) s"
    unfolding s_def b0 by (rule tb_inv_run [OF assms(2,3)])
  have ob: "0 \<le> outstanding ops" "outstanding ops \<le> sum_list (map op_reserves ops)"
    using tb_inv_sum [OF inv] inv by (simp_all add: tb_inv_def outstanding_def)
  have "tb_deadline (fst s) = now0 + tot" by (simp add: s_def tb_run_deadline b0)
  moreover have "in_i64 (now0 + tot - now - outstanding ops)" using ob assms(4,5) by (auto simp: in_i64_def)
  ultimately have "Remaining now (fst s) = max 0 (now0 + tot - now - outstanding ops)"
    using inv assms(4) by (auto simp: Remaining_def Let_def tb_inv_def wrap64_id time_sub_in outstanding_def)
  then show ?thesis using inv by (simp add: s_def Reservation_def tb_inv_def outstanding_def)
qed

theorem timeoutbudget_exact_witness:
  "Remaining 40 (fst (tb_run [TReserve 10, TReserve 20, TClear, TReserve 5, TRestore 0, TRestore 1, TRestore 0]
     (\<lparr>tb_deadline = 100, tb_total = 100, tb_reservation = 0, tb_gen = 0\<rparr>, []))) = 55"
proof -
  let ?b = "\<lparr>tb_deadline = 100, tb_total = 100, tb_reservation = 0, tb_gen = 0\<rparr>"
  let ?ops = "[TReserve 10, TReserve 20, TClear, TReserve 5, TRestore 0, TRestore 1, TRestore 0]"
  have "outstanding ?ops = 5" by (simp add: outstanding_def ledger_def)
  moreover have "tb_New 0 None 100 = Some (Some 100, ?b)" by (simp add: tb_New_def WithDeadline_def)
  ultimately show ?thesis
    using timeoutbudget_exact [of 0 None 100 "Some 100" ?b ?ops 40] by (simp add: in_i64_def)
qed

end
