(* ===== verification/Bulkhead.thy ===== *)
theory Bulkhead
  imports Go_Strings
begin

text \<open>
  A concurrency limit: \<^verbatim>\<open>resilience/bulkhead/bulkhead.go\<close>.

  The semaphore is a buffered channel, so its state is the number of tokens in it; the counter of
  calls in flight is a separate atomic.  The goroutines that call \<^verbatim>\<open>ExecuteCtx\<close> are a list of
  program counters and one step is one atomic action of one goroutine, in any order: a send to or
  a receive from the channel, an update of the counter, the call of the function.  Metrics and
  logging are left out.

  Result: no interleaving lets more functions run at once than the capacity, the release never
  blocks, and when all calls have returned, by success, error or panic, every slot is free again.
\<close>

datatype bh_error = BhNilContext | BhNilFn | BhCtx ctx_error | BhFull

datatype fn_end = FnOk | FnErr | FnPanic

datatype bh_result = BhDone fn_end | BhRefused bh_error

record bulkhead =
  bh_name :: string
  bh_max :: int
  bh_current :: int
  bh_maxWait :: duration
  bh_semaphore :: int

text \<open>The check of the name, from \<^verbatim>\<open>observability/promutil/label_value.go\<close>; true when it returns an error.\<close>

definition MaxStaticLabelValueBytes :: nat where "MaxStaticLabelValueBytes = 256"

definition containsInvalidLabelRune :: "string \<Rightarrow> bool" where
  "containsInvalidLabelRune value =
     (case runes value of
        None \<Rightarrow> True
      | Some rs \<Rightarrow> list_ex (\<lambda>r. is_control r \<or> is_space r) rs)"

definition invalidStaticLabelValue :: "string \<Rightarrow> bool" where
  "invalidStaticLabelValue value \<longleftrightarrow>
     value = [] \<or> length value > MaxStaticLabelValueBytes \<or> containsInvalidLabelRune value"

text \<open>The options; metrics and the logger are no part of the state here.  \<^const>\<open>None\<close> is a panic.\<close>

datatype bh_option = NilOption | WithMaxQueueWait duration | WithMetrics | WithLogger

fun bh_apply :: "bh_option list \<Rightarrow> bulkhead \<Rightarrow> bulkhead option" where
  "bh_apply [] b = Some b"
| "bh_apply (NilOption # opts) b = None"
| "bh_apply (WithMaxQueueWait d # opts) b = bh_apply opts (b\<lparr>bh_maxWait := d\<rparr>)"
| "bh_apply (WithMetrics # opts) b = bh_apply opts b"
| "bh_apply (WithLogger # opts) b = bh_apply opts b"

definition bh_New :: "string \<Rightarrow> int \<Rightarrow> bh_option list \<Rightarrow> bulkhead option" where
  "bh_New name mx opts =
     (if mx \<le> 0 then None
      else if invalidStaticLabelValue name then None
      else bh_apply opts \<lparr>bh_name = name, bh_max = mx, bh_current = 0, bh_maxWait = 0, bh_semaphore = 0\<rparr>)"

definition InFlight :: "bulkhead \<Rightarrow> int" where
  "InFlight b = bh_current b"

definition Capacity :: "bulkhead \<Rightarrow> int" where
  "Capacity b = bh_max b"

text \<open>Where a goroutine is in \<^verbatim>\<open>ExecuteCtx\<close>.\<close>

datatype pc =
    Entry            \<comment> \<open>about to check its arguments\<close>
  | Acquiring        \<comment> \<open>at the first \<^verbatim>\<open>select\<close> of \<^verbatim>\<open>acquire\<close>\<close>
  | Waiting          \<comment> \<open>at the second \<^verbatim>\<open>select\<close> of \<^verbatim>\<open>acquire\<close>\<close>
  | Sent             \<comment> \<open>token sent, counter not yet incremented\<close>
  | Running          \<comment> \<open>inside the function\<close>
  | Releasing fn_end \<comment> \<open>deferred \<^verbatim>\<open>release\<close>, before the decrement\<close>
  | Draining fn_end  \<comment> \<open>counter decremented, token not yet received\<close>
  | Returned bh_result

text \<open>The argument checks of \<^verbatim>\<open>ExecuteCtx\<close>, for what the call is given and the context says.\<close>

definition entry_check :: "bool \<Rightarrow> bool \<Rightarrow> ctx_error option \<Rightarrow> pc" where
  "entry_check nilCtx nilFn err =
     (if nilCtx then Returned (BhRefused BhNilContext)
      else if nilFn then Returned (BhRefused BhNilFn)
      else case err of Some e \<Rightarrow> Returned (BhRefused (BhCtx e)) | None \<Rightarrow> Acquiring)"

definition acquire_now :: "bulkhead \<Rightarrow> bulkhead \<times> pc" where
  "acquire_now b =
     (if bh_semaphore b < bh_max b then (b\<lparr>bh_semaphore := bh_semaphore b + 1\<rparr>, Sent)
      else (b, if bh_maxWait b \<le> 0 then Returned (BhRefused BhFull) else Waiting))"

text \<open>The steps of one goroutine.\<close>

inductive bh_step :: "bulkhead \<times> pc \<Rightarrow> bulkhead \<times> pc \<Rightarrow> bool" where
  enter: "bh_step (b, Entry) (b, entry_check nilCtx nilFn err)"
| first: "bh_step (b, Acquiring) (acquire_now b)"
| send: "bh_semaphore b < bh_max b \<Longrightarrow> bh_step (b, Waiting) (b\<lparr>bh_semaphore := bh_semaphore b + 1\<rparr>, Sent)"
| cancelled: "bh_step (b, Waiting) (b, Returned (BhRefused (BhCtx e)))"
| timeout: "bh_step (b, Waiting) (b, Returned (BhRefused BhFull))"
| incr: "bh_step (b, Sent) (b\<lparr>bh_current := bh_current b + 1\<rparr>, Running)"
| finish: "bh_step (b, Running) (b, Releasing x)"
| decr: "bh_step (b, Releasing x) (b\<lparr>bh_current := bh_current b - 1\<rparr>, Draining x)"
| receive: "bh_semaphore b > 0 \<Longrightarrow> bh_step (b, Draining x) (b\<lparr>bh_semaphore := bh_semaphore b - 1\<rparr>, Returned (BhDone x))"

inductive_cases bh_stepE: "bh_step (b, pc) (b', pc')"

inductive bh_reachable :: "bulkhead \<Rightarrow> bulkhead \<times> pc list \<Rightarrow> bool" for b0 where
  start: "bh_reachable b0 (b0, replicate n Entry)"
| step: "bh_reachable b0 (b, pcs) \<Longrightarrow> i < length pcs \<Longrightarrow> bh_step (b, pcs ! i) (b', pc) \<Longrightarrow>
    bh_reachable b0 (b', pcs[i := pc])"

section \<open>The invariant\<close>

fun token :: "pc \<Rightarrow> int" where
  "token Sent = 1"
| "token Running = 1"
| "token (Releasing x) = 1"
| "token (Draining x) = 1"
| "token _ = 0"

fun counted :: "pc \<Rightarrow> int" where
  "counted Running = 1"
| "counted (Releasing x) = 1"
| "counted _ = 0"

fun running :: "pc \<Rightarrow> int" where
  "running Running = 1"
| "running _ = 0"

definition bh_inv :: "bulkhead \<Rightarrow> bulkhead \<times> pc list \<Rightarrow> bool" where
  "bh_inv b0 s \<longleftrightarrow>
     bh_max (fst s) = bh_max b0 \<and> bh_semaphore (fst s) = sum_list (map token (snd s)) \<and>
     bh_current (fst s) = sum_list (map counted (snd s)) \<and> bh_semaphore (fst s) \<le> bh_max (fst s)"

lemma bh_step_counts:
  assumes "bh_step (b, pc) (b', pc')"
  shows "bh_max b' = bh_max b" and "bh_semaphore b' - bh_semaphore b = token pc' - token pc"
    and "bh_current b' - bh_current b = counted pc' - counted pc"
    and "bh_semaphore b \<le> bh_max b \<Longrightarrow> bh_semaphore b' \<le> bh_max b'"
  using assms by (auto elim!: bh_stepE simp: entry_check_def acquire_now_def split: if_splits option.splits)

lemma bh_apply_keeps:
  "bh_apply opts b = Some b' \<Longrightarrow> bh_max b' = bh_max b \<and> bh_current b' = bh_current b \<and> bh_semaphore b' = bh_semaphore b"
  by (induction opts b rule: bh_apply.induct) auto

lemma bh_reachable_inv:
  assumes "bh_New name mx opts = Some b0" and "bh_reachable b0 s"
  shows "bh_inv b0 s"
  using assms(2)
proof (induction rule: bh_reachable.induct)
  case (start n)
  then show ?case using assms(1)
    by (auto simp: bh_inv_def bh_New_def sum_list_replicate split: if_splits dest!: bh_apply_keeps)
next
  case (step b pcs i b' pc)
  note c = bh_step_counts [OF step.hyps(3)]
  show ?case
    using step.IH step.hyps(2) c by (simp add: bh_inv_def sum_list_update_int)
qed

lemma token_bounds: "0 \<le> counted x" "counted x \<le> token x" "running x \<le> counted x" "0 \<le> token x"
  by (cases x; simp)+

text \<open>
  Property C20.  The limit holds.  In every state that any number of concurrent \<^verbatim>\<open>ExecuteCtx\<close> calls can
  reach, by any interleaving, at most \<^verbatim>\<open>max\<close> functions run, \<^verbatim>\<open>InFlight\<close> is between the number of running
  functions and the capacity, and a goroutine that is about to give its token back finds one in
  the channel, so the release does not block; once all calls have returned the channel is empty
  and \<^verbatim>\<open>InFlight\<close> is 0.
\<close>

theorem bulkhead_limits:
  assumes "bh_New name mx opts = Some b0" and "bh_reachable b0 (b, pcs)"
  shows "sum_list (map running pcs) \<le> InFlight b \<and> InFlight b \<le> Capacity b0 \<and>
    ((\<exists>x. Draining x \<in> set pcs) \<longrightarrow> 0 < bh_semaphore b) \<and>
    (list_all (\<lambda>pc. \<exists>r. pc = Returned r) pcs \<longrightarrow> bh_semaphore b = 0 \<and> InFlight b = 0)"
proof -
  have inv: "bh_max b = bh_max b0" "bh_semaphore b = sum_list (map token pcs)" "bh_current b = sum_list (map counted pcs)"
    "bh_semaphore b \<le> bh_max b"
    using bh_reachable_inv [OF assms] by (simp_all add: bh_inv_def)
  have "sum_list (map running pcs) \<le> sum_list (map counted pcs)" "sum_list (map counted pcs) \<le> sum_list (map token pcs)"
    by (rule sum_list_mono, simp add: token_bounds)+
  moreover have "0 < bh_semaphore b" if "Draining x \<in> set pcs" for x
  proof -
    have "token (Draining x) \<le> sum_list (map token pcs)"
      using that by (auto simp: token_bounds simp del: token.simps intro!: member_le_sum_list)
    then show ?thesis using inv(2) by simp
  qed
  moreover have "bh_semaphore b = 0 \<and> bh_current b = 0" if "list_all (\<lambda>pc. \<exists>r. pc = Returned r) pcs"
  proof -
    have "\<forall>pc \<in> set pcs. token pc = 0 \<and> counted pc = 0" using that by (auto simp: list_all_iff)
    then show ?thesis unfolding inv(2,3) by (simp add: sum_list_0 cong: map_cong)
  qed
  ultimately show ?thesis using inv by (auto simp: InFlight_def Capacity_def)
qed

theorem bulkhead_limits_witness:
  "\<exists>b. bh_reachable \<lparr>bh_name = ''db'', bh_max = 1, bh_current = 0, bh_maxWait = 5, bh_semaphore = 0\<rparr> (b, [Sent, Entry]) \<and> InFlight b \<le> 1"
proof -
  let ?b0 = "\<lparr>bh_name = ''db'', bh_max = 1, bh_current = 0, bh_maxWait = 5, bh_semaphore = 0\<rparr>"
  have "\<not> invalidStaticLabelValue ''db''"
    by (simp add: invalidStaticLabelValue_def MaxStaticLabelValueBytes_def containsInvalidLabelRune_def runes_ascii
        is_control_def is_space_def)
  then have n: "bh_New ''db'' 1 [WithMaxQueueWait 5, WithLogger] = Some ?b0" by (simp add: bh_New_def)
  have "bh_reachable ?b0 (?b0, replicate 2 Entry)" by (rule start)
  then have "bh_reachable ?b0 (?b0, (replicate 2 Entry)[0 := Acquiring])"
    by (rule step) (use enter [of ?b0 False False None] in \<open>simp_all add: entry_check_def\<close>)
  then have "bh_reachable ?b0 (?b0\<lparr>bh_semaphore := 1\<rparr>, (replicate 2 Entry)[0 := Acquiring, 0 := Sent])"
    by (rule step) (use first [of ?b0] in \<open>simp_all add: acquire_now_def numeral_2_eq_2\<close>)
  then have r: "bh_reachable ?b0 (?b0\<lparr>bh_semaphore := 1\<rparr>, [Sent, Entry])" by (simp add: numeral_2_eq_2)
  then show ?thesis using bulkhead_limits [OF n r] by (auto simp: Capacity_def)
qed

end
