(* ===== verification/Messaging.thy ===== *)
theory Messaging
  imports Go_Strings
begin

text \<open>
  The transport-agnostic message contract of \<^verbatim>\<open>infra/messaging\<close>: the route checks of
  \<^verbatim>\<open>route.go\<close>, messages and their headers (\<^verbatim>\<open>message.go\<close>) and the size policy
  (\<^verbatim>\<open>size_limit.go\<close>).

  Every validator returns \<open>None\<close> for nil and the sentinel with its reason otherwise.  A headers map is a
  Go map; the order in which \<^verbatim>\<open>range\<close> visits it is the argument \<open>ks\<close>.  Constructors that panic give
  \<open>None\<close>.  \<^verbatim>\<open>json.Valid\<close> is the argument \<open>jsonValid\<close>.  Sizes are sums of lengths of
  objects in memory, so their \<^verbatim>\<open>int\<close> arithmetic does not wrap.
\<close>

section \<open>Routes\<close>

definition MaxRouteNameBytes :: nat where
  "MaxRouteNameBytes = 255"

datatype part_error = PartEmpty | PartTooLong | PartNotUTF8 | PartControlOrSpace

datatype msg_error =
    ErrInvalidRoute string part_error
  | ErrInvalidMessage string part_error
  | ErrInvalidPayload
  | ErrInvalidMessageHeader string part_error
  | ErrTooManyHeaders
  | MessageTooLargeError string string int int

definition validateRoutePart :: "string \<Rightarrow> string \<Rightarrow> bool \<Rightarrow> msg_error option" where
  "validateRoutePart kind v allowEmpty =
     (if v = [] then
        (if allowEmpty then None else Some (ErrInvalidRoute kind PartEmpty))
      else if length v > MaxRouteNameBytes then Some (ErrInvalidRoute kind PartTooLong)
      else case runes v of
        None \<Rightarrow> Some (ErrInvalidRoute kind PartNotUTF8)
      | Some rs \<Rightarrow>
          if list_ex (\<lambda>r. is_control r \<or> is_space r) rs
          then Some (ErrInvalidRoute kind PartControlOrSpace) else None)"

definition ValidateExchangeName :: "string \<Rightarrow> msg_error option" where
  "ValidateExchangeName exchange = validateRoutePart ''exchange name'' exchange False"

definition ValidateRoutingKey :: "string \<Rightarrow> msg_error option" where
  "ValidateRoutingKey routingKey = validateRoutePart ''routing key'' routingKey True"

definition ValidatePublishRoute :: "string \<Rightarrow> string \<Rightarrow> msg_error option" where
  "ValidatePublishRoute exchange routingKey =
     (case ValidateExchangeName exchange of
        Some err \<Rightarrow> Some err
      | None \<Rightarrow>
          (case ValidateRoutingKey routingKey of
             Some err \<Rightarrow> Some err
           | None \<Rightarrow> None))"

section \<open>Messages\<close>

definition MaxMessageIDBytes :: nat where
  "MaxMessageIDBytes = 255"

definition MaxMessageTypeBytes :: nat where
  "MaxMessageTypeBytes = 256"

definition MaxMessageHeaderNameBytes :: nat where
  "MaxMessageHeaderNameBytes = 128"

definition MaxMessageHeaderValueBytes :: nat where
  "MaxMessageHeaderValueBytes = 8 * 1024"

definition MaxMessageHeaders :: nat where
  "MaxMessageHeaders = 64"

definition HeaderCorrelationID :: string where
  "HeaderCorrelationID = ''X-Correlation-Id''"

type_synonym headers = "(string, string) gomap"

text \<open>The payload is \<open>None\<close> for a nil \<^verbatim>\<open>json.RawMessage\<close>.\<close>

record message =
  msg_ID :: string
  msg_Type :: string
  msg_Payload :: "string option"
  msg_Timestamp :: time
  msg_SchemaVersion :: "64 word"
  msg_Headers :: headers

definition isMessageHeaderNameByte :: "char \<Rightarrow> bool" where
  "isMessageHeaderNameByte ch \<longleftrightarrow>
     (let c = (of_char ch :: nat) in
      (97 \<le> c \<and> c \<le> 122) \<or> (65 \<le> c \<and> c \<le> 90) \<or> (48 \<le> c \<and> c \<le> 57)
      \<or> ch \<in> set ''!#$%&*+-.^_|~'' \<or> c = 0x27 \<or> c = 0x60)"

definition ValidateMessageHeader :: "string \<Rightarrow> string \<Rightarrow> msg_error option" where
  "ValidateMessageHeader name v =
     (if name = [] then Some (ErrInvalidMessageHeader ''name'' PartEmpty)
      else if length name > MaxMessageHeaderNameBytes
        then Some (ErrInvalidMessageHeader ''name'' PartTooLong)
      else if \<not> list_all isMessageHeaderNameByte name
        then Some (ErrInvalidMessageHeader ''name'' PartControlOrSpace)
      else if length v > MaxMessageHeaderValueBytes
        then Some (ErrInvalidMessageHeader ''value'' PartTooLong)
      else if \<not> valid_string v then Some (ErrInvalidMessageHeader ''value'' PartNotUTF8)
      else if list_ex (\<lambda>c. of_char c \<in> {0, 13, 10 :: nat}) v
        then Some (ErrInvalidMessageHeader ''value'' PartControlOrSpace)
      else None)"

text \<open>The loop over the map returns at the first header that is refused.\<close>

fun header_loop :: "string list \<Rightarrow> headers \<Rightarrow> msg_error option" where
  "header_loop [] h = None"
| "header_loop (k # ks) h =
     (case map_of h k of
        None \<Rightarrow> header_loop ks h
      | Some v \<Rightarrow>
          (case ValidateMessageHeader k v of
             Some err \<Rightarrow> Some err
           | None \<Rightarrow> header_loop ks h))"

definition ValidateMessageHeaders :: "string list \<Rightarrow> headers \<Rightarrow> msg_error option" where
  "ValidateMessageHeaders ks h =
     (if length h > MaxMessageHeaders then Some ErrTooManyHeaders else header_loop ks h)"

definition validateMessageToken :: "string \<Rightarrow> string \<Rightarrow> nat \<Rightarrow> msg_error option" where
  "validateMessageToken kind v maxBytes =
     (if v = [] then Some (ErrInvalidMessage kind PartEmpty)
      else if length v > maxBytes then Some (ErrInvalidMessage kind PartTooLong)
      else case runes v of
        None \<Rightarrow> Some (ErrInvalidMessage kind PartNotUTF8)
      | Some rs \<Rightarrow>
          if list_ex (\<lambda>r. is_control r \<or> is_space r) rs
          then Some (ErrInvalidMessage kind PartControlOrSpace) else None)"

definition ValidateMessage ::
    "(string \<Rightarrow> bool) \<Rightarrow> string list \<Rightarrow> message \<Rightarrow> msg_error option" where
  "ValidateMessage jsonValid ks msg =
     (case validateMessageToken ''id'' (msg_ID msg) MaxMessageIDBytes of
        Some err \<Rightarrow> Some err
      | None \<Rightarrow>
     (case validateMessageToken ''type'' (msg_Type msg) MaxMessageTypeBytes of
        Some err \<Rightarrow> Some err
      | None \<Rightarrow>
          if (case msg_Payload msg of None \<Rightarrow> False | Some p \<Rightarrow> \<not> jsonValid p)
          then Some ErrInvalidPayload
          else ValidateMessageHeaders ks (msg_Headers msg)))"

text \<open>
  \<^verbatim>\<open>NewMessage\<close>: the marshalled payload (\<open>None\<close>: \<^verbatim>\<open>json.Marshal\<close> failed), the new id and the
  clock are arguments.
\<close>

definition NewMessage ::
    "(string \<Rightarrow> bool) \<Rightarrow> string \<Rightarrow> time \<Rightarrow> string \<Rightarrow> string option \<Rightarrow> msg_error + message" where
  "NewMessage jsonValid newID now msgType data =
     (case data of
        None \<Rightarrow> Inl ErrInvalidPayload
      | Some d \<Rightarrow>
          (let m = \<lparr> msg_ID = newID, msg_Type = msgType, msg_Payload = Some d,
                     msg_Timestamp = now, msg_SchemaVersion = 0, msg_Headers = [] \<rparr> in
           case ValidateMessage jsonValid [] m of Some err \<Rightarrow> Inl err | None \<Rightarrow> Inr m))"

definition WithHeader :: "string \<Rightarrow> string \<Rightarrow> message \<Rightarrow> msg_error + message" where
  "WithHeader key v m =
     (case ValidateMessageHeader key v of
        Some err \<Rightarrow> Inl err
      | None \<Rightarrow>
          if map_of (msg_Headers m) key = None \<and> length (msg_Headers m) \<ge> MaxMessageHeaders
          then Inl ErrTooManyHeaders
          else Inr (m\<lparr>msg_Headers := AList.update key v (msg_Headers m)\<rparr>))"

definition WithSchemaVersion :: "64 word \<Rightarrow> message \<Rightarrow> message" where
  "WithSchemaVersion version m = m\<lparr>msg_SchemaVersion := version\<rparr>"

definition CorrelationID :: "message \<Rightarrow> string" where
  "CorrelationID m =
     (case map_of (msg_Headers m) HeaderCorrelationID of None \<Rightarrow> [] | Some v \<Rightarrow> v)"

section \<open>The size policy\<close>

definition DefaultMaxMessageBytes :: int where
  "DefaultMaxMessageBytes = 1048576"

record size_limiter =
  sl_configured :: bool
  sl_defaultMaxBytes :: int
  sl_routeMaxBytes :: "(string \<times> string, int) gomap"

definition zero_limiter :: size_limiter where
  "zero_limiter = \<lparr> sl_configured = False, sl_defaultMaxBytes = 0, sl_routeMaxBytes = [] \<rparr>"

definition DefaultMessageSizeLimiter :: size_limiter where
  "DefaultMessageSizeLimiter =
     \<lparr> sl_configured = True, sl_defaultMaxBytes = DefaultMaxMessageBytes, sl_routeMaxBytes = [] \<rparr>"

definition UnlimitedMessageSizeLimiter :: size_limiter where
  "UnlimitedMessageSizeLimiter =
     \<lparr> sl_configured = True, sl_defaultMaxBytes = 0, sl_routeMaxBytes = [] \<rparr>"

definition normalized :: "size_limiter \<Rightarrow> size_limiter" where
  "normalized l = (if sl_configured l then l else DefaultMessageSizeLimiter)"

definition WithDefaultMaxBytes :: "int \<Rightarrow> size_limiter \<Rightarrow> size_limiter option" where
  "WithDefaultMaxBytes maxBytes l =
     (if maxBytes \<le> 0 then None else Some ((normalized l)\<lparr>sl_defaultMaxBytes := maxBytes\<rparr>))"

definition WithoutDefaultMaxBytes :: "size_limiter \<Rightarrow> size_limiter" where
  "WithoutDefaultMaxBytes l = (normalized l)\<lparr>sl_defaultMaxBytes := 0\<rparr>"

definition WithRouteMaxBytes ::
    "string \<Rightarrow> string \<Rightarrow> int \<Rightarrow> size_limiter \<Rightarrow> size_limiter option" where
  "WithRouteMaxBytes exchange routingKey maxBytes l =
     (if ValidatePublishRoute exchange routingKey \<noteq> None then None
      else if maxBytes \<le> 0 then None
      else Some ((normalized l)\<lparr>sl_routeMaxBytes :=
                   AList.update (exchange, routingKey) maxBytes (sl_routeMaxBytes (normalized l))\<rparr>))"

fun add_overrides :: "(string \<times> string \<times> int) list \<Rightarrow> size_limiter \<Rightarrow> size_limiter option" where
  "add_overrides [] l = Some l"
| "add_overrides ((x, k, b) # os) l =
     (case WithRouteMaxBytes x k b l of None \<Rightarrow> None | Some l' \<Rightarrow> add_overrides os l')"

definition NewMessageSizeLimiter ::
    "int \<Rightarrow> (string \<times> string \<times> int) list \<Rightarrow> size_limiter option" where
  "NewMessageSizeLimiter defaultMaxBytes overrides =
     (if defaultMaxBytes < 0 then None
      else add_overrides overrides
             \<lparr> sl_configured = True, sl_defaultMaxBytes = defaultMaxBytes, sl_routeMaxBytes = [] \<rparr>)"

definition LimitFor :: "size_limiter \<Rightarrow> string \<Rightarrow> string \<Rightarrow> int" where
  "LimitFor l exchange routingKey =
     (case map_of (sl_routeMaxBytes (normalized l)) (exchange, routingKey) of
        Some maxBytes \<Rightarrow> maxBytes
      | None \<Rightarrow> sl_defaultMaxBytes (normalized l))"

definition EstimateMessageBytes :: "message \<Rightarrow> int" where
  "EstimateMessageBytes msg =
     96 + int (length (msg_ID msg)) + int (length (msg_Type msg))
     + (case msg_Payload msg of None \<Rightarrow> 0 | Some p \<Rightarrow> int (length p))
     + (if is_zero (msg_Timestamp msg) then 0 else 35)
     + (if msg_SchemaVersion msg \<noteq> 0 then 24 else 0)
     + sum_list (map (\<lambda>(k, v). (int (length k) + int (length v) + 6)
                               + (int (length k) + int (length v))) (msg_Headers msg))"

definition sl_Check :: "size_limiter \<Rightarrow> string \<Rightarrow> string \<Rightarrow> message \<Rightarrow> msg_error option" where
  "sl_Check l exchange routingKey msg =
     (let limit = LimitFor l exchange routingKey in
      if limit = 0 then None
      else if EstimateMessageBytes msg > limit
        then Some (MessageTooLargeError exchange routingKey (EstimateMessageBytes msg) limit)
      else None)"

section \<open>Facts on routes and tokens\<close>

text \<open>What a validated route part looks like to a backend.\<close>

definition portable :: "nat \<Rightarrow> string \<Rightarrow> bool" where
  "portable n v \<longleftrightarrow> v \<noteq> [] \<and> length v \<le> n \<and> \<not> containsInvalidKeyRune v"

lemma validateRoutePart_None:
  "validateRoutePart kind v allowEmpty = None
     \<longleftrightarrow> (v = [] \<and> allowEmpty) \<or> portable MaxRouteNameBytes v"
  by (auto simp: validateRoutePart_def portable_def containsInvalidKeyRune_def split: option.splits)

lemma ValidatePublishRoute_None:
  "ValidatePublishRoute x k = None
     \<longleftrightarrow> portable MaxRouteNameBytes x \<and> (k = [] \<or> portable MaxRouteNameBytes k)"
proof -
  have "ValidatePublishRoute x k = None \<longleftrightarrow> ValidateExchangeName x = None \<and> ValidateRoutingKey k = None"
    by (simp add: ValidatePublishRoute_def split: option.split)
  then show ?thesis
    by (simp add: ValidateExchangeName_def ValidateRoutingKey_def validateRoutePart_None)
qed

lemma validateMessageToken_None: "validateMessageToken kind v n = None \<longleftrightarrow> portable n v"
  by (auto simp: validateMessageToken_def portable_def containsInvalidKeyRune_def split: option.splits)

lemma portable_valid: "portable n v \<Longrightarrow> valid_string v"
  by (auto simp: portable_def containsInvalidKeyRune_def valid_string_def split: option.splits)

lemma portable_mono: "portable n v \<Longrightarrow> n \<le> m \<Longrightarrow> portable m v"
  by (simp add: portable_def)

lemma portable_ascii:
  "v \<noteq> [] \<Longrightarrow> length v \<le> n \<Longrightarrow>
   \<forall>c \<in> set v. 0x21 \<le> (of_char c :: nat) \<and> (of_char c :: nat) < 0x7F \<Longrightarrow> portable n v"
  by (simp add: portable_def containsInvalidKeyRune_ascii)

section \<open>Facts on headers\<close>

lemma header_loop_None:
  "header_loop ks h = None \<longleftrightarrow>
     (\<forall>k \<in> set ks. \<forall>v. map_of h k = Some v \<longrightarrow> ValidateMessageHeader k v = None)"
  by (induction ks) (auto split: option.splits)

text \<open>The verdict does not depend on the order of the loop.\<close>

lemma ValidateMessageHeaders_None:
  assumes "range_order ks h" and "gm_wf h"
  shows "ValidateMessageHeaders ks h = None \<longleftrightarrow>
     length h \<le> MaxMessageHeaders \<and> list_all (\<lambda>(k, v). ValidateMessageHeader k v = None) h"
proof -
  have "set ks = fst ` set h" using assms(1) by (simp add: range_order_def)
  moreover have "map_of h k = Some v \<longleftrightarrow> (k, v) \<in> set h" for k v
    using assms(2) by (simp add: gm_wf_def)
  ultimately have "header_loop ks h = None \<longleftrightarrow> list_all (\<lambda>(k, v). ValidateMessageHeader k v = None) h"
    by (force simp: header_loop_None list_all_iff)
  then show ?thesis by (auto simp: ValidateMessageHeaders_def)
qed

lemma WithHeader_valid:
  assumes "WithHeader key v m = Inr m'"
    and "length (msg_Headers m) \<le> MaxMessageHeaders"
    and "list_all (\<lambda>(k, v). ValidateMessageHeader k v = None) (msg_Headers m)"
  shows "length (msg_Headers m') \<le> MaxMessageHeaders
     \<and> list_all (\<lambda>(k, v). ValidateMessageHeader k v = None) (msg_Headers m')
     \<and> map_of (msg_Headers m') key = Some v"
proof -
  have m': "m' = m\<lparr>msg_Headers := AList.update key v (msg_Headers m)\<rparr>"
    and ok: "ValidateMessageHeader key v = None"
    and room: "map_of (msg_Headers m) key = None \<longrightarrow> length (msg_Headers m) < MaxMessageHeaders"
    using assms(1) by (auto simp: WithHeader_def split: option.splits if_splits)
  have "list_all (\<lambda>(k, v). ValidateMessageHeader k v = None) (AList.update key v h)"
    if "list_all (\<lambda>(k, v). ValidateMessageHeader k v = None) h" for h
    using that ok by (induction h) auto
  then show ?thesis
    using assms(2,3) room m' by (auto simp: length_gm_update gomap_simps)
qed

section \<open>Facts on the size policy\<close>

lemma LimitFor_zero: "LimitFor zero_limiter x k = DefaultMaxMessageBytes"
  by (simp add: LimitFor_def normalized_def zero_limiter_def DefaultMessageSizeLimiter_def)

lemma LimitFor_WithRouteMaxBytes:
  "WithRouteMaxBytes x k b l = Some l' \<Longrightarrow>
   LimitFor l' x' k' = (if (x', k') = (x, k) then b else LimitFor l x' k')"
  by (cases "sl_configured l")
     (auto simp: WithRouteMaxBytes_def LimitFor_def normalized_def DefaultMessageSizeLimiter_def
        gomap_simps split: if_splits option.splits)

lemma EstimateMessageBytes_ge:
  "96 + int (length (msg_ID m)) + int (length (msg_Type m))
     + (case msg_Payload m of None \<Rightarrow> 0 | Some p \<Rightarrow> int (length p)) \<le> EstimateMessageBytes m"
proof -
  have "0 \<le> sum_list (map (\<lambda>(k, v). (int (length k) + int (length v) + 6)
                               + (int (length k) + int (length v))) (msg_Headers m))"
    by (rule sum_list_nonneg) auto
  then show ?thesis by (simp add: EstimateMessageBytes_def)
qed

text \<open>A message that passes has a payload within the limit of its route.\<close>

lemma sl_Check_bounds:
  assumes "sl_Check l x k m = None" and "LimitFor l x k \<noteq> 0" and "msg_Payload m = Some p"
  shows "96 + int (length p) \<le> LimitFor l x k"
  using assms EstimateMessageBytes_ge [of m] by (auto simp: sl_Check_def Let_def split: if_splits)

end
