(* ===== verification/Outbox.thy ===== *)
theory Outbox
  imports Messaging "HOL-Library.Sublist"
begin

text \<open>
  The storage-independent half of \<^verbatim>\<open>infra/outbox\<close>: entries and their status, the writer
  (\<^verbatim>\<open>outbox.go\<close>), the topic multiplexer (\<^verbatim>\<open>multiplex.go\<close>), the adapter to message
  brokers (\<^verbatim>\<open>messaging_publisher.go\<close>) and the retry backoff of the relay (\<^verbatim>\<open>relay.go\<close>).

  A UUID is its canonical text.  The store behind the writer, the publishers behind the multiplexer and
  the broker behind the adapter are function arguments; \<^verbatim>\<open>json.Valid\<close>, \<^verbatim>\<open>json.Marshal\<close> and
  \<^verbatim>\<open>json.Unmarshal\<close> of header maps, the new id and the clock are arguments too.  A nil and an
  empty headers map are both \<open>[]\<close>.
\<close>

section \<open>Entries\<close>

datatype ostatus = StatusUnset | StatusPending | StatusProcessing | StatusPublished | StatusFailed

datatype ob_error =
    ErrNotFound
  | ErrStaleState ostatus
  | ErrNoRoute string
  | ErrOutsideTx
  | ErrFieldEmpty string
  | ErrField string part_error
  | ErrPayloadEmpty
  | ErrPayloadJSON
  | ErrRoute msg_error
  | ErrHeaders msg_error
  | ErrHeadersJSON
  | ErrTooLarge msg_error
  | ErrZeroID
  | ErrStore
  | ErrStaleDuration
  | ErrPublisher
  | ErrPublisherPanic
  | ErrViaRoute string ob_error
  | ErrViaFallback ob_error
  | ErrDecodeHeaders ob_error
  | ErrDelegate ob_error
  | ErrCtx ctx_error

record entry =
  en_ID :: string
  en_Topic :: string
  en_RoutingKey :: string
  en_MessageID :: string
  en_MessageType :: string
  en_SchemaVersion :: "64 word"
  en_Payload :: string
  en_Headers :: string
  en_Status :: ostatus
  en_Attempts :: int
  en_CreatedAt :: time
  en_PublishedAt :: "time option"
  en_NextRetryAt :: "time option"
  en_LastError :: "string option"

definition HeadersMap ::
    "(string \<Rightarrow> headers option) \<Rightarrow> string list \<Rightarrow> entry \<Rightarrow> ob_error + headers" where
  "HeadersMap unmarshal ks e =
     (if en_Headers e = [] then Inr []
      else case unmarshal (en_Headers e) of
        None \<Rightarrow> Inl ErrHeadersJSON
      | Some h \<Rightarrow>
          (case ValidateMessageHeaders ks h of
             Some err \<Rightarrow> Inl (ErrHeaders err)
           | None \<Rightarrow> Inr h))"

section \<open>The writer\<close>

record write_params =
  wp_Topic :: string
  wp_RoutingKey :: string
  wp_MessageID :: string
  wp_MessageType :: string
  wp_SchemaVersion :: "64 word"
  wp_Payload :: string
  wp_Headers :: headers

record 'c writer =
  w_txCheck :: "('c \<Rightarrow> bool) option"
  w_sizeLimiter :: size_limiter

datatype writer_option =
    WithMessageSizeLimiter size_limiter
  | WithMaxMessageBytes int
  | WithoutMaxMessageBytes
  | WithRouteMaxMessageBytes string string int

fun apply_writer_option :: "writer_option \<Rightarrow> 'c writer \<Rightarrow> 'c writer option" where
  "apply_writer_option (WithMessageSizeLimiter l) w = Some (w\<lparr>w_sizeLimiter := l\<rparr>)"
| "apply_writer_option (WithMaxMessageBytes n) w =
     map_option (\<lambda>l. w\<lparr>w_sizeLimiter := l\<rparr>) (WithDefaultMaxBytes n (w_sizeLimiter w))"
| "apply_writer_option WithoutMaxMessageBytes w =
     Some (w\<lparr>w_sizeLimiter := WithoutDefaultMaxBytes (w_sizeLimiter w)\<rparr>)"
| "apply_writer_option (WithRouteMaxMessageBytes t k n) w =
     map_option (\<lambda>l. w\<lparr>w_sizeLimiter := l\<rparr>) (WithRouteMaxBytes t k n (w_sizeLimiter w))"

fun apply_writer_options :: "writer_option list \<Rightarrow> 'c writer \<Rightarrow> 'c writer option" where
  "apply_writer_options [] w = Some w"
| "apply_writer_options (opt # opts) w =
     (case apply_writer_option opt w of None \<Rightarrow> None | Some w' \<Rightarrow> apply_writer_options opts w')"

definition newWriter :: "('c \<Rightarrow> bool) option \<Rightarrow> writer_option list \<Rightarrow> 'c writer option" where
  "newWriter txCheck opts =
     apply_writer_options opts \<lparr> w_txCheck = txCheck, w_sizeLimiter = DefaultMessageSizeLimiter \<rparr>"

text \<open>A nil \<^verbatim>\<open>txCheck\<close> panics in \<^verbatim>\<open>NewWriter\<close>; leaving it out needs the other constructor.\<close>

definition NewWriter :: "('c \<Rightarrow> bool) option \<Rightarrow> writer_option list \<Rightarrow> 'c writer option" where
  "NewWriter txCheck opts = (if txCheck = None then None else newWriter txCheck opts)"

definition NewWriterWithoutTransactionCheck :: "writer_option list \<Rightarrow> 'c writer option" where
  "NewWriterWithoutTransactionCheck opts = newWriter None opts"

definition validatePortableField :: "string \<Rightarrow> string \<Rightarrow> ob_error option" where
  "validatePortableField kind v =
     (if v = [] then Some (ErrField kind PartEmpty)
      else if length v > MaxRouteNameBytes then Some (ErrField kind PartTooLong)
      else case runes v of
        None \<Rightarrow> Some (ErrField kind PartNotUTF8)
      | Some rs \<Rightarrow>
          if list_ex (\<lambda>r. is_control r \<or> is_space r) rs
          then Some (ErrField kind PartControlOrSpace) else None)"

definition validateWriteParams ::
    "(string \<Rightarrow> bool) \<Rightarrow> string list \<Rightarrow> write_params \<Rightarrow> ob_error option" where
  "validateWriteParams jsonValid ks p =
     (if wp_Topic p = [] then Some (ErrFieldEmpty ''topic'')
      else if wp_RoutingKey p = [] then Some (ErrFieldEmpty ''routing key'')
      else case ValidatePublishRoute (wp_Topic p) (wp_RoutingKey p) of
        Some err \<Rightarrow> Some (ErrRoute err)
      | None \<Rightarrow>
     (case validatePortableField ''message id'' (wp_MessageID p) of
        Some err \<Rightarrow> Some err
      | None \<Rightarrow>
     (case validatePortableField ''message type'' (wp_MessageType p) of
        Some err \<Rightarrow> Some err
      | None \<Rightarrow>
          if wp_Payload p = [] then Some ErrPayloadEmpty
          else if \<not> jsonValid (wp_Payload p) then Some ErrPayloadJSON
          else case ValidateMessageHeaders ks (wp_Headers p) of
            Some err \<Rightarrow> Some (ErrHeaders err)
          | None \<Rightarrow> None)))"

definition params_message :: "write_params \<Rightarrow> message" where
  "params_message p =
     \<lparr> msg_ID = wp_MessageID p, msg_Type = wp_MessageType p, msg_Payload = Some (wp_Payload p),
       msg_Timestamp = zero_time, msg_SchemaVersion = wp_SchemaVersion p, msg_Headers = wp_Headers p \<rparr>"

definition new_entry :: "string \<Rightarrow> time \<Rightarrow> string \<Rightarrow> write_params \<Rightarrow> entry" where
  "new_entry newID now headersJSON p =
     \<lparr> en_ID = newID, en_Topic = wp_Topic p, en_RoutingKey = wp_RoutingKey p,
       en_MessageID = wp_MessageID p, en_MessageType = wp_MessageType p,
       en_SchemaVersion = wp_SchemaVersion p, en_Payload = wp_Payload p,
       en_Headers = headersJSON, en_Status = StatusPending, en_Attempts = 0,
       en_CreatedAt = now, en_PublishedAt = None, en_NextRetryAt = None, en_LastError = None \<rparr>"

definition Write ::
    "('c \<Rightarrow> entry \<Rightarrow> 's \<Rightarrow> ob_error option \<times> 's) \<Rightarrow> (string \<Rightarrow> bool) \<Rightarrow> (headers \<Rightarrow> string option) \<Rightarrow>
     string list \<Rightarrow> string \<Rightarrow> time \<Rightarrow> 'c writer \<Rightarrow> 'c \<Rightarrow> write_params \<Rightarrow> 's \<Rightarrow> ob_error option \<times> 's" where
  "Write ins jsonValid marshal ks newID now w ctx p s =
     (if (case w_txCheck w of None \<Rightarrow> False | Some chk \<Rightarrow> \<not> chk ctx) then (Some ErrOutsideTx, s)
      else case validateWriteParams jsonValid ks p of
        Some err \<Rightarrow> (Some err, s)
      | None \<Rightarrow>
     (case sl_Check (w_sizeLimiter w) (wp_Topic p) (wp_RoutingKey p) (params_message p) of
        Some err \<Rightarrow> (Some (ErrTooLarge err), s)
      | None \<Rightarrow>
     (case marshal (wp_Headers p) of
        None \<Rightarrow> (Some ErrHeadersJSON, s)
      | Some hj \<Rightarrow> ins ctx (new_entry newID now hj p) s)))"

section \<open>The multiplexer\<close>

text \<open>A publisher is a value of type \<open>'p\<close>; what it does is the argument \<open>pub\<close> of \<open>mx_Publish\<close>.\<close>

record 'p multiplex =
  mx_routes :: "(string, 'p) gomap"
  mx_fallback :: "'p option"

definition NewMultiplex :: "'p multiplex" where
  "NewMultiplex = \<lparr> mx_routes = [], mx_fallback = None \<rparr>"

definition Register :: "string \<Rightarrow> 'p option \<Rightarrow> 'p multiplex \<Rightarrow> 'p multiplex option" where
  "Register pre publisher m =
     (if pre = [] then None
      else case publisher of
        None \<Rightarrow> None
      | Some p \<Rightarrow> Some (m\<lparr>mx_routes := AList.update pre p (mx_routes m)\<rparr>))"

definition SetFallback :: "'p option \<Rightarrow> 'p multiplex \<Rightarrow> 'p multiplex" where
  "SetFallback publisher m = m\<lparr>mx_fallback := publisher\<rparr>"

fun route_loop :: "string \<Rightarrow> (string, 'p) gomap \<Rightarrow> string list \<Rightarrow> string \<times> 'p option \<Rightarrow> string \<times> 'p option" where
  "route_loop topic m [] best = best"
| "route_loop topic m (k # ks) best =
     (case map_of m k of
        None \<Rightarrow> route_loop topic m ks best
      | Some p \<Rightarrow>
          if \<not> prefix k topic then route_loop topic m ks best
          else if length k > length (fst best) then route_loop topic m ks (k, Some p)
          else route_loop topic m ks best)"

definition mx_route :: "string list \<Rightarrow> 'p multiplex \<Rightarrow> string \<Rightarrow> 'p option \<times> string" where
  "mx_route ks m topic =
     (case route_loop topic (mx_routes m) ks ([], None) of
        (bestPrefix, Some p) \<Rightarrow> (Some p, bestPrefix)
      | (_, None) \<Rightarrow> (mx_fallback m, []))"

definition mx_Publish ::
    "('p \<Rightarrow> entry \<Rightarrow> 'w \<Rightarrow> ob_error option \<times> 'w) \<Rightarrow> string list \<Rightarrow> 'p multiplex \<Rightarrow> entry \<Rightarrow> 'w
     \<Rightarrow> ob_error option \<times> 'w" where
  "mx_Publish pub ks m e w =
     (case mx_route ks m (en_Topic e) of
        (None, _) \<Rightarrow> (Some (ErrNoRoute (en_Topic e)), w)
      | (Some p, matched) \<Rightarrow>
          (case pub p e w of
             (Some err, w') \<Rightarrow>
               (Some (if matched \<noteq> [] then ErrViaRoute matched err else ErrViaFallback err), w')
           | (None, w') \<Rightarrow> (None, w')))"

section \<open>The adapter to message brokers\<close>

definition entry_message :: "headers \<Rightarrow> entry \<Rightarrow> message" where
  "entry_message h e =
     \<lparr> msg_ID = en_MessageID e, msg_Type = en_MessageType e, msg_Payload = Some (en_Payload e),
       msg_Timestamp = zero_time, msg_SchemaVersion = en_SchemaVersion e, msg_Headers = h \<rparr>"

definition mp_Publish ::
    "(string \<Rightarrow> string \<Rightarrow> message \<Rightarrow> 'w \<Rightarrow> ob_error option \<times> 'w) \<Rightarrow> (string \<Rightarrow> headers option) \<Rightarrow>
     string list \<Rightarrow> entry \<Rightarrow> 'w \<Rightarrow> ob_error option \<times> 'w" where
  "mp_Publish publish unmarshal ks e w =
     (case HeadersMap unmarshal ks e of
        Inl err \<Rightarrow> (Some (ErrDecodeHeaders err), w)
      | Inr h \<Rightarrow>
          (case publish (en_Topic e) (en_RoutingKey e) (entry_message h e) w of
             (Some err, w') \<Rightarrow> (Some (ErrDelegate err), w')
           | (None, w') \<Rightarrow> (None, w')))"

section \<open>The retry backoff\<close>

definition defaultBackoffBase :: duration where
  "defaultBackoffBase = 2000000000"

definition defaultBackoffMax :: duration where
  "defaultBackoffMax = 300000000000"

definition retryBackoff :: "int \<Rightarrow> duration" where
  "retryBackoff attempt0 =
     (let attempt = (if attempt0 < 1 then 1 else attempt0) in
      if attempt > 30 then defaultBackoffMax
      else let d = wrap64 (defaultBackoffBase * 2 ^ nat (attempt - 1)) in
           if d \<le> 0 \<or> d > defaultBackoffMax then defaultBackoffMax else d)"

section \<open>Facts on the writer\<close>

lemma validatePortableField_None:
  "validatePortableField kind v = None \<longleftrightarrow> portable MaxRouteNameBytes v"
  by (auto simp: validatePortableField_def portable_def containsInvalidKeyRune_def split: option.splits)

text \<open>What the writer accepts.\<close>

lemma validateWriteParams_None:
  "validateWriteParams jsonValid ks p = None \<longleftrightarrow>
     portable MaxRouteNameBytes (wp_Topic p) \<and> portable MaxRouteNameBytes (wp_RoutingKey p)
     \<and> portable MaxRouteNameBytes (wp_MessageID p) \<and> portable MaxRouteNameBytes (wp_MessageType p)
     \<and> wp_Payload p \<noteq> [] \<and> jsonValid (wp_Payload p) \<and> ValidateMessageHeaders ks (wp_Headers p) = None"
proof -
  have "validateWriteParams jsonValid ks p = None \<longleftrightarrow>
     wp_Topic p \<noteq> [] \<and> wp_RoutingKey p \<noteq> [] \<and> ValidatePublishRoute (wp_Topic p) (wp_RoutingKey p) = None
     \<and> validatePortableField ''message id'' (wp_MessageID p) = None
     \<and> validatePortableField ''message type'' (wp_MessageType p) = None
     \<and> wp_Payload p \<noteq> [] \<and> jsonValid (wp_Payload p) \<and> ValidateMessageHeaders ks (wp_Headers p) = None"
    by (simp add: validateWriteParams_def split: option.split)
  then show ?thesis
    by (auto simp: ValidatePublishRoute_None validatePortableField_None portable_def)
qed

text \<open>
  A write either leaves the store alone or hands it one pending entry that carries the parameters.
\<close>

lemma Write_cases [consumes 1]:
  assumes "Write ins jsonValid marshal ks newID now w ctx p s = (r, s')"
  obtains (refused) err where "r = Some err" and "s' = s"
  | (inserted) hj where "validateWriteParams jsonValid ks p = None" and "marshal (wp_Headers p) = Some hj"
      and "sl_Check (w_sizeLimiter w) (wp_Topic p) (wp_RoutingKey p) (params_message p) = None"
      and "\<forall>chk. w_txCheck w = Some chk \<longrightarrow> chk ctx"
      and "ins ctx (new_entry newID now hj p) s = (r, s')"
  using assms unfolding Write_def by (force split: if_splits option.splits)

section \<open>Facts on the multiplexer\<close>

definition mx_wf :: "'p multiplex \<Rightarrow> bool" where
  "mx_wf m \<longleftrightarrow> gm_wf (mx_routes m) \<and> map_of (mx_routes m) [] = None"

lemma mx_wf_New [simp]: "mx_wf NewMultiplex"
  by (simp add: mx_wf_def NewMultiplex_def)

lemma mx_wf_Register: "mx_wf m \<Longrightarrow> Register pre p m = Some m' \<Longrightarrow> mx_wf m'"
  by (auto simp: mx_wf_def Register_def gomap_simps split: if_splits option.splits)

lemma mx_wf_SetFallback: "mx_wf m \<Longrightarrow> mx_wf (SetFallback p m)"
  by (simp add: mx_wf_def SetFallback_def)

text \<open>The routes that match a topic, and the answer the loop keeps.\<close>

definition best_route :: "string \<Rightarrow> (string, 'p) gomap \<Rightarrow> string set \<Rightarrow> string \<times> 'p option \<Rightarrow> bool" where
  "best_route topic m K best \<longleftrightarrow>
     (case best of
        (b, None) \<Rightarrow> b = [] \<and> (\<forall>k \<in> K. prefix k topic \<longrightarrow> map_of m k = None)
      | (b, Some p) \<Rightarrow> b \<in> K \<and> map_of m b = Some p \<and> prefix b topic
          \<and> (\<forall>k \<in> K. prefix k topic \<longrightarrow> map_of m k \<noteq> None \<longrightarrow> length k \<le> length b))"

lemma route_loop_best:
  assumes "best_route topic m K best" and "map_of m [] = None"
  shows "best_route topic m (K \<union> set ks) (route_loop topic m ks best)"
  using assms
proof (induction ks arbitrary: K best)
  case Nil
  then show ?case by simp
next
  case (Cons k ks)
  have step: "best_route topic m (insert k K)
      (case map_of m k of None \<Rightarrow> best
       | Some p \<Rightarrow> if \<not> prefix k topic then best
                   else if length k > length (fst best) then (k, Some p) else best)"
    using Cons.prems by (fastforce simp: best_route_def split: option.splits prod.splits if_splits)
  have "route_loop topic m (k # ks) best =
      route_loop topic m ks (case map_of m k of None \<Rightarrow> best
       | Some p \<Rightarrow> if \<not> prefix k topic then best
                   else if length k > length (fst best) then (k, Some p) else best)"
    by (simp split: option.split)
  then show ?case
    using Cons.IH [OF step Cons.prems(2)] by (simp add: insert_commute)
qed

lemma route_loop_start:
  assumes "map_of m [] = None"
  shows "best_route topic m (set ks) (route_loop topic m ks ([], None))"
proof -
  have "best_route topic m {} ([], None)" by (simp add: best_route_def)
  then show ?thesis using route_loop_best [of topic m "{}" "([], None)" ks] assms by simp
qed

text \<open>Two prefixes of a topic that are equally long are equal.\<close>

lemma prefix_same_length: "prefix a t \<Longrightarrow> prefix b t \<Longrightarrow> length a = length b \<Longrightarrow> a = b"
  by (metis append_eq_append_conv prefix_def)

text \<open>The chosen route is the longest registered prefix of the topic, in every order of the loop.\<close>

lemma mx_route_longest:
  assumes "mx_wf m" and "range_order ks (mx_routes m)"
  shows "mx_route ks m topic = (Some p, b) \<and> b \<noteq> [] \<longleftrightarrow>
     map_of (mx_routes m) b = Some p \<and> prefix b topic
     \<and> (\<forall>k p'. map_of (mx_routes m) k = Some p' \<longrightarrow> prefix k topic \<longrightarrow> length k \<le> length b)"
proof -
  let ?m = "mx_routes m"
  have nil: "map_of ?m [] = None" using assms(1) by (simp add: mx_wf_def)
  have keys: "k \<in> set ks" if "map_of ?m k = Some v" for k v
    using assms(2) that by (auto simp: range_order_def gm_key_iff)
  have best: "best_route topic ?m (set ks) (route_loop topic ?m ks ([], None))"
    using nil by (rule route_loop_start)
  obtain b' q where r: "route_loop topic ?m ks ([], None) = (b', q)" by fastforce
  show ?thesis
  proof (cases q)
    case None
    then have "map_of ?m k = None" if "prefix k topic" for k
      using best r keys that by (cases "map_of ?m k") (auto simp: best_route_def)
    then show ?thesis using r None by (auto simp: mx_route_def)
  next
    case (Some p')
    then have b': "map_of ?m b' = Some p'" "prefix b' topic"
      "\<And>k p''. map_of ?m k = Some p'' \<Longrightarrow> prefix k topic \<Longrightarrow> length k \<le> length b'"
      using best r keys by (auto simp: best_route_def)
    then have "b' \<noteq> []" using nil by auto
    then show ?thesis
      using r Some b' by (auto simp: mx_route_def dest: prefix_same_length intro: antisym)
         (metis antisym option.inject prefix_same_length)+
  qed
qed

lemma mx_route_fallback:
  assumes "mx_wf m" and "range_order ks (mx_routes m)"
    and "\<forall>k p. map_of (mx_routes m) k = Some p \<longrightarrow> \<not> prefix k topic"
  shows "mx_route ks m topic = (mx_fallback m, [])"
proof -
  have nil: "map_of (mx_routes m) [] = None" using assms(1) by (simp add: mx_wf_def)
  have "best_route topic (mx_routes m) (set ks) (route_loop topic (mx_routes m) ks ([], None))"
    using nil by (rule route_loop_start)
  then show ?thesis
    using assms(3) by (auto simp: best_route_def mx_route_def split: prod.splits option.splits)
qed

section \<open>Facts on the backoff\<close>

text \<open>The shift never overflows before the cap applies: the delay is the capped power of two.\<close>

lemma retryBackoff_exact:
  "retryBackoff n = min (defaultBackoffBase * 2 ^ nat (n - 1)) defaultBackoffMax"
proof (cases "n > 30")
  case True
  then have "(2::int) ^ 30 \<le> 2 ^ nat (n - 1)" by (intro power_increasing) auto
  then show ?thesis using True by (simp add: retryBackoff_def defaultBackoffBase_def defaultBackoffMax_def)
next
  case False
  let ?k = "nat (n - 1)"
  have "(2::int) ^ ?k \<le> 2 ^ 29" using False by (intro power_increasing) auto
  then have hi: "(2::int) ^ ?k \<le> 536870912" by simp
  have lo: "1 \<le> (2::int) ^ ?k" by simp
  have "in_i64 (defaultBackoffBase * 2 ^ ?k)"
    unfolding in_i64_def defaultBackoffBase_def using hi lo by (intro conjI) linarith+
  then have "wrap64 (defaultBackoffBase * 2 ^ ?k) = defaultBackoffBase * 2 ^ ?k"
    by (rule wrap64_id)
  moreover have "0 < defaultBackoffBase * 2 ^ ?k" by (simp add: defaultBackoffBase_def)
  ultimately show ?thesis
    using False by (auto simp: retryBackoff_def Let_def)
qed

lemma retryBackoff_bounds: "defaultBackoffBase \<le> retryBackoff n \<and> retryBackoff n \<le> defaultBackoffMax"
proof -
  have "1 \<le> (2::int) ^ nat (n - 1)" by simp
  then show ?thesis by (simp add: retryBackoff_exact defaultBackoffBase_def defaultBackoffMax_def)
qed

lemma retryBackoff_mono: "m \<le> n \<Longrightarrow> retryBackoff m \<le> retryBackoff n"
proof -
  assume "m \<le> n"
  then have "(2::int) ^ nat (m - 1) \<le> 2 ^ nat (n - 1)" by (intro power_increasing) auto
  then have "defaultBackoffBase * 2 ^ nat (m - 1) \<le> defaultBackoffBase * 2 ^ nat (n - 1)"
    by (simp add: defaultBackoffBase_def)
  then show ?thesis unfolding retryBackoff_exact by (rule min.mono) simp
qed

end
