(* ===== verification/Outbox_Relay.thy ===== *)
theory Outbox_Relay
  imports Outbox
begin

text \<open>
  The relay of \<^verbatim>\<open>infra/outbox/relay.go\<close> over the store interface of \<^verbatim>\<open>store.go\<close>.

  \<open>relay_ops\<close> are the methods of \<^verbatim>\<open>RelayStore\<close> the relay calls, each a function on the store's
  state; \<^verbatim>\<open>PendingResetter\<close> is optional.  The publisher is the argument \<open>pub\<close>, a function of the
  entry and the state of the world that may succeed, fail or panic.  Clock readings are arguments.
  \<open>relay_poll\<close> is the serial path of \<^verbatim>\<open>poll\<close>; the worker pool, the heartbeats and other
  processes interleave in the theory on delivery, which reuses the pieces defined here.
  Metrics and logging are left out.
\<close>

section \<open>The store interface\<close>

record 's relay_ops =
  ro_FetchPending :: "int \<Rightarrow> 's \<Rightarrow> (ob_error + entry list) \<times> 's"
  ro_Heartbeat :: "string list \<Rightarrow> 's \<Rightarrow> (ob_error + nat) \<times> 's"
  ro_MarkPublished :: "string \<Rightarrow> time \<Rightarrow> 's \<Rightarrow> ob_error option \<times> 's"
  ro_MarkFailed :: "string \<Rightarrow> string \<Rightarrow> 's \<Rightarrow> ob_error option \<times> 's"
  ro_IncrementAttempts :: "string \<Rightarrow> string \<Rightarrow> time \<Rightarrow> 's \<Rightarrow> ob_error option \<times> 's"
  ro_DeletePublishedBefore :: "time \<Rightarrow> 's \<Rightarrow> (ob_error + nat) \<times> 's"
  ro_DeleteFailedBefore :: "time \<Rightarrow> 's \<Rightarrow> (ob_error + nat) \<times> 's"
  ro_ResetStaleProcessing :: "duration \<Rightarrow> 's \<Rightarrow> (ob_error + nat) \<times> 's"
  ro_ResetPending :: "(string list \<Rightarrow> 's \<Rightarrow> ob_error option \<times> 's) option"

section \<open>The relay\<close>

record relay =
  rl_pollInterval :: duration
  rl_batchSize :: int
  rl_maxAttempts :: int
  rl_maxConcurrentPublish :: int
  rl_retention :: duration
  rl_failedRetention :: duration
  rl_staleDuration :: duration
  rl_publishTimeout :: duration
  rl_wake :: bool
  rl_started :: bool
  rl_stopped :: bool
  rl_pollCount :: int
  rl_claimed :: "(string, unit) gomap"

definition default_relay :: relay where
  "default_relay =
     \<lparr> rl_pollInterval = 1000000000, rl_batchSize = 100, rl_maxAttempts = 10,
       rl_maxConcurrentPublish = 1, rl_retention = 604800000000000,
       rl_failedRetention = 2592000000000000, rl_staleDuration = 300000000000,
       rl_publishTimeout = 120000000000, rl_wake = False, rl_started = False, rl_stopped = False,
       rl_pollCount = 0, rl_claimed = [] \<rparr>"

datatype relay_option =
    WithPollInterval duration
  | WithBatchSize int
  | WithMaxAttempts int
  | WithRetention duration
  | WithFailedRetention duration
  | WithStaleDuration duration
  | WithPublishTimeout duration
  | WithoutPublishTimeout
  | WithMaxConcurrentPublishes int

fun apply_relay_option :: "relay_option \<Rightarrow> relay \<Rightarrow> relay option" where
  "apply_relay_option (WithPollInterval d) r = (if d \<le> 0 then None else Some (r\<lparr>rl_pollInterval := d\<rparr>))"
| "apply_relay_option (WithBatchSize n) r = (if n \<le> 0 then None else Some (r\<lparr>rl_batchSize := n\<rparr>))"
| "apply_relay_option (WithMaxAttempts n) r = (if n \<le> 0 then None else Some (r\<lparr>rl_maxAttempts := n\<rparr>))"
| "apply_relay_option (WithRetention d) r = (if d \<le> 0 then None else Some (r\<lparr>rl_retention := d\<rparr>))"
| "apply_relay_option (WithFailedRetention d) r =
     (if d \<le> 0 then None else Some (r\<lparr>rl_failedRetention := d\<rparr>))"
| "apply_relay_option (WithStaleDuration d) r =
     (if d \<le> 0 then None else Some (r\<lparr>rl_staleDuration := d\<rparr>))"
| "apply_relay_option (WithPublishTimeout d) r =
     (if d \<le> 0 then None else Some (r\<lparr>rl_publishTimeout := d\<rparr>))"
| "apply_relay_option WithoutPublishTimeout r = Some (r\<lparr>rl_publishTimeout := 0\<rparr>)"
| "apply_relay_option (WithMaxConcurrentPublishes n) r =
     (if n \<le> 0 then None else Some (r\<lparr>rl_maxConcurrentPublish := n\<rparr>))"

fun apply_relay_options :: "relay_option list \<Rightarrow> relay \<Rightarrow> relay option" where
  "apply_relay_options [] r = Some r"
| "apply_relay_options (opt # opts) r =
     (case apply_relay_option opt r of None \<Rightarrow> None | Some r' \<Rightarrow> apply_relay_options opts r')"

definition NewRelay :: "relay_option list \<Rightarrow> relay option" where
  "NewRelay opts = apply_relay_options opts default_relay"

text \<open>The buffered channel of capacity one coalesces notifications.\<close>

definition Wake :: "relay \<Rightarrow> relay" where
  "Wake r = r\<lparr>rl_wake := True\<rparr>"

datatype start_error = StartNilContext | StoppedBeforeStart | AlreadyStopped | AlreadyStarted

definition Start_enter :: "ctxt \<Rightarrow> relay \<Rightarrow> start_error option \<times> relay" where
  "Start_enter ctx r =
     (if ctx = NilCtx then (Some StartNilContext, r)
      else if rl_stopped r then
        (if \<not> rl_started r then (Some StoppedBeforeStart, r) else (Some AlreadyStopped, r))
      else if rl_started r then (Some AlreadyStarted, r)
      else (None, r\<lparr>rl_started := True\<rparr>))"

definition Stop_enter :: "ctxt \<Rightarrow> relay \<Rightarrow> bool \<times> relay" where
  "Stop_enter ctx r = (if ctx = NilCtx then (False, r) else (True, r\<lparr>rl_stopped := True\<rparr>))"

definition cleanupInterval :: "relay \<Rightarrow> duration" where
  "cleanupInterval r =
     (let base = (if rl_failedRetention r < rl_retention r then rl_failedRetention r else rl_retention r);
          interval = div64 base 10
      in if interval < 60000000000 then 60000000000 else interval)"

definition trackClaimed :: "entry list \<Rightarrow> relay \<Rightarrow> relay" where
  "trackClaimed es r =
     r\<lparr>rl_claimed := fold (\<lambda>e m. AList.update (en_ID e) () m) es (rl_claimed r)\<rparr>"

definition untrackClaimed :: "string \<Rightarrow> relay \<Rightarrow> relay" where
  "untrackClaimed i r = r\<lparr>rl_claimed := AList.delete i (rl_claimed r)\<rparr>"

text \<open>The order in which the ids are collected is the order \<open>ks\<close> of the loop over the map.\<close>

definition claimedIDs :: "string list \<Rightarrow> relay \<Rightarrow> string list" where
  "claimedIDs ks r = (if rl_claimed r = [] then [] else ks)"

section \<open>Publishing one entry\<close>

datatype pub_result = PubOk | PubErr ob_error | PubPanic

definition callPublisher ::
    "(entry \<Rightarrow> 'w \<Rightarrow> pub_result \<times> 'w) \<Rightarrow> entry \<Rightarrow> 'w \<Rightarrow> ob_error option \<times> 'w" where
  "callPublisher pub e w =
     (case pub e w of
        (PubOk, w') \<Rightarrow> (None, w')
      | (PubErr err, w') \<Rightarrow> (Some err, w')
      | (PubPanic, w') \<Rightarrow> (Some ErrPublisherPanic, w'))"

text \<open>The errors that tell the relay it no longer owns the row.\<close>

fun lost_row :: "ob_error \<Rightarrow> bool" where
  "lost_row (ErrStaleState _) = True"
| "lost_row ErrNotFound = True"
| "lost_row _ = False"

definition settle :: "string \<Rightarrow> ob_error option \<times> 's \<Rightarrow> relay \<Rightarrow> relay \<times> 's" where
  "settle i res r =
     (case res of
        (Some err, s') \<Rightarrow> if lost_row err then (untrackClaimed i r, s') else (r, s')
      | (None, s') \<Rightarrow> (untrackClaimed i r, s'))"

text \<open>The persisted text of an error is the argument \<open>show_err\<close> (\<^verbatim>\<open>redact.ErrorValue\<close>).\<close>

definition handlePublishError ::
    "'s relay_ops \<Rightarrow> (ob_error \<Rightarrow> string) \<Rightarrow> time \<Rightarrow> entry \<Rightarrow> ob_error \<Rightarrow> relay \<Rightarrow> 's \<Rightarrow> relay \<times> 's" where
  "handlePublishError S show_err now e err r s =
     (let nextAttempt = wrap64 (en_Attempts e + 1);
          errMsg = show_err err
      in if nextAttempt \<ge> rl_maxAttempts r
         then settle (en_ID e) (ro_MarkFailed S (en_ID e) errMsg s) r
         else settle (en_ID e)
                (ro_IncrementAttempts S (en_ID e) errMsg (now + retryBackoff nextAttempt) s) r)"

definition finishPublish :: "'s relay_ops \<Rightarrow> time \<Rightarrow> entry \<Rightarrow> relay \<Rightarrow> 's \<Rightarrow> relay \<times> 's" where
  "finishPublish S now e r s = settle (en_ID e) (ro_MarkPublished S (en_ID e) now s) r"

definition publishEntry ::
    "'s relay_ops \<Rightarrow> (entry \<Rightarrow> 'w \<Rightarrow> pub_result \<times> 'w) \<Rightarrow> (ob_error \<Rightarrow> string) \<Rightarrow> time \<Rightarrow> entry \<Rightarrow>
     relay \<times> 's \<times> 'w \<Rightarrow> relay \<times> 's \<times> 'w" where
  "publishEntry S pub show_err now e st =
     (case st of (r, s, w) \<Rightarrow>
        (case callPublisher pub e w of
           (Some err, w') \<Rightarrow>
             (case handlePublishError S show_err now e err r s of (r', s') \<Rightarrow> (r', s', w'))
         | (None, w') \<Rightarrow>
             (case finishPublish S now e r s of (r', s') \<Rightarrow> (r', s', w'))))"

section \<open>A poll\<close>

definition recoverStale :: "'s relay_ops \<Rightarrow> ctx_error option \<Rightarrow> relay \<Rightarrow> 's \<Rightarrow> 's" where
  "recoverStale S cerr r s =
     (if cerr \<noteq> None then s else snd (ro_ResetStaleProcessing S (rl_staleDuration r) s))"

definition staleRecoveryMultiplier :: int where
  "staleRecoveryMultiplier = 10"

text \<open>
  Everything before the publishing of the batch: the periodic recovery, the claim, the tracking.
  \<open>None\<close>: nothing to publish.
\<close>

definition poll_claim ::
    "'s relay_ops \<Rightarrow> ctxt \<Rightarrow> relay \<Rightarrow> 's \<Rightarrow> entry list option \<times> relay \<times> 's" where
  "poll_claim S ctx r s =
     (if ctx_obs ctx 0 \<noteq> None then (None, r, s)
      else
        let r1 = r\<lparr>rl_pollCount := wrap64 (rl_pollCount r + 1)\<rparr>;
            s1 = (if rl_pollCount r1 smod staleRecoveryMultiplier = 0
                  then recoverStale S (ctx_obs ctx 1) r1 s else s)
        in case ro_FetchPending S (rl_batchSize r1) s1 of
             (Inl err, s2) \<Rightarrow> (None, r1, s2)
           | (Inr es, s2) \<Rightarrow> if es = [] then (None, r1, s2) else (Some es, trackClaimed es r1, s2))"

text \<open>The serial loop; \<open>k\<close> counts the entries, for the context and the clock.\<close>

fun publish_loop ::
    "'s relay_ops \<Rightarrow> (entry \<Rightarrow> 'w \<Rightarrow> pub_result \<times> 'w) \<Rightarrow> (ob_error \<Rightarrow> string) \<Rightarrow> ctxt \<Rightarrow> (nat \<Rightarrow> time) \<Rightarrow> nat \<Rightarrow>
     entry list \<Rightarrow> relay \<times> 's \<times> 'w \<Rightarrow> relay \<times> 's \<times> 'w" where
  "publish_loop S pub show_err ctx clk k [] st = st"
| "publish_loop S pub show_err ctx clk k (e # es) st =
     (if ctx_obs ctx (k + 2) \<noteq> None then st
      else publish_loop S pub show_err ctx clk (Suc k) es (publishEntry S pub show_err (clk k) e st))"

definition relay_poll ::
    "'s relay_ops \<Rightarrow> (entry \<Rightarrow> 'w \<Rightarrow> pub_result \<times> 'w) \<Rightarrow> (ob_error \<Rightarrow> string) \<Rightarrow> ctxt \<Rightarrow> (nat \<Rightarrow> time) \<Rightarrow>
     relay \<times> 's \<times> 'w \<Rightarrow> relay \<times> 's \<times> 'w" where
  "relay_poll S pub show_err ctx clk st =
     (case st of (r, s, w) \<Rightarrow>
        (case poll_claim S ctx r s of
           (None, r', s') \<Rightarrow> (r', s', w)
         | (Some es, r', s') \<Rightarrow> publish_loop S pub show_err ctx clk 0 es (r', s', w)))"

section \<open>Heartbeat, cleanup and shutdown\<close>

definition minHeartbeatInterval :: duration where
  "minHeartbeatInterval = 100000000"

definition heartbeatInterval :: "relay \<Rightarrow> duration" where
  "heartbeatInterval r =
     (let interval = div64 (rl_staleDuration r) 3
      in if interval < minHeartbeatInterval then minHeartbeatInterval else interval)"

text \<open>One tick of the batch heartbeat: \<open>ids\<close> are the entries of the batch not yet done.\<close>

definition heartbeat_tick :: "'s relay_ops \<Rightarrow> string list \<Rightarrow> 's \<Rightarrow> 's" where
  "heartbeat_tick S ids s = (if ids = [] then s else snd (ro_Heartbeat S ids s))"

definition relay_cleanup :: "'s relay_ops \<Rightarrow> ctx_error option \<Rightarrow> time \<Rightarrow> relay \<Rightarrow> 's \<Rightarrow> 's" where
  "relay_cleanup S cerr now r s =
     (if cerr \<noteq> None then s
      else
        let s1 = snd (ro_DeletePublishedBefore S (now - rl_retention r) s)
        in snd (ro_DeleteFailedBefore S (now - rl_failedRetention r) s1))"

definition resetClaimedOnShutdown :: "'s relay_ops \<Rightarrow> string list \<Rightarrow> relay \<Rightarrow> 's \<Rightarrow> relay \<times> 's" where
  "resetClaimedOnShutdown S ks r s =
     (case ro_ResetPending S of
        None \<Rightarrow> (r, s)
      | Some reset \<Rightarrow>
          (let ids = claimedIDs ks r in
           if ids = [] then (r, s)
           else case reset ids s of
             (Some err, s') \<Rightarrow> (r, s')
           | (None, s') \<Rightarrow> (fold untrackClaimed ids r, s')))"

section \<open>What the relay relies on\<close>

text \<open>
  The documented contract of the outcome methods: \<open>owned\<close> says that the caller's claim on a row is
  the current one, \<open>status\<close> is the status of a row.  Success needs ownership, sets the status and ends
  the claim; \<^verbatim>\<open>ErrNotFound\<close> and \<^verbatim>\<open>ErrStaleState\<close> leave the row alone and mean that the claim is
  gone; any other error leaves it open whether the statement took effect.  Other rows are never touched.
\<close>

definition outcome_law ::
    "('s \<Rightarrow> string \<Rightarrow> bool) \<Rightarrow> ('s \<Rightarrow> string \<Rightarrow> ostatus option) \<Rightarrow> string \<Rightarrow> ostatus \<Rightarrow>
     's \<Rightarrow> ob_error option \<Rightarrow> 's \<Rightarrow> bool" where
  "outcome_law owned status i st s res s' \<longleftrightarrow>
     (\<forall>j. j \<noteq> i \<longrightarrow> owned s' j = owned s j \<and> status s' j = status s j)
     \<and> (case res of
          None \<Rightarrow> owned s i \<and> status s' i = Some st \<and> \<not> owned s' i
        | Some err \<Rightarrow>
            if lost_row err then status s' i = status s i \<and> \<not> owned s i \<and> \<not> owned s' i
            else (status s' i = status s i \<and> owned s' i = owned s i)
                 \<or> (owned s i \<and> status s' i = Some st \<and> \<not> owned s' i))"

locale relay_store =
  fixes S :: "'s relay_ops"
    and sinv :: "'s \<Rightarrow> bool"
    and owned :: "'s \<Rightarrow> string \<Rightarrow> bool"
    and status :: "'s \<Rightarrow> string \<Rightarrow> ostatus option"
  assumes published_law: "sinv s \<Longrightarrow> ro_MarkPublished S i at s = (res, s')
      \<Longrightarrow> sinv s' \<and> outcome_law owned status i StatusPublished s res s'"
    and failed_law: "sinv s \<Longrightarrow> ro_MarkFailed S i msg s = (res, s')
      \<Longrightarrow> sinv s' \<and> outcome_law owned status i StatusFailed s res s'"
    and retried_law: "sinv s \<Longrightarrow> ro_IncrementAttempts S i msg next_at s = (res, s')
      \<Longrightarrow> sinv s' \<and> outcome_law owned status i StatusPending s res s'"
    and fetch_law: "sinv s \<Longrightarrow> ro_FetchPending S n s = (got, s') \<Longrightarrow> sinv s'
      \<and> (\<forall>i. owned s' i \<longrightarrow> owned s i \<or> (\<exists>es. got = Inr es \<and> i \<in> en_ID ` set es))"
    and stale_law: "sinv s \<Longrightarrow> ro_ResetStaleProcessing S d s = (cnt, s') \<Longrightarrow> sinv s'
      \<and> (\<forall>i. owned s' i \<longrightarrow> owned s i)"
begin

text \<open>The relay knows every claim it owns, so a shutdown can give all of them back.\<close>

definition tracked :: "relay \<Rightarrow> 's \<Rightarrow> bool" where
  "tracked r s \<longleftrightarrow> sinv s \<and> (\<forall>i. owned s i \<longrightarrow> map_of (rl_claimed r) i \<noteq> None)"

lemma outcome_keeps_owned:
  assumes "outcome_law owned status i st s res s'" and "owned s' j"
  shows "owned s j \<and> (j = i \<longrightarrow> (\<exists>err. res = Some err \<and> \<not> lost_row err))"
  using assms unfolding outcome_law_def
  by (cases "j = i") (auto split: option.splits if_splits)

lemma settle_tracked:
  assumes "tracked r s" and "sinv s'" and law: "outcome_law owned status i st s res s'"
    and "settle i (res, s') r = (r', s'')"
  shows "tracked r' s''"
proof (cases "\<exists>err. res = Some err \<and> \<not> lost_row err")
  case True
  then have "r' = r" "s'' = s'" using assms(4) by (auto simp: settle_def)
  then show ?thesis using assms(1,2) outcome_keeps_owned [OF law] by (simp add: tracked_def)
next
  case False
  then have r: "r' = untrackClaimed i r" "s'' = s'"
    using assms(4) by (auto simp: settle_def split: option.splits)
  have "j \<noteq> i \<and> owned s j" if "owned s' j" for j
    using outcome_keeps_owned [OF law that] False by blast
  then show ?thesis
    using assms(1,2) r by (simp add: tracked_def untrackClaimed_def gomap_simps)
qed

lemma finishPublish_tracked:
  assumes "tracked r s" and "finishPublish S now e r s = (r', s')"
  shows "tracked r' s'"
proof -
  obtain res s1 where m: "ro_MarkPublished S (en_ID e) now s = (res, s1)" by fastforce
  have "sinv s" using assms(1) by (simp add: tracked_def)
  from published_law [OF this m] show ?thesis
    using settle_tracked [OF assms(1)] assms(2) m by (auto simp: finishPublish_def)
qed

lemma handlePublishError_tracked:
  assumes "tracked r s" and "handlePublishError S show_err now e err r s = (r', s')"
  shows "tracked r' s'"
proof -
  let ?next = "now + retryBackoff (wrap64 (en_Attempts e + 1))"
  obtain res s1 where f: "ro_MarkFailed S (en_ID e) (show_err err) s = (res, s1)" by fastforce
  obtain res' s2 where i: "ro_IncrementAttempts S (en_ID e) (show_err err) ?next s = (res', s2)"
    by fastforce
  have inv: "sinv s" using assms(1) by (simp add: tracked_def)
  show ?thesis
    using settle_tracked [OF assms(1)] failed_law [OF inv f] retried_law [OF inv i] assms(2) f i
    by (auto simp: handlePublishError_def Let_def split: if_splits)
qed

lemma publishEntry_tracked:
  assumes "tracked r s" and "publishEntry S pub show_err now e (r, s, w) = (r', s', w')"
  shows "tracked r' s'"
proof (cases "fst (callPublisher pub e w)")
  case None
  then have "finishPublish S now e r s = (r', s')"
    using assms(2) by (auto simp: publishEntry_def split: prod.splits)
  with assms(1) show ?thesis by (rule finishPublish_tracked)
next
  case (Some err)
  then have "handlePublishError S show_err now e err r s = (r', s')"
    using assms(2) by (auto simp: publishEntry_def split: prod.splits)
  with assms(1) show ?thesis by (rule handlePublishError_tracked)
qed

lemma publish_loop_tracked:
  "tracked r s \<Longrightarrow> publish_loop S pub show_err ctx clk k es (r, s, w) = (r', s', w') \<Longrightarrow> tracked r' s'"
proof (induction es arbitrary: k r s w)
  case Nil
  then show ?case by simp
next
  case (Cons e es)
  obtain r1 s1 w1 where e: "publishEntry S pub show_err (clk k) e (r, s, w) = (r1, s1, w1)"
    by (metis prod_cases3)
  show ?case
    using Cons.IH [of r1 s1 "Suc k" w1] publishEntry_tracked [OF Cons.prems(1) e] Cons.prems e
    by (auto split: if_splits)
qed

lemma trackClaimed_get:
  "map_of (rl_claimed (trackClaimed es r)) i =
     (if i \<in> en_ID ` set es then Some () else map_of (rl_claimed r) i)"
proof -
  have "map_of (fold (\<lambda>e m. AList.update (en_ID e) () m) es m) i =
      (if i \<in> en_ID ` set es then Some () else map_of m i)" for m
    by (induction es arbitrary: m) (auto simp: gomap_simps)
  then show ?thesis by (simp add: trackClaimed_def)
qed

lemma recoverStale_tracked:
  "tracked r s \<Longrightarrow> tracked r (recoverStale S cerr r s)"
  using stale_law [OF _ prod.collapse [symmetric]] by (simp add: recoverStale_def tracked_def)

lemma poll_claim_tracked:
  assumes "tracked r s" and "poll_claim S ctx r s = (es, r', s')"
  shows "tracked r' s'"
proof (cases "ctx_obs ctx 0 = None")
  case False
  then show ?thesis using assms by (simp add: poll_claim_def)
next
  case True
  let ?r = "r\<lparr>rl_pollCount := wrap64 (rl_pollCount r + 1)\<rparr>"
  let ?s = "if rl_pollCount ?r smod staleRecoveryMultiplier = 0
            then recoverStale S (ctx_obs ctx 1) ?r s else s"
  have "tracked ?r s" using assms(1) by (simp add: tracked_def)
  then have t: "tracked ?r ?s" by (simp add: recoverStale_tracked)
  obtain res s2 where f: "ro_FetchPending S (rl_batchSize ?r) ?s = (res, s2)" by fastforce
  have law: "sinv s2 \<and> (\<forall>i. owned s2 i \<longrightarrow> owned ?s i \<or> (\<exists>es. res = Inr es \<and> i \<in> en_ID ` set es))"
    using fetch_law [OF _ f] t by (simp add: tracked_def)
  show ?thesis
  proof (cases res)
    case (Inl err)
    then show ?thesis using assms(2) True f law t by (auto simp: poll_claim_def Let_def tracked_def)
  next
    case (Inr es')
    have "es' = [] \<Longrightarrow> r' = ?r" "es' \<noteq> [] \<Longrightarrow> r' = trackClaimed es' ?r" "s' = s2"
      using assms(2) True f Inr by (auto simp: poll_claim_def Let_def split: if_splits)
    then show ?thesis
      using law t Inr by (cases "es' = []") (auto simp: tracked_def trackClaimed_get)
  qed
qed

text \<open>Every poll keeps track of every claim, whatever the store, the publisher and the context do.\<close>

lemma poll_tracked:
  assumes "tracked r s" and "relay_poll S pub show_err ctx clk (r, s, w) = (r', s', w')"
  shows "tracked r' s'"
proof -
  obtain es r1 s1 where c: "poll_claim S ctx r s = (es, r1, s1)" by (metis prod_cases3)
  have "tracked r1 s1" using poll_claim_tracked [OF assms(1) c] .
  then show ?thesis
    using assms(2) c publish_loop_tracked [of r1 s1 pub show_err ctx clk 0]
    by (auto simp: relay_poll_def split: option.splits)
qed

end

text \<open>A store that can give claims back at once.\<close>

locale resetting_store = relay_store S sinv owned status
  for S :: "'s relay_ops" and sinv owned status +
  fixes reset :: "string list \<Rightarrow> 's \<Rightarrow> ob_error option \<times> 's"
  assumes reset_pending: "ro_ResetPending S = Some reset"
    and reset_law: "sinv s \<Longrightarrow> reset ids s = (res, s') \<Longrightarrow> sinv s'
      \<and> (\<forall>i. i \<notin> set ids \<longrightarrow> owned s' i = owned s i \<and> status s' i = status s i)
      \<and> (\<forall>i \<in> set ids. \<not> owned s' i)
      \<and> (res = None \<longrightarrow> (\<forall>i \<in> set ids. owned s i \<longrightarrow> status s' i = Some StatusPending))"
begin

text \<open>After a shutdown whose reset succeeded, every row the relay had claimed is pending again.\<close>

lemma shutdown_returns_claims:
  assumes "tracked r s" and "range_order ks (rl_claimed r)"
    and "resetClaimedOnShutdown S ks r s = (r', s')"
    and "fst (reset ks s) = None"
  shows "(\<forall>i. \<not> owned s' i) \<and> (\<forall>i. owned s i \<longrightarrow> status s' i = Some StatusPending)"
proof (cases "rl_claimed r = []")
  case True
  then have "s' = s" and "\<not> owned s i" for i
    using assms(1,3) reset_pending
    by (auto simp: resetClaimedOnShutdown_def claimedIDs_def tracked_def)
  then show ?thesis by simp
next
  case False
  then have ks: "claimedIDs ks r = ks" "ks \<noteq> []"
    using assms(2) by (auto simp: claimedIDs_def range_order_def)
  obtain s1 where res: "reset ks s = (None, s1)" using assms(4) by (cases "reset ks s") auto
  then have "s' = s1"
    using assms(3) ks reset_pending by (auto simp: resetClaimedOnShutdown_def Let_def)
  moreover have "i \<in> set ks" if "owned s i" for i
    using assms(1,2) that by (auto simp: tracked_def range_order_def gm_key_iff)
  ultimately show ?thesis
    using reset_law [OF _ res] assms(1) by (auto simp: tracked_def)
qed

end

end
