(* ===== verification/Outbox_Store.thy ===== *)
theory Outbox_Store
  imports Outbox_Relay "HOL-Library.List_Lexorder" "HOL-Library.Product_Lexorder" "HOL-Library.Char_ord"
begin

text \<open>
  The PostgreSQL outbox store, \<^verbatim>\<open>infra/outbox/postgres/store.go\<close> and \<^verbatim>\<open>claim_routes.go\<close>.

  The table \<^verbatim>\<open>outbox_entries\<close> is a list of rows; a statement is one atomic function on it
  (\<open>sql_update\<close>, \<open>sql_delete\<close>), with the \<^verbatim>\<open>WHERE\<close> clause as the predicate and the
  \<^verbatim>\<open>SET\<close> clause as the function.  A \<open>pg\<close> value is what one process works on: its route
  selection, the claim tokens it remembers and the table it shares with the other processes.

  PostgreSQL is a parameter: \<^verbatim>\<open>NOW()\<close> is \<open>now\<close>, the UUIDs that
  \<^verbatim>\<open>gen_random_uuid()\<close> has returned so far are counted by \<open>pg_uuids\<close>, the rows other
  transactions hold locked are \<open>skip\<close>, the normal form of a
  \<^verbatim>\<open>JSONB\<close> value is \<open>jsonb\<close> (\<open>None\<close> if the server refuses it), and a \<open>fault\<close> says whether the
  client sees the statement succeed, fail before it took effect, or fail although it took effect.
  Timestamps and intervals are exact.
\<close>

section \<open>The table\<close>

text \<open>
  A claim token is a UUID: \<^verbatim>\<open>uuid.Nil\<close>, or the \<open>n\<close>-th UUID that the server's
  \<^verbatim>\<open>gen_random_uuid()\<close> has returned.  Different calls return different UUIDs, none of them
  \<^verbatim>\<open>uuid.Nil\<close>.  The text form of a UUID is never empty.
\<close>

datatype claim_token = UuidNil | UuidV4 nat

record row =
  r_id :: string
  r_topic :: string
  r_routing_key :: string
  r_message_id :: string
  r_message_type :: string
  r_schema_version :: int
  r_payload :: string
  r_headers :: "string option"
  r_status :: ostatus
  r_attempts :: int
  r_created_at :: time
  r_updated_at :: time
  r_published_at :: "time option"
  r_next_retry_at :: "time option"
  r_last_error :: "string option"
  r_claim_token :: "claim_token option"

type_synonym table = "row list"

definition sql_update :: "(row \<Rightarrow> bool) \<Rightarrow> (row \<Rightarrow> row) \<Rightarrow> table \<Rightarrow> nat \<times> table" where
  "sql_update p f t = (length (filter p t), map (\<lambda>r. if p r then f r else r) t)"

definition sql_delete :: "(row \<Rightarrow> bool) \<Rightarrow> table \<Rightarrow> nat \<times> table" where
  "sql_delete p t = (length (filter p t), filter (\<lambda>r. \<not> p r) t)"

datatype fault = NoFault | FaultBefore | FaultAfter

fun exec :: "fault \<Rightarrow> nat \<times> table \<Rightarrow> table \<Rightarrow> nat option \<times> table" where
  "exec NoFault (n, t') t = (Some n, t')"
| "exec FaultBefore (n, t') t = (None, t)"
| "exec FaultAfter (n, t') t = (None, t')"

definition row_of :: "table \<Rightarrow> string \<Rightarrow> row option" where
  "row_of t i = find (\<lambda>r. r_id r = i) t"

section \<open>The store\<close>

record claim_route =
  cr_Topic :: string
  cr_RoutingKey :: string
  cr_MessageType :: string
  cr_SchemaVersion :: "64 word"

record pg =
  pg_routes :: "(string \<times> string \<times> string \<times> int) list"
  pg_tokens :: "(string, claim_token) gomap"
  pg_rows :: table
  pg_uuids :: nat

definition uuid_nil :: string where
  "uuid_nil = ''00000000-0000-0000-0000-000000000000''"

definition maxClaimRoutes :: nat where
  "maxClaimRoutes = 256"

definition valid_claim_route :: "claim_route \<Rightarrow> bool" where
  "valid_claim_route c \<longleftrightarrow>
     \<not> (cr_RoutingKey c = [] \<or> cr_MessageType c = []
        \<or> ValidatePublishRoute (cr_Topic c) (cr_RoutingKey c) \<noteq> None
        \<or> ValidatePublishRoute (cr_MessageType c) (cr_RoutingKey c) \<noteq> None
        \<or> uint (cr_SchemaVersion c) > i64_max)"

definition WithClaimRoutes :: "claim_route list \<Rightarrow> pg \<Rightarrow> pg option" where
  "WithClaimRoutes cs s =
     (if cs = [] \<or> length cs > maxClaimRoutes then None
      else if \<not> list_all valid_claim_route cs then None
      else Some (s\<lparr>pg_routes :=
             map (\<lambda>c. (cr_Topic c, cr_RoutingKey c, cr_MessageType c, uint (cr_SchemaVersion c))) cs\<rparr>))"

definition pg_New :: "table \<Rightarrow> pg" where
  "pg_New t = \<lparr> pg_routes = [], pg_tokens = [], pg_rows = t, pg_uuids = 0 \<rparr>"

definition routeSelection :: "pg \<Rightarrow> row \<Rightarrow> bool" where
  "routeSelection s r \<longleftrightarrow>
     pg_routes s = []
     \<or> list_ex (\<lambda>(t, k, mt, v). t = r_topic r \<and> k = r_routing_key r
                                 \<and> mt = r_message_type r \<and> v = r_schema_version r) (pg_routes s)"

definition rememberClaim :: "string \<Rightarrow> claim_token \<Rightarrow> pg \<Rightarrow> pg" where
  "rememberClaim i token s = s\<lparr>pg_tokens := AList.update i token (pg_tokens s)\<rparr>"

definition claimToken :: "pg \<Rightarrow> string \<Rightarrow> claim_token option" where
  "claimToken s i = map_of (pg_tokens s) i"

definition forgetClaim :: "string \<Rightarrow> pg \<Rightarrow> pg" where
  "forgetClaim i s = s\<lparr>pg_tokens := AList.delete i (pg_tokens s)\<rparr>"

section \<open>Insert\<close>

definition varchar255 :: "string \<Rightarrow> bool" where
  "varchar255 v = (case runes v of None \<Rightarrow> False | Some rs \<Rightarrow> length rs \<le> 255 \<and> 0 \<notin> set rs)"

text \<open>The constraints of the columns: lengths, ranges of the integers, the primary key, the status.\<close>

definition row_accepted :: "table \<Rightarrow> row \<Rightarrow> bool" where
  "row_accepted t r \<longleftrightarrow>
     varchar255 (r_topic r) \<and> varchar255 (r_routing_key r) \<and> varchar255 (r_message_id r)
     \<and> varchar255 (r_message_type r) \<and> 0 \<le> r_schema_version r \<and> r_schema_version r \<le> i64_max
     \<and> r_status r \<noteq> StatusUnset \<and> -2147483648 \<le> r_attempts r \<and> r_attempts r \<le> 2147483647
     \<and> row_of t (r_id r) = None"

definition entry_row :: "time \<Rightarrow> string \<Rightarrow> string option \<Rightarrow> entry \<Rightarrow> row" where
  "entry_row createdAt payload hdrs e =
     \<lparr> r_id = en_ID e, r_topic = en_Topic e, r_routing_key = en_RoutingKey e,
       r_message_id = en_MessageID e, r_message_type = en_MessageType e,
       r_schema_version = uint (en_SchemaVersion e), r_payload = payload, r_headers = hdrs,
       r_status = (if en_Status e = StatusUnset then StatusPending else en_Status e),
       r_attempts = en_Attempts e, r_created_at = createdAt, r_updated_at = createdAt,
       r_published_at = en_PublishedAt e, r_next_retry_at = en_NextRetryAt e,
       r_last_error = en_LastError e, r_claim_token = None \<rparr>"

text \<open>The headers column: NULL for no headers; the outer option is the server's verdict.\<close>

definition stored_headers :: "(string \<Rightarrow> string option) \<Rightarrow> entry \<Rightarrow> string option option" where
  "stored_headers jsonb e =
     (if en_Headers e \<noteq> [] \<and> en_Headers e \<noteq> ''null'' then map_option Some (jsonb (en_Headers e))
      else Some None)"

definition pg_Insert ::
    "(string \<Rightarrow> string option) \<Rightarrow> fault \<Rightarrow> time \<Rightarrow> ctx_error option \<Rightarrow> entry \<Rightarrow> pg \<Rightarrow> ob_error option \<times> pg" where
  "pg_Insert jsonb flt now cerr e s =
     (case cerr of
        Some err \<Rightarrow> (Some (ErrCtx err), s)
      | None \<Rightarrow>
          if en_ID e = uuid_nil then (Some ErrZeroID, s)
          else
            let createdAt = (if is_zero (en_CreatedAt e) then now else en_CreatedAt e)
            in case jsonb (en_Payload e) of
                 None \<Rightarrow> (Some ErrStore, s)
               | Some pl \<Rightarrow>
              (case stored_headers jsonb e of
                 None \<Rightarrow> (Some ErrStore, s)
               | Some hj \<Rightarrow>
                   (let r = entry_row createdAt pl hj e in
                    if \<not> row_accepted (pg_rows s) r then (Some ErrStore, s)
                    else case exec flt (1, pg_rows s @ [r]) (pg_rows s) of
                      (None, t') \<Rightarrow> (Some ErrStore, s\<lparr>pg_rows := t'\<rparr>)
                    | (Some _, t') \<Rightarrow> (None, s\<lparr>pg_rows := t'\<rparr>))))"

section \<open>Claims\<close>

definition due :: "time \<Rightarrow> row \<Rightarrow> bool" where
  "due now r \<longleftrightarrow>
     r_status r = StatusPending \<and> (case r_next_retry_at r of None \<Rightarrow> True | Some at \<Rightarrow> at \<le> now)"

definition fifo_key :: "row \<Rightarrow> time \<times> string" where
  "fifo_key r = (r_created_at r, r_id r)"

text \<open>The locking \<^verbatim>\<open>SELECT\<close>: due rows of the selected routes that nobody holds locked, oldest first.\<close>

definition claim_batch :: "time \<Rightarrow> string list \<Rightarrow> int \<Rightarrow> pg \<Rightarrow> row list" where
  "claim_batch now skip limit s =
     take (nat limit)
       (sort_key fifo_key
         (filter (\<lambda>r. due now r \<and> routeSelection s r \<and> r_id r \<notin> set skip) (pg_rows s)))"

definition claim_row :: "time \<Rightarrow> (string \<Rightarrow> nat) \<Rightarrow> row \<Rightarrow> row" where
  "claim_row now gen r =
     r\<lparr>r_status := StatusProcessing, r_updated_at := now, r_claim_token := Some (UuidV4 (gen (r_id r)))\<rparr>"

definition row_entry :: "row \<Rightarrow> entry" where
  "row_entry r =
     \<lparr> en_ID = r_id r, en_Topic = r_topic r, en_RoutingKey = r_routing_key r,
       en_MessageID = r_message_id r, en_MessageType = r_message_type r,
       en_SchemaVersion = word_of_int (r_schema_version r), en_Payload = r_payload r,
       en_Headers = (case r_headers r of None \<Rightarrow> [] | Some h \<Rightarrow> h), en_Status = r_status r,
       en_Attempts = r_attempts r, en_CreatedAt = r_created_at r,
       en_PublishedAt = r_published_at r, en_NextRetryAt = r_next_retry_at r,
       en_LastError = r_last_error r \<rparr>"

definition scanClaimedEntry :: "row \<Rightarrow> (entry \<times> claim_token) option" where
  "scanClaimedEntry r =
     (case r_claim_token r of
        None \<Rightarrow> None
      | Some token \<Rightarrow> if r_schema_version r < 0 then None else Some (row_entry r, token))"

fun scan_rows :: "row list \<Rightarrow> (entry \<times> claim_token) list option" where
  "scan_rows [] = Some []"
| "scan_rows (r # rs) =
     (case scanClaimedEntry r of
        None \<Rightarrow> None
      | Some c \<Rightarrow> (case scan_rows rs of None \<Rightarrow> None | Some cs \<Rightarrow> Some (c # cs)))"

text \<open>One new UUID per claimed row.\<close>

definition pg_gen :: "pg \<Rightarrow> row list \<Rightarrow> string \<Rightarrow> nat" where
  "pg_gen s batch i = pg_uuids s + length (takeWhile (\<lambda>r. r_id r \<noteq> i) batch)"

definition pg_FetchPending ::
    "fault \<Rightarrow> time \<Rightarrow> string list \<Rightarrow> int \<Rightarrow> pg \<Rightarrow> (ob_error + entry list) \<times> pg" where
  "pg_FetchPending flt now skip limit s =
     (if limit \<le> 0 then (Inr [], s)
      else
        let batch = claim_batch now skip limit s;
            gen = pg_gen s batch;
            upd = sql_update (\<lambda>r. r_id r \<in> set (map r_id batch)) (claim_row now gen) (pg_rows s);
            s1 = s\<lparr>pg_uuids := pg_uuids s + length batch\<rparr>
        in case exec flt upd (pg_rows s) of
             (None, t') \<Rightarrow> (Inl ErrStore, s1\<lparr>pg_rows := t'\<rparr>)
           | (Some _, t') \<Rightarrow>
               (case scan_rows (map (claim_row now gen) batch) of
                  None \<Rightarrow> (Inl ErrStore, s1\<lparr>pg_rows := t'\<rparr>)
                | Some cs \<Rightarrow>
                    (Inr (map fst cs),
                     fold (\<lambda>(e, token). rememberClaim (en_ID e) token) cs (s1\<lparr>pg_rows := t'\<rparr>))))"

section \<open>Heartbeats\<close>

definition owned_pairs :: "pg \<Rightarrow> string list \<Rightarrow> (string \<times> claim_token) list" where
  "owned_pairs s ids =
     concat (map (\<lambda>i. case claimToken s i of None \<Rightarrow> [] | Some tok \<Rightarrow> [(i, tok)]) ids)"

definition matches_pair :: "(string \<times> claim_token) list \<Rightarrow> row \<Rightarrow> bool" where
  "matches_pair ps r \<longleftrightarrow>
     list_ex (\<lambda>(i, tok). r_id r = i \<and> r_status r = StatusProcessing \<and> r_claim_token r = Some tok) ps"

definition pg_Heartbeat :: "fault \<Rightarrow> time \<Rightarrow> string list \<Rightarrow> pg \<Rightarrow> (ob_error + nat) \<times> pg" where
  "pg_Heartbeat flt now ids s =
     (if ids = [] then (Inr 0, s)
      else
        let ps = owned_pairs s ids in
        if ps = [] then (Inr 0, s)
        else case exec flt (sql_update (matches_pair ps) (\<lambda>r. r\<lparr>r_updated_at := now\<rparr>) (pg_rows s))
                    (pg_rows s) of
          (None, t') \<Rightarrow> (Inl ErrStore, s\<lparr>pg_rows := t'\<rparr>)
        | (Some n, t') \<Rightarrow> (Inr n, s\<lparr>pg_rows := t'\<rparr>))"

section \<open>Outcomes\<close>

definition fence :: "pg \<Rightarrow> string \<Rightarrow> row \<Rightarrow> bool" where
  "fence s i r \<longleftrightarrow>
     r_id r = i \<and> r_status r = StatusProcessing
     \<and> r_claim_token r = Some (case claimToken s i of None \<Rightarrow> UuidNil | Some token \<Rightarrow> token)"

text \<open>
  \<open>look\<close> is the table as the second query finds it, \<open>None\<close> if that query fails; \<open>bad\<close> marks rows for
  which the \<^verbatim>\<open>SET\<close> clause is an error of the server.
\<close>

definition transition ::
    "fault \<Rightarrow> table option \<Rightarrow> (row \<Rightarrow> bool) \<Rightarrow> (row \<Rightarrow> row) \<Rightarrow> string \<Rightarrow> pg \<Rightarrow> ob_error option \<times> pg" where
  "transition flt look bad upd i s =
     (if list_ex (\<lambda>r. fence s i r \<and> bad r) (pg_rows s) then (Some ErrStore, s)
      else case exec flt (sql_update (fence s i) upd (pg_rows s)) (pg_rows s) of
        (None, t') \<Rightarrow> (Some ErrStore, s\<lparr>pg_rows := t'\<rparr>)
      | (Some n, t') \<Rightarrow>
          if n = 1 then (None, forgetClaim i (s\<lparr>pg_rows := t'\<rparr>))
          else case look of
            None \<Rightarrow> (Some ErrStore, s\<lparr>pg_rows := t'\<rparr>)
          | Some t2 \<Rightarrow>
              (case row_of t2 i of
                 None \<Rightarrow> (Some ErrNotFound, forgetClaim i (s\<lparr>pg_rows := t'\<rparr>))
               | Some r \<Rightarrow> (Some (ErrStaleState (r_status r)), forgetClaim i (s\<lparr>pg_rows := t'\<rparr>))))"

definition published_row :: "time \<Rightarrow> time \<Rightarrow> row \<Rightarrow> row" where
  "published_row now at r =
     r\<lparr>r_status := StatusPublished, r_updated_at := now, r_published_at := Some at, r_last_error := None\<rparr>"

definition failed_row :: "time \<Rightarrow> string \<Rightarrow> row \<Rightarrow> row" where
  "failed_row now msg r =
     r\<lparr>r_status := StatusFailed, r_updated_at := now, r_last_error := Some msg\<rparr>"

definition retried_row :: "time \<Rightarrow> string \<Rightarrow> time \<Rightarrow> row \<Rightarrow> row" where
  "retried_row now msg next_at r =
     r\<lparr>r_status := StatusPending, r_attempts := r_attempts r + 1, r_updated_at := now,
       r_next_retry_at := Some next_at, r_last_error := Some msg, r_claim_token := None\<rparr>"

definition reset_row :: "time \<Rightarrow> row \<Rightarrow> row" where
  "reset_row now r = r\<lparr>r_status := StatusPending, r_updated_at := now, r_claim_token := None\<rparr>"

definition pg_MarkPublished ::
    "fault \<Rightarrow> table option \<Rightarrow> time \<Rightarrow> string \<Rightarrow> time \<Rightarrow> pg \<Rightarrow> ob_error option \<times> pg" where
  "pg_MarkPublished flt look now i at s =
     transition flt look (\<lambda>_. False) (published_row now at) i s"

definition pg_MarkFailed ::
    "fault \<Rightarrow> table option \<Rightarrow> time \<Rightarrow> string \<Rightarrow> string \<Rightarrow> pg \<Rightarrow> ob_error option \<times> pg" where
  "pg_MarkFailed flt look now i msg s =
     transition flt look (\<lambda>_. False) (failed_row now msg) i s"

text \<open>The column \<^verbatim>\<open>attempts\<close> is a 32-bit integer.\<close>

definition pg_IncrementAttempts ::
    "fault \<Rightarrow> table option \<Rightarrow> time \<Rightarrow> string \<Rightarrow> string \<Rightarrow> time \<Rightarrow> pg \<Rightarrow> ob_error option \<times> pg" where
  "pg_IncrementAttempts flt look now i msg next_at s =
     transition flt look (\<lambda>r. r_attempts r \<ge> 2147483647) (retried_row now msg next_at) i s"

text \<open>
  The statement of \<^verbatim>\<open>ResetPending\<close> compares the \<^verbatim>\<open>UUID\<close> columns \<^verbatim>\<open>id\<close> and
  \<^verbatim>\<open>claim_token\<close> with values cast to \<^verbatim>\<open>text\<close>.  Whether the server resolves
  \<^verbatim>\<open>uuid = text\<close> is the argument \<open>uuid_eq_text\<close>; stock PostgreSQL has no such operator and refuses
  the statement.
\<close>

definition pg_ResetPending ::
    "bool \<Rightarrow> fault \<Rightarrow> time \<Rightarrow> string list \<Rightarrow> pg \<Rightarrow> ob_error option \<times> pg" where
  "pg_ResetPending uuid_eq_text flt now ids s =
     (if ids = [] then (None, s)
      else
        let ps = owned_pairs s ids;
            s1 = fold (\<lambda>(i, tok). forgetClaim i) ps s
        in if ps = [] then (None, s1)
           else if \<not> uuid_eq_text then (Some ErrStore, s1)
           else case exec flt (sql_update (matches_pair ps) (reset_row now) (pg_rows s1)) (pg_rows s1) of
             (None, t') \<Rightarrow> (Some ErrStore, s1\<lparr>pg_rows := t'\<rparr>)
           | (Some _, t') \<Rightarrow> (None, s1\<lparr>pg_rows := t'\<rparr>))"

section \<open>Housekeeping\<close>

definition run_count :: "fault \<Rightarrow> nat \<times> table \<Rightarrow> pg \<Rightarrow> (ob_error + nat) \<times> pg" where
  "run_count flt st s =
     (case exec flt st (pg_rows s) of
        (None, t') \<Rightarrow> (Inl ErrStore, s\<lparr>pg_rows := t'\<rparr>)
      | (Some n, t') \<Rightarrow> (Inr n, s\<lparr>pg_rows := t'\<rparr>))"

definition pg_DeletePublishedBefore :: "fault \<Rightarrow> time \<Rightarrow> pg \<Rightarrow> (ob_error + nat) \<times> pg" where
  "pg_DeletePublishedBefore flt bef s =
     run_count flt (sql_delete (\<lambda>r. r_status r = StatusPublished
        \<and> (case r_published_at r of None \<Rightarrow> False | Some at \<Rightarrow> at < bef) \<and> routeSelection s r) (pg_rows s)) s"

definition pg_DeleteFailedBefore :: "fault \<Rightarrow> time \<Rightarrow> pg \<Rightarrow> (ob_error + nat) \<times> pg" where
  "pg_DeleteFailedBefore flt bef s =
     run_count flt (sql_delete (\<lambda>r. r_status r = StatusFailed \<and> r_updated_at r < bef
        \<and> routeSelection s r) (pg_rows s)) s"

definition pg_ResetStaleProcessing :: "fault \<Rightarrow> time \<Rightarrow> duration \<Rightarrow> pg \<Rightarrow> (ob_error + nat) \<times> pg" where
  "pg_ResetStaleProcessing flt now staleDuration s =
     (if staleDuration \<le> 0 then (Inl ErrStaleDuration, s)
      else run_count flt (sql_update (\<lambda>r. r_status r = StatusProcessing
        \<and> r_updated_at r < now - staleDuration \<and> routeSelection s r) (reset_row now) (pg_rows s)) s)"

definition pg_CountPending :: "bool \<Rightarrow> pg \<Rightarrow> ob_error + nat" where
  "pg_CountPending fails s =
     (if fails then Inl ErrStore
      else Inr (length (filter (\<lambda>r. r_status r = StatusPending \<and> routeSelection s r) (pg_rows s))))"

section \<open>Facts on the table\<close>

definition tab_wf :: "table \<Rightarrow> bool" where
  "tab_wf t \<longleftrightarrow> distinct (map r_id t)"

lemma row_of_simps [simp]:
  "row_of [] i = None"
  "row_of (r # t) i = (if r_id r = i then Some r else row_of t i)"
  by (simp_all add: row_of_def)

lemma row_of_None: "row_of t i = None \<longleftrightarrow> i \<notin> r_id ` set t"
  by (induction t) auto

lemma tab_wf_simps [simp]:
  "tab_wf []"
  "tab_wf (r # t) \<longleftrightarrow> row_of t (r_id r) = None \<and> tab_wf t"
  by (simp_all add: tab_wf_def row_of_None)

lemma row_of_SomeD: "row_of t i = Some r \<Longrightarrow> r \<in> set t \<and> r_id r = i"
  by (induction t) (auto split: if_splits)

lemma row_of_iff: "tab_wf t \<Longrightarrow> row_of t i = Some r \<longleftrightarrow> r \<in> set t \<and> r_id r = i"
  by (induction t) (auto simp: row_of_None)

lemma row_of_append: "row_of (t @ t') i = (case row_of t i of None \<Rightarrow> row_of t' i | Some r \<Rightarrow> Some r)"
  by (induction t) auto

lemma row_of_map:
  "(\<And>r. r_id (g r) = r_id r) \<Longrightarrow> row_of (map g t) i = map_option g (row_of t i)"
  by (induction t) auto

lemma row_of_filter:
  "tab_wf t \<Longrightarrow> row_of (filter p t) i =
     (case row_of t i of None \<Rightarrow> None | Some r \<Rightarrow> if p r then Some r else None)"
  by (induction t) auto

lemma count_row:
  assumes "tab_wf t" and "\<And>r. p r \<Longrightarrow> r_id r = i"
  shows "length (filter p t) = (case row_of t i of None \<Rightarrow> 0 | Some r \<Rightarrow> if p r then 1 else 0)"
  using assms(1) by (induction t) (auto dest: assms(2))

lemma tab_wf_map: "(\<And>r. r_id (g r) = r_id r) \<Longrightarrow> tab_wf (map g t) = tab_wf t"
  by (simp add: tab_wf_def comp_def)

lemma tab_wf_filter [simp]: "tab_wf t \<Longrightarrow> tab_wf (filter p t)"
  by (induction t) (auto simp: row_of_filter)

lemma row_of_sql_update:
  "(\<And>r. r_id (f r) = r_id r) \<Longrightarrow>
   row_of (snd (sql_update p f t)) i = map_option (\<lambda>r. if p r then f r else r) (row_of t i)"
  by (simp add: sql_update_def row_of_map)

lemma tab_wf_sql_update: "(\<And>r. r_id (f r) = r_id r) \<Longrightarrow> tab_wf (snd (sql_update p f t)) = tab_wf t"
  by (simp add: sql_update_def tab_wf_map)

lemma row_of_sql_delete:
  "tab_wf t \<Longrightarrow> row_of (snd (sql_delete p t)) i =
     (case row_of t i of None \<Rightarrow> None | Some r \<Rightarrow> if p r then None else Some r)"
  by (auto simp: sql_delete_def row_of_filter split: option.split)

text \<open>A statement either takes effect or leaves the table alone; a reported success took effect.\<close>

lemma exec_cases [consumes 1]:
  assumes "exec flt (n, t1) t = (res, t')"
  obtains (success) "flt = NoFault" "res = Some n" "t' = t1"
  | (before) "flt = FaultBefore" "res = None" "t' = t"
  | (after) "flt = FaultAfter" "res = None" "t' = t1"
  using assms by (cases flt) auto

lemma exec_eq:
  "exec flt st t = (if flt = NoFault then Some (fst st) else None, if flt = FaultBefore then t else snd st)"
  by (cases flt; cases st) auto

lemma row_ids [simp]:
  "r_id (claim_row now gen r) = r_id r"
  "r_id (published_row now at r) = r_id r"
  "r_id (failed_row now msg r) = r_id r"
  "r_id (retried_row now msg next_at r) = r_id r"
  "r_id (reset_row now r) = r_id r"
  by (simp_all add: claim_row_def published_row_def failed_row_def retried_row_def reset_row_def)

section \<open>Facts on outcomes\<close>

text \<open>The claim of this process on a row is the current one.\<close>

definition pg_owned :: "pg \<Rightarrow> string \<Rightarrow> bool" where
  "pg_owned s i \<longleftrightarrow> (case row_of (pg_rows s) i of None \<Rightarrow> False | Some r \<Rightarrow> fence s i r)"

definition pg_status :: "pg \<Rightarrow> string \<Rightarrow> ostatus option" where
  "pg_status s i = map_option r_status (row_of (pg_rows s) i)"

text \<open>Every token in the table or in a process's memory has been generated before.\<close>

definition known_token :: "nat \<Rightarrow> claim_token \<Rightarrow> bool" where
  "known_token n tok \<longleftrightarrow> (case tok of UuidNil \<Rightarrow> False | UuidV4 k \<Rightarrow> k < n)"

definition rows_inv :: "nat \<Rightarrow> table \<Rightarrow> bool" where
  "rows_inv n t \<longleftrightarrow>
     tab_wf t \<and> list_all (\<lambda>r. pred_option (known_token n) (r_claim_token r)) t"

definition pg_inv :: "pg \<Rightarrow> bool" where
  "pg_inv s \<longleftrightarrow>
     rows_inv (pg_uuids s) (pg_rows s)
     \<and> (\<forall>i tok. claimToken s i = Some tok \<longrightarrow> known_token (pg_uuids s) tok)"

lemma pg_inv_wf: "pg_inv s \<Longrightarrow> tab_wf (pg_rows s)"
  by (simp add: pg_inv_def rows_inv_def)

lemma pg_inv_token: "pg_inv s \<Longrightarrow> claimToken s i = Some tok \<Longrightarrow> known_token (pg_uuids s) tok"
  by (simp add: pg_inv_def)

lemma rows_inv_row:
  "rows_inv n t \<Longrightarrow> row_of t i = Some r \<Longrightarrow> r_claim_token r = Some tok \<Longrightarrow> known_token n tok"
  by (force simp: rows_inv_def list_all_iff dest: row_of_SomeD)

lemma pg_inv_row: "pg_inv s \<Longrightarrow> row_of (pg_rows s) i = Some r \<Longrightarrow> r_claim_token r \<noteq> Some UuidNil"
  using rows_inv_row [of "pg_uuids s" "pg_rows s" i r UuidNil] by (auto simp: pg_inv_def known_token_def)

lemma forgetClaim_simps [simp]:
  "pg_rows (forgetClaim i s) = pg_rows s"
  "pg_routes (forgetClaim i s) = pg_routes s"
  "pg_uuids (forgetClaim i s) = pg_uuids s"
  "claimToken (forgetClaim i s) j = (if j = i then None else claimToken s j)"
  "claimToken (s\<lparr>pg_rows := t\<rparr>) j = claimToken s j"
  by (simp_all add: forgetClaim_def claimToken_def gomap_simps)

lemma pg_owned_cong:
  "row_of (pg_rows s') j = row_of (pg_rows s) j \<Longrightarrow> claimToken s' j = claimToken s j
   \<Longrightarrow> pg_owned s' j = pg_owned s j"
  by (simp add: pg_owned_def fence_def split: option.split)

text \<open>Ownership means that a token is remembered and is the one in the row.\<close>

lemma pg_owned_iff:
  assumes "pg_inv s"
  shows "pg_owned s i \<longleftrightarrow>
     (\<exists>r tok. row_of (pg_rows s) i = Some r \<and> r_status r = StatusProcessing
        \<and> r_claim_token r = Some tok \<and> claimToken s i = Some tok)"
proof (cases "row_of (pg_rows s) i")
  case None
  then show ?thesis by (simp add: pg_owned_def)
next
  case (Some r)
  then show ?thesis
    using pg_inv_row [OF assms Some] row_of_SomeD [OF Some]
    by (cases "claimToken s i") (auto simp: pg_owned_def fence_def)
qed

text \<open>The fenced \<^verbatim>\<open>UPDATE\<close> touches the row if this process owns it, and nothing otherwise.\<close>

lemma fence_owned:
  assumes "tab_wf (pg_rows s)" and "fence s i r" and "r \<in> set (pg_rows s)"
  shows "row_of (pg_rows s) i = Some r \<and> pg_owned s i"
proof -
  have "row_of (pg_rows s) i = Some r" using assms row_of_iff [OF assms(1)] by (simp add: fence_def)
  then show ?thesis using assms(2) by (simp add: pg_owned_def)
qed

lemma fenced_count:
  assumes "tab_wf (pg_rows s)"
  shows "fst (sql_update (fence s i) upd (pg_rows s)) = (if pg_owned s i then 1 else 0)"
  using count_row [OF assms, of "fence s i" i]
  by (auto simp: sql_update_def pg_owned_def fence_def split: option.splits)

lemma fenced_same:
  assumes "tab_wf (pg_rows s)" and "\<not> pg_owned s i"
  shows "snd (sql_update (fence s i) upd (pg_rows s)) = pg_rows s"
proof -
  have "\<not> fence s i r" if "r \<in> set (pg_rows s)" for r
    using fence_owned [OF assms(1)] that assms(2) by blast
  then show ?thesis by (simp add: sql_update_def map_idI)
qed

lemma fenced_rows:
  assumes "row_of (pg_rows s) i = Some r" and "fence s i r" and "\<And>r. r_id (upd r) = r_id r"
  shows "row_of (snd (sql_update (fence s i) upd (pg_rows s))) j =
     (if j = i then Some (upd r) else row_of (pg_rows s) j)"
  using assms
  by (cases "row_of (pg_rows s) j") (auto simp: row_of_sql_update fence_def dest: row_of_SomeD)

lemma fenced_subset:
  assumes "tab_wf (pg_rows s)" and "row_of (pg_rows s) i = Some r"
  shows "set (snd (sql_update (fence s i) upd (pg_rows s))) \<subseteq> insert (upd r) (set (pg_rows s))"
  using fence_owned [OF assms(1), of i] assms(2) by (fastforce simp: sql_update_def)

lemma transition_not_owned:
  assumes "transition flt look bad upd i s = (res, s')" and "tab_wf (pg_rows s)" and "\<not> pg_owned s i"
  shows "pg_rows s' = pg_rows s \<and> pg_routes s' = pg_routes s \<and> pg_uuids s' = pg_uuids s
     \<and> ((\<exists>err. res = Some err \<and> lost_row err \<and> claimToken s' = (claimToken s)(i := None))
        \<or> res = Some ErrStore \<and> claimToken s' = claimToken s)"
proof -
  obtain n where u: "sql_update (fence s i) upd (pg_rows s) = (n, pg_rows s)" and "n = 0"
    using fenced_same [OF assms(2,3)] fenced_count [OF assms(2)] assms(3)
    by (metis prod.collapse)
  then show ?thesis
    using assms(1)
    by (cases flt) (auto simp: transition_def fun_eq_iff split: if_splits option.splits)
qed

lemma transition_owned:
  assumes "transition flt look bad upd i s = (res, s')" and "tab_wf (pg_rows s)" and "pg_owned s i"
    and "row_of (pg_rows s) i = Some r"
  shows "\<not> bad r \<and> pg_rows s' = snd (sql_update (fence s i) upd (pg_rows s)) \<and> pg_routes s' = pg_routes s
      \<and> pg_uuids s' = pg_uuids s \<and> (res = None \<and> claimToken s' = (claimToken s)(i := None)
         \<or> res = Some ErrStore \<and> claimToken s' = claimToken s)
     \<or> s' = s \<and> res = Some ErrStore"
proof (cases "list_ex (\<lambda>r. fence s i r \<and> bad r) (pg_rows s)")
  case True
  then show ?thesis using assms(1) by (simp add: transition_def)
next
  case False
  then have "\<not> bad r"
    using assms(3,4) by (auto simp: list_ex_iff pg_owned_def dest: row_of_SomeD)
  moreover obtain t' where "sql_update (fence s i) upd (pg_rows s) = (1, t')"
    using fenced_count [OF assms(2), of i upd] assms(3) by (metis prod.collapse)
  ultimately show ?thesis
    using assms(1) False by (cases flt) (auto simp: transition_def fun_eq_iff)
qed

lemma transition_cases [consumes 3, case_names applied unchanged]:
  assumes "transition flt look bad upd i s = (res, s')" and "tab_wf (pg_rows s)"
    and id: "\<And>r. r_id (upd r) = r_id r"
  obtains (applied) r where "row_of (pg_rows s) i = Some r" and "fence s i r" and "\<not> bad r"
      and "\<And>j. row_of (pg_rows s') j = (if j = i then Some (upd r) else row_of (pg_rows s) j)"
      and "tab_wf (pg_rows s')" and "pg_routes s' = pg_routes s" and "pg_uuids s' = pg_uuids s"
      and "set (pg_rows s') \<subseteq> insert (upd r) (set (pg_rows s))"
      and "res = None \<and> claimToken s' = (claimToken s)(i := None)
           \<or> res = Some ErrStore \<and> claimToken s' = claimToken s"
  | (unchanged) "pg_rows s' = pg_rows s" and "pg_routes s' = pg_routes s" and "pg_uuids s' = pg_uuids s"
      and "(\<exists>err. res = Some err \<and> lost_row err \<and> claimToken s' = (claimToken s)(i := None)) \<and> \<not> pg_owned s i
           \<or> res = Some ErrStore \<and> claimToken s' = claimToken s"
proof (cases "pg_owned s i")
  case False
  then show thesis using transition_not_owned [OF assms(1,2)] by (intro unchanged) auto
next
  case True
  then obtain r where r: "row_of (pg_rows s) i = Some r" "fence s i r"
    by (auto simp: pg_owned_def split: option.splits)
  from transition_owned [OF assms(1,2) True r(1)] show thesis
  proof
    assume a: "\<not> bad r \<and> pg_rows s' = snd (sql_update (fence s i) upd (pg_rows s)) \<and> pg_routes s' = pg_routes s
      \<and> pg_uuids s' = pg_uuids s \<and> (res = None \<and> claimToken s' = (claimToken s)(i := None)
         \<or> res = Some ErrStore \<and> claimToken s' = claimToken s)"
    then show thesis
      using applied [of r] r fenced_rows [OF r id] fenced_subset [OF assms(2) r(1)]
        tab_wf_sql_update [of upd "fence s i" "pg_rows s"] assms(2) id by simp
  next
    assume "s' = s \<and> res = Some ErrStore"
    then show thesis by (intro unchanged) auto
  qed
qed

lemma transition_outcome:
  assumes "transition flt look bad upd i s = (res, s')" and "pg_inv s"
    and id: "\<And>r. r_id (upd r) = r_id r"
    and upd: "\<And>r. r_status (upd r) = st" "st \<noteq> StatusProcessing"
      "\<And>r. r_claim_token (upd r) = r_claim_token r \<or> r_claim_token (upd r) = None"
  shows "pg_inv s' \<and> outcome_law pg_owned pg_status i st s res s'"
  using assms(1) pg_inv_wf [OF assms(2)] id
proof (cases rule: transition_cases)
  case (applied r)
  have "pred_option (known_token (pg_uuids s)) (r_claim_token (upd r))"
    using upd(3) [of r] assms(2) applied(1)
    by (cases "r_claim_token r") (auto simp: pg_inv_def dest: rows_inv_row)
  then have "pg_inv s'"
    using applied(5,7,8,9) assms(2) by (auto simp: pg_inv_def rows_inv_def list_all_iff split: if_splits)
  moreover have "claimToken s' j = claimToken s j" if "j \<noteq> i" for j
    using applied(9) that by auto
  then have "pg_owned s' j = pg_owned s j \<and> pg_status s' j = pg_status s j" if "j \<noteq> i" for j
    using applied(4) that by (intro conjI pg_owned_cong) (simp_all add: pg_status_def)
  moreover have "pg_owned s i" "\<not> pg_owned s' i" "pg_status s' i = Some st"
    using applied upd by (simp_all add: pg_owned_def pg_status_def fence_def)
  ultimately show ?thesis using applied(9) by (auto simp: outcome_law_def)
next
  case unchanged
  have "pg_status s' j = pg_status s j" for j using unchanged(1) by (simp add: pg_status_def)
  moreover have inv: "pg_inv s'" using unchanged assms(2) by (auto simp: pg_inv_def split: if_splits)
  moreover have "pg_owned s' j = pg_owned s j" if "claimToken s' j = claimToken s j" for j
    using unchanged(1) that by (intro pg_owned_cong) simp_all
  moreover have "\<not> pg_owned s' i" if "claimToken s' i = None"
    using that by (simp add: pg_owned_iff [OF inv])
  ultimately show ?thesis using unchanged(4) by (auto simp: outcome_law_def)
qed

section \<open>Facts on claims\<close>

lemma claim_batch_rows:
  "r \<in> set (claim_batch now skip limit s) \<Longrightarrow>
   r \<in> set (pg_rows s) \<and> due now r \<and> routeSelection s r \<and> r_id r \<notin> set skip"
  by (auto simp: claim_batch_def dest!: in_set_takeD)

lemma tab_wf_claim_batch: "tab_wf (pg_rows s) \<Longrightarrow> tab_wf (claim_batch now skip limit s)"
proof -
  assume "tab_wf (pg_rows s)"
  then have "distinct (map r_id (filter P (pg_rows s)))" for P
    using tab_wf_filter by (simp add: tab_wf_def)
  then have "distinct (map r_id (sort_key fifo_key (filter P (pg_rows s))))" for P
    by (simp add: distinct_map)
  then show ?thesis by (simp add: claim_batch_def tab_wf_def take_map [symmetric])
qed

definition claimed_entry :: "time \<Rightarrow> (string \<Rightarrow> nat) \<Rightarrow> row \<Rightarrow> entry" where
  "claimed_entry now gen r = row_entry (claim_row now gen r)"

lemma claimed_entry_id [simp]: "en_ID (claimed_entry now gen r) = r_id r"
  by (simp add: claimed_entry_def row_entry_def)

lemma scan_rows_claimed:
  "scan_rows (map (claim_row now gen) rs) =
     (if list_all (\<lambda>r. 0 \<le> r_schema_version r) rs
      then Some (map (\<lambda>r. (claimed_entry now gen r, UuidV4 (gen (r_id r)))) rs) else None)"
  by (induction rs) (auto simp: scanClaimedEntry_def claim_row_def claimed_entry_def)

lemma remember_claims:
  assumes "s' = fold (\<lambda>(e, token). rememberClaim (en_ID e) token)
                 (map (\<lambda>r. (claimed_entry now gen r, UuidV4 (gen (r_id r)))) rs) s"
  shows "pg_rows s' = pg_rows s \<and> pg_routes s' = pg_routes s \<and> pg_uuids s' = pg_uuids s
    \<and> claimToken s' j = (if j \<in> r_id ` set rs then Some (UuidV4 (gen j)) else claimToken s j)"
  using assms
  by (induction rs arbitrary: s) (auto simp: rememberClaim_def claimToken_def gomap_simps)

lemma fetch_rows:
  assumes "tab_wf (pg_rows s)"
  shows "row_of (snd (sql_update (\<lambda>r. r_id r \<in> set (map r_id batch)) (claim_row now gen) (pg_rows s))) j =
    (if j \<in> r_id ` set batch then map_option (claim_row now gen) (row_of (pg_rows s) j) else row_of (pg_rows s) j)"
  by (cases "row_of (pg_rows s) j") (auto simp: row_of_sql_update dest: row_of_SomeD)

text \<open>A fetch claims the batch, whether or not the client learns of it, or does nothing.\<close>

lemma fetch_cases [consumes 2, case_names claimed idle]:
  assumes "pg_FetchPending flt now skip limit s = (got, s')" and "tab_wf (pg_rows s)"
  obtains (claimed) batch gen where "batch = claim_batch now skip limit s" and "gen = pg_gen s batch"
      and "pg_rows s' = snd (sql_update (\<lambda>r. r_id r \<in> set (map r_id batch)) (claim_row now gen) (pg_rows s))"
      and "pg_uuids s' = pg_uuids s + length batch" and "pg_routes s' = pg_routes s"
      and "got = Inr (map (claimed_entry now gen) batch)
            \<and> (\<forall>j. claimToken s' j = (if j \<in> r_id ` set batch then Some (UuidV4 (gen j)) else claimToken s j))
           \<or> got = Inl ErrStore \<and> (\<forall>j. claimToken s' j = claimToken s j)"
  | (idle) "pg_rows s' = pg_rows s" and "pg_uuids s \<le> pg_uuids s'" and "pg_routes s' = pg_routes s"
      and "\<forall>j. claimToken s' j = claimToken s j" and "got = Inr [] \<or> got = Inl ErrStore"
proof (cases "limit \<le> 0 \<or> flt = FaultBefore")
  case True
  then have "pg_rows s' = pg_rows s \<and> pg_uuids s \<le> pg_uuids s' \<and> pg_routes s' = pg_routes s
    \<and> (\<forall>j. claimToken s' j = claimToken s j) \<and> (got = Inr [] \<or> got = Inl ErrStore)"
    using assms(1)
    by (auto simp: pg_FetchPending_def Let_def sql_update_def claimToken_def split: if_splits)
  then show thesis using idle by blast
next
  case False
  define b where "b = claim_batch now skip limit s"
  define g where "g = pg_gen s b"
  define u where "u = sql_update (\<lambda>r. r_id r \<in> set (map r_id b)) (claim_row now g) (pg_rows s)"
  define s1 where "s1 = s\<lparr>pg_uuids := pg_uuids s + length b, pg_rows := snd u\<rparr>"
  let ?cs = "map (\<lambda>r. (claimed_entry now g r, UuidV4 (g (r_id r)))) b"
  have ex: "exec flt u (pg_rows s) = (if flt = NoFault then Some (fst u) else None, snd u)"
    using False by (simp add: exec_eq)
  have tok: "claimToken s1 = claimToken s" by (simp add: s1_def claimToken_def fun_eq_iff)
  have "(got, s') = (Inr (map fst ?cs), fold (\<lambda>(e, token). rememberClaim (en_ID e) token) ?cs s1)
     \<or> (got, s') = (Inl ErrStore, s1)"
    using assms(1) False ex
    by (auto simp: pg_FetchPending_def Let_def scan_rows_claimed s1_def b_def g_def u_def split: if_splits)
  then show thesis
  proof
    assume r: "(got, s') = (Inr (map fst ?cs), fold (\<lambda>(e, token). rememberClaim (en_ID e) token) ?cs s1)"
    then have "s' = fold (\<lambda>(e, token). rememberClaim (en_ID e) token) ?cs s1" by simp
    from remember_claims [OF this] show thesis
      using r tok by (intro claimed [OF b_def g_def]) (simp_all add: comp_def s1_def u_def)
  next
    assume "(got, s') = (Inl ErrStore, s1)"
    then show thesis using tok by (intro claimed [OF b_def g_def]) (simp_all add: s1_def u_def)
  qed
qed

lemma pg_gen_bounds:
  assumes "i \<in> r_id ` set batch"
  shows "pg_uuids s \<le> pg_gen s batch i \<and> pg_gen s batch i < pg_uuids s + length batch"
proof -
  have "takeWhile (\<lambda>r. r_id r \<noteq> i) batch \<noteq> batch" using assms by (auto simp: takeWhile_eq_all_conv)
  then have "length (takeWhile (\<lambda>r. r_id r \<noteq> i) batch) < length batch"
    by (metis length_takeWhile_le le_neq_implies_less takeWhile_eq_take take_all order_refl)
  then show ?thesis by (simp add: pg_gen_def)
qed

lemma known_token_mono: "known_token n tok \<Longrightarrow> n \<le> m \<Longrightarrow> known_token m tok"
  by (auto simp: known_token_def split: claim_token.splits)

lemma rows_inv_mono: "rows_inv n t \<Longrightarrow> n \<le> m \<Longrightarrow> rows_inv m t"
  by (auto simp: rows_inv_def list_all_iff option.pred_set intro: known_token_mono)

lemma fetch_inv:
  assumes "pg_inv s" and "pg_FetchPending flt now skip limit s = (got, s')"
  shows "pg_inv s'"
  using assms(2) pg_inv_wf [OF assms(1)]
proof (cases rule: fetch_cases)
  case idle
  then show ?thesis
    using assms(1) rows_inv_mono known_token_mono by (fastforce simp: pg_inv_def)
next
  case (claimed batch gen)
  have new: "known_token (pg_uuids s') (UuidV4 (gen j))" if "j \<in> r_id ` set batch" for j
    using pg_gen_bounds [OF that, of s] claimed(2,4) by (simp add: known_token_def)
  have old: "rows_inv (pg_uuids s') (pg_rows s)"
    using assms(1) claimed(4) by (auto simp: pg_inv_def intro: rows_inv_mono)
  then have "rows_inv (pg_uuids s') (pg_rows s')"
    using new by (auto simp: claimed(3) rows_inv_def tab_wf_sql_update)
       (auto simp: sql_update_def list_all_iff claim_row_def)
  moreover have "known_token (pg_uuids s') tok" if "claimToken s' j = Some tok" for j tok
  proof (cases "claimToken s j = Some tok")
    case True
    then show ?thesis using pg_inv_token [OF assms(1)] known_token_mono claimed(4) by force
  next
    case False
    then show ?thesis using that claimed(6) new [of j] by (metis option.inject)
  qed
  ultimately show ?thesis by (simp add: pg_inv_def)
qed

text \<open>
  After a fetch this process owns what it owned before, minus nothing, plus the batch it was told of:
  a batch claimed by a statement whose answer was lost belongs to nobody.
\<close>

lemma fetch_owned:
  assumes "pg_inv s" and "pg_FetchPending flt now skip limit s = (got, s')" and "pg_owned s' i"
  shows "pg_owned s i \<or> (\<exists>es. got = Inr es \<and> i \<in> en_ID ` set es)"
  using assms(2) pg_inv_wf [OF assms(1)]
proof (cases rule: fetch_cases)
  case idle
  then have "pg_owned s i" using assms(3) pg_owned_cong [of s i s'] by simp
  then show ?thesis ..
next
  case (claimed batch gen)
  have row: "row_of (pg_rows s') i = (if i \<in> r_id ` set batch
      then map_option (claim_row now gen) (row_of (pg_rows s) i) else row_of (pg_rows s) i)"
    unfolding claimed(3) using pg_inv_wf [OF assms(1)] by (rule fetch_rows)
  show ?thesis
  proof (cases "i \<in> r_id ` set batch")
    case False
    then have "pg_owned s i"
      using assms(3) row claimed(6) pg_owned_cong [of s i s'] by auto
    then show ?thesis ..
  next
    case True
    have "got \<noteq> Inl ErrStore"
    proof
      assume "got = Inl ErrStore"
      then have "claimToken s' i = claimToken s i" using claimed(6) by auto
      then have "claimToken s i = Some (UuidV4 (gen i))"
        using assms(3) row True fetch_inv [OF assms(1,2)]
        by (auto simp: pg_owned_iff claim_row_def dest: row_of_SomeD)
      then have "gen i < pg_uuids s" using pg_inv_token [OF assms(1)] by (force simp: known_token_def)
      then show False using pg_gen_bounds [OF True, of s] claimed(2) by simp
    qed
    then show ?thesis using claimed(6) True by (auto simp: image_comp comp_def)
  qed
qed

section \<open>Facts on housekeeping\<close>

lemma run_count_rows:
  assumes "run_count flt st s = (x, s')"
  shows "(s' = s\<lparr>pg_rows := snd st\<rparr> \<or> s' = s) \<and> (flt = NoFault \<longrightarrow> s' = s\<lparr>pg_rows := snd st\<rparr>)"
  using assms by (cases st; cases flt) (auto simp: run_count_def)

lemma owned_pairs_Nil [simp]: "owned_pairs s [] = []"
  by (simp add: owned_pairs_def)

lemma owned_pairs_mem: "(i, tok) \<in> set (owned_pairs s ids) \<longleftrightarrow> i \<in> set ids \<and> claimToken s i = Some tok"
  by (auto simp: owned_pairs_def split: option.splits)

lemma matches_owned_pairs:
  "matches_pair (owned_pairs s ids) r \<longleftrightarrow>
     r_id r \<in> set ids \<and> r_status r = StatusProcessing
     \<and> (\<exists>tok. claimToken s (r_id r) = Some tok \<and> r_claim_token r = Some tok)"
  by (force simp: matches_pair_def list_ex_iff owned_pairs_mem)

lemma heartbeat_rows:
  assumes "pg_Heartbeat flt now ids s = (x, s')"
  shows "s' = s \<or> s' = s\<lparr>pg_rows := snd (sql_update (matches_pair (owned_pairs s ids))
                                       (\<lambda>r. r\<lparr>r_updated_at := now\<rparr>) (pg_rows s))\<rparr>"
  using assms
  by (auto simp: pg_Heartbeat_def Let_def exec_eq split: if_splits)

lemma forget_pairs:
  assumes "s1 = fold (\<lambda>(i, tok). forgetClaim i) ps s"
  shows "pg_rows s1 = pg_rows s \<and> pg_routes s1 = pg_routes s \<and> pg_uuids s1 = pg_uuids s
    \<and> claimToken s1 j = (if j \<in> fst ` set ps then None else claimToken s j)"
  using assms by (induction ps arbitrary: s) (auto split: prod.splits)

lemma owned_pairs_keys: "j \<in> fst ` set (owned_pairs s ids) \<longleftrightarrow> j \<in> set ids \<and> claimToken s j \<noteq> None"
  using owned_pairs_mem [of j _ s ids] by force

lemma reset_pending_tokens:
  assumes "pg_ResetPending uuid_eq_text flt now ids s = (res, s')"
  shows "pg_routes s' = pg_routes s \<and> pg_uuids s' = pg_uuids s
    \<and> claimToken s' j = (if j \<in> set ids then None else claimToken s j)"
proof -
  let ?s1 = "fold (\<lambda>(i, tok). forgetClaim i) (owned_pairs s ids) s"
  have "pg_routes ?s1 = pg_routes s \<and> pg_uuids ?s1 = pg_uuids s
    \<and> claimToken ?s1 j = (if j \<in> set ids then None else claimToken s j)"
    using forget_pairs [OF refl, of "owned_pairs s ids" s j] owned_pairs_keys [of j s ids] by auto
  moreover have "s' = ?s1 \<or> (\<exists>t. s' = ?s1\<lparr>pg_rows := t\<rparr>)"
    using assms by (auto simp: pg_ResetPending_def Let_def exec_eq split: if_splits)
  ultimately show ?thesis by auto
qed

lemma reset_pending_rows:
  assumes "pg_ResetPending uuid_eq_text flt now ids s = (res, s')"
  shows "pg_rows s' = pg_rows s \<and> (res = None \<longrightarrow> owned_pairs s ids = [])
    \<or> uuid_eq_text \<and> pg_rows s' = snd (sql_update (matches_pair (owned_pairs s ids)) (reset_row now) (pg_rows s))"
proof -
  have "pg_rows (fold (\<lambda>(i, tok). forgetClaim i) (owned_pairs s ids) s) = pg_rows s"
    using forget_pairs [OF refl] by blast
  then show ?thesis
    using assms by (auto simp: pg_ResetPending_def Let_def exec_eq split: if_splits)
qed

section \<open>The store behind the relay\<close>

text \<open>What the surroundings decide during one poll.\<close>

record pg_env =
  pe_now :: time
  pe_skip :: "string list"
  pe_fetch :: fault
  pe_stale :: fault
  pe_beat :: fault
  pe_outcome :: "string \<Rightarrow> fault \<times> table option \<times> time"
  pe_published :: fault
  pe_failed :: fault
  pe_reset :: fault
  pe_uuid_eq_text :: bool

definition pg_ops :: "pg_env \<Rightarrow> pg relay_ops" where
  "pg_ops E =
     \<lparr> ro_FetchPending = pg_FetchPending (pe_fetch E) (pe_now E) (pe_skip E),
       ro_Heartbeat = pg_Heartbeat (pe_beat E) (pe_now E),
       ro_MarkPublished = (\<lambda>i. case pe_outcome E i of (flt, look, now) \<Rightarrow> pg_MarkPublished flt look now i),
       ro_MarkFailed = (\<lambda>i. case pe_outcome E i of (flt, look, now) \<Rightarrow> pg_MarkFailed flt look now i),
       ro_IncrementAttempts =
         (\<lambda>i. case pe_outcome E i of (flt, look, now) \<Rightarrow> pg_IncrementAttempts flt look now i),
       ro_DeletePublishedBefore = pg_DeletePublishedBefore (pe_published E),
       ro_DeleteFailedBefore = pg_DeleteFailedBefore (pe_failed E),
       ro_ResetStaleProcessing = pg_ResetStaleProcessing (pe_stale E) (pe_now E),
       ro_ResetPending = Some (pg_ResetPending (pe_uuid_eq_text E) (pe_reset E) (pe_now E)) \<rparr>"

lemma rows_inv_update:
  assumes "rows_inv n t" and "\<And>r. r_id (f r) = r_id r"
    and "\<And>r. r_claim_token (f r) = r_claim_token r \<or> r_claim_token (f r) = None"
  shows "rows_inv n (snd (sql_update p f t))"
proof -
  have "pred_option (known_token n) (r_claim_token (f r))"
    if "pred_option (known_token n) (r_claim_token r)" for r
    using assms(3) [of r] that by auto
  then show ?thesis
    using assms(1,2) by (auto simp: rows_inv_def tab_wf_sql_update) (auto simp: sql_update_def list_all_iff)
qed

lemma rows_inv_delete: "rows_inv n t \<Longrightarrow> rows_inv n (snd (sql_delete p t))"
  by (auto simp: rows_inv_def sql_delete_def list_all_iff)

lemma pg_inv_rows: "pg_inv s \<Longrightarrow> rows_inv (pg_uuids s) t \<Longrightarrow> pg_inv (s\<lparr>pg_rows := t\<rparr>)"
  by (simp add: pg_inv_def)

lemma reset_row_simps [simp]:
  "r_status (reset_row now r) = StatusPending"
  "r_claim_token (reset_row now r) = None"
  by (simp_all add: reset_row_def)

lemma stale_law_pg:
  assumes "pg_inv s" and "pg_ResetStaleProcessing flt now d s = (n, s')"
  shows "pg_inv s' \<and> (\<forall>i. pg_owned s' i \<longrightarrow> pg_owned s i)"
proof -
  let ?p = "\<lambda>r. r_status r = StatusProcessing \<and> r_updated_at r < now - d \<and> routeSelection s r"
  let ?s = "s\<lparr>pg_rows := snd (sql_update ?p (reset_row now) (pg_rows s))\<rparr>"
  have "s' = s \<or> s' = ?s"
    using assms(2) run_count_rows by (fastforce simp: pg_ResetStaleProcessing_def split: if_splits)
  moreover have "pg_inv ?s"
    using assms(1) by (intro pg_inv_rows rows_inv_update) (auto simp: pg_inv_def)
  moreover have "pg_owned s i" if "pg_owned ?s i" for i
    using that
    by (auto simp: pg_owned_def row_of_sql_update fence_def split: option.splits if_splits)
  ultimately show ?thesis using assms(1) by auto
qed

lemma reset_law_pg:
  assumes "pg_inv s" and "pg_ResetPending uuid_eq_text flt now ids s = (res, s')"
  shows "pg_inv s'
    \<and> (\<forall>i. i \<notin> set ids \<longrightarrow> pg_owned s' i = pg_owned s i \<and> pg_status s' i = pg_status s i)
    \<and> (\<forall>i \<in> set ids. \<not> pg_owned s' i)
    \<and> (res = None \<longrightarrow> (\<forall>i \<in> set ids. pg_owned s i \<longrightarrow> pg_status s' i = Some StatusPending))"
proof -
  let ?u = "snd (sql_update (matches_pair (owned_pairs s ids)) (reset_row now) (pg_rows s))"
  note toks = reset_pending_tokens [OF assms(2)]
  have rows: "pg_rows s' = pg_rows s \<and> (res = None \<longrightarrow> owned_pairs s ids = []) \<or> pg_rows s' = ?u"
    using reset_pending_rows [OF assms(2)] by blast
  have at: "row_of ?u i = map_option (\<lambda>r. if matches_pair (owned_pairs s ids) r then reset_row now r else r)
      (row_of (pg_rows s) i)" for i
    by (simp add: row_of_sql_update)
  have out: "row_of (pg_rows s') i = row_of (pg_rows s) i" if "i \<notin> set ids" for i
    using rows at that by (cases "row_of (pg_rows s) i") (auto simp: matches_owned_pairs dest: row_of_SomeD)
  have "rows_inv (pg_uuids s) ?u"
    using assms(1) by (intro rows_inv_update) (auto simp: pg_inv_def)
  then have inv: "pg_inv s'"
    using rows toks assms(1) by (auto simp: pg_inv_def split: if_splits)
  have "pg_owned s' i = pg_owned s i \<and> pg_status s' i = pg_status s i" if "i \<notin> set ids" for i
    using out [OF that] toks [of i] that by (intro conjI pg_owned_cong) (simp_all add: pg_status_def)
  moreover have "\<not> pg_owned s' i" if "i \<in> set ids" for i
    using toks [of i] that by (simp add: pg_owned_iff [OF inv])
  moreover have "pg_status s' i = Some StatusPending" if "res = None" "i \<in> set ids" and own: "pg_owned s i" for i
  proof -
    obtain r tok where r: "row_of (pg_rows s) i = Some r" "claimToken s i = Some tok"
      "r_claim_token r = Some tok" "r_status r = StatusProcessing"
      using own by (auto simp: pg_owned_iff [OF assms(1)])
    then have "owned_pairs s ids \<noteq> []" using owned_pairs_mem [of i tok s ids] that(2) by auto
    then have "pg_rows s' = ?u" using rows that(1) by simp
    then show ?thesis
      using r that(2) at [of i] row_of_SomeD [OF r(1)] by (simp add: pg_status_def matches_owned_pairs)
  qed
  ultimately show ?thesis using inv by blast
qed

lemma MarkPublished_law_pg:
  "pg_inv s \<Longrightarrow> pg_MarkPublished flt look now i at s = (res, s')
   \<Longrightarrow> pg_inv s' \<and> outcome_law pg_owned pg_status i StatusPublished s res s'"
  unfolding pg_MarkPublished_def by (erule transition_outcome) (simp_all add: published_row_def)

lemma MarkFailed_law_pg:
  "pg_inv s \<Longrightarrow> pg_MarkFailed flt look now i msg s = (res, s')
   \<Longrightarrow> pg_inv s' \<and> outcome_law pg_owned pg_status i StatusFailed s res s'"
  unfolding pg_MarkFailed_def by (erule transition_outcome) (simp_all add: failed_row_def)

lemma IncrementAttempts_law_pg:
  "pg_inv s \<Longrightarrow> pg_IncrementAttempts flt look now i msg next_at s = (res, s')
   \<Longrightarrow> pg_inv s' \<and> outcome_law pg_owned pg_status i StatusPending s res s'"
  unfolding pg_IncrementAttempts_def by (erule transition_outcome) (simp_all add: retried_row_def)

interpretation pgs: relay_store "pg_ops E" pg_inv pg_owned pg_status for E
proof
  fix s s' i and at :: time and res
  assume "pg_inv s" and "ro_MarkPublished (pg_ops E) i at s = (res, s')"
  then show "pg_inv s' \<and> outcome_law pg_owned pg_status i StatusPublished s res s'"
    by (simp add: pg_ops_def MarkPublished_law_pg split: prod.splits)
next
  fix s s' i msg res
  assume "pg_inv s" and "ro_MarkFailed (pg_ops E) i msg s = (res, s')"
  then show "pg_inv s' \<and> outcome_law pg_owned pg_status i StatusFailed s res s'"
    by (simp add: pg_ops_def MarkFailed_law_pg split: prod.splits)
next
  fix s s' i msg next_at res
  assume "pg_inv s" and "ro_IncrementAttempts (pg_ops E) i msg next_at s = (res, s')"
  then show "pg_inv s' \<and> outcome_law pg_owned pg_status i StatusPending s res s'"
    by (simp add: pg_ops_def IncrementAttempts_law_pg split: prod.splits)
next
  fix s s' n got
  assume "pg_inv s" and "ro_FetchPending (pg_ops E) n s = (got, s')"
  then show "pg_inv s' \<and> (\<forall>i. pg_owned s' i \<longrightarrow> pg_owned s i \<or> (\<exists>es. got = Inr es \<and> i \<in> en_ID ` set es))"
    using fetch_inv [of s] fetch_owned [of s] by (auto simp: pg_ops_def)
next
  fix s s' d cnt
  assume "pg_inv s" and "ro_ResetStaleProcessing (pg_ops E) d s = (cnt, s')"
  then show "pg_inv s' \<and> (\<forall>i. pg_owned s' i \<longrightarrow> pg_owned s i)"
    by (simp add: pg_ops_def stale_law_pg)
qed

interpretation pgr: resetting_store "pg_ops E" pg_inv pg_owned pg_status
    "pg_ResetPending (pe_uuid_eq_text E) (pe_reset E) (pe_now E)" for E
  by unfold_locales (simp add: pg_ops_def, rule reset_law_pg)

end
