(* ===== verification/Outbox_Delivery.thy ===== *)
theory Outbox_Delivery
  imports Outbox_Store
begin

text \<open>
  Writers and any number of relay processes over one outbox table, \<^verbatim>\<open>infra/outbox\<close> with
  \<^verbatim>\<open>infra/outbox/postgres\<close>, with every interleaving of their steps.

  A process is a relay with its store handle and the batch it works on; an entry of the batch is claimed,
  has been accepted by the publisher, or has been refused, and leaves the batch when its outcome has been
  recorded.  An event is one call that reaches the table or the publisher: a write, the claim at the
  start of a poll, one publisher call, the recording of one outcome, a heartbeat, a cleanup, a shutdown or
  a crash.  Entries of a batch proceed in any order, which covers the serial loop and the worker pool.
  The fields \<open>sy_written\<close>, \<open>sy_log\<close>, \<open>sy_errs\<close> and \<open>sy_dead\<close> record the history: the rows written, the
  entries a publisher accepted, the ids of refused calls and the ids of rows marked failed.

  Facts about the surroundings are guards of the events: new ids are new, the headers of a write are a Go
  map that a loop visits in some order, and a publisher that returns nil has accepted the entry.  A
  publisher may also accept an entry and return an error.
\<close>

section \<open>Processes and events\<close>

datatype phase = Claimed | Sent | Refused ob_error

record proc =
  px_relay :: relay
  px_routes :: "(string \<times> string \<times> string \<times> int) list"
  px_tokens :: "(string, claim_token) gomap"
  px_flight :: "(string, entry \<times> phase) gomap"

record osys =
  sy_rows :: table
  sy_uuids :: nat
  sy_procs :: "nat \<Rightarrow> proc"
  sy_written :: "row list"
  sy_log :: "entry list"
  sy_errs :: "string list"
  sy_dead :: "string list"

definition view :: "nat \<Rightarrow> osys \<Rightarrow> pg" where
  "view p s =
     \<lparr> pg_routes = px_routes (sy_procs s p), pg_tokens = px_tokens (sy_procs s p),
       pg_rows = sy_rows s, pg_uuids = sy_uuids s \<rparr>"

definition put :: "nat \<Rightarrow> pg \<Rightarrow> relay \<Rightarrow> (string, entry \<times> phase) gomap \<Rightarrow> osys \<Rightarrow> osys" where
  "put p g r fl s =
     s\<lparr>sy_rows := pg_rows g, sy_uuids := pg_uuids g,
       sy_procs := (sy_procs s)(p := (sy_procs s p)\<lparr>px_relay := r, px_tokens := pg_tokens g, px_flight := fl\<rparr>)\<rparr>"

text \<open>JSON and PostgreSQL as the writers see them.\<close>

record wenv =
  we_jsonValid :: "string \<Rightarrow> bool"
  we_marshal :: "headers \<Rightarrow> string option"
  we_jsonb :: "string \<Rightarrow> string option"

datatype ob_event =
    EvWrite nat fault time "ctx_error option" "string list" string "bool writer" bool write_params
  | EvPoll nat pg_env ctxt
  | EvPublish nat string pub_result bool
  | EvFinish nat string pg_env "ob_error \<Rightarrow> string" time
  | EvHeartbeat nat pg_env
  | EvCleanup nat pg_env "ctx_error option" time
  | EvShutdown nat pg_env "string list"
  | EvCrash nat

section \<open>Steps\<close>

definition step_write ::
    "wenv \<Rightarrow> nat \<Rightarrow> fault \<Rightarrow> time \<Rightarrow> ctx_error option \<Rightarrow> string list \<Rightarrow> string \<Rightarrow> bool writer \<Rightarrow> bool \<Rightarrow>
     write_params \<Rightarrow> osys \<Rightarrow> osys option" where
  "step_write W p flt now cerr ks newID w ctx prm s =
     (if newID \<in> set (map r_id (sy_written s))
         \<or> \<not> (gm_wf (wp_Headers prm) \<and> range_order ks (wp_Headers prm)) then None
      else
        let g = snd (Write (\<lambda>_ e g. pg_Insert (we_jsonb W) flt now cerr e g)
                       (we_jsonValid W) (we_marshal W) ks newID now w ctx prm (view p s));
            s' = put p g (px_relay (sy_procs s p)) (px_flight (sy_procs s p)) s
        in Some (case row_of (pg_rows g) newID of
                   None \<Rightarrow> s'
                 | Some r \<Rightarrow> s'\<lparr>sy_written := sy_written s @ [r]\<rparr>))"

definition step_poll :: "nat \<Rightarrow> pg_env \<Rightarrow> ctxt \<Rightarrow> osys \<Rightarrow> osys option" where
  "step_poll p E ctx s =
     (if px_flight (sy_procs s p) \<noteq> [] then None
      else case poll_claim (pg_ops E) ctx (px_relay (sy_procs s p)) (view p s) of
        (None, r, g) \<Rightarrow> Some (put p g r [] s)
      | (Some es, r, g) \<Rightarrow> Some (put p g r (map (\<lambda>e. (en_ID e, e, Claimed)) es) s))"

definition step_publish :: "nat \<Rightarrow> string \<Rightarrow> pub_result \<Rightarrow> bool \<Rightarrow> osys \<Rightarrow> osys option" where
  "step_publish p i res accepted s =
     (case map_of (px_flight (sy_procs s p)) i of
        Some (e, Claimed) \<Rightarrow>
          if res = PubOk \<and> \<not> accepted then None
          else
            let err = fst (callPublisher (\<lambda>_ _. (res, ())) e ());
                ph = (case err of None \<Rightarrow> Sent | Some x \<Rightarrow> Refused x);
                fl = AList.update i (e, ph) (px_flight (sy_procs s p));
                s' = put p (view p s) (px_relay (sy_procs s p)) fl s
            in Some (s'\<lparr>sy_log := (if accepted then sy_log s @ [e] else sy_log s),
                        sy_errs := (if err = None then sy_errs s else sy_errs s @ [i])\<rparr>)
      | _ \<Rightarrow> None)"

definition step_finish ::
    "nat \<Rightarrow> string \<Rightarrow> pg_env \<Rightarrow> (ob_error \<Rightarrow> string) \<Rightarrow> time \<Rightarrow> osys \<Rightarrow> osys option" where
  "step_finish p i E show_err now s =
     (let px = sy_procs s p; fl = AList.delete i (px_flight px) in
      case map_of (px_flight px) i of
        Some (e, Sent) \<Rightarrow>
          (case finishPublish (pg_ops E) now e (px_relay px) (view p s) of
             (r, g) \<Rightarrow> Some (put p g r fl s))
      | Some (e, Refused err) \<Rightarrow>
          (case handlePublishError (pg_ops E) show_err now e err (px_relay px) (view p s) of
             (r, g) \<Rightarrow>
               (let s' = put p g r fl s in
                Some (if pg_status g i = Some StatusFailed then s'\<lparr>sy_dead := sy_dead s @ [i]\<rparr> else s')))
      | _ \<Rightarrow> None)"

definition step_heartbeat :: "nat \<Rightarrow> pg_env \<Rightarrow> osys \<Rightarrow> osys option" where
  "step_heartbeat p E s =
     (let px = sy_procs s p in
      Some (put p (heartbeat_tick (pg_ops E) (map fst (px_flight px)) (view p s))
                (px_relay px) (px_flight px) s))"

definition step_cleanup :: "nat \<Rightarrow> pg_env \<Rightarrow> ctx_error option \<Rightarrow> time \<Rightarrow> osys \<Rightarrow> osys option" where
  "step_cleanup p E cerr now s =
     (let px = sy_procs s p in
      Some (put p (relay_cleanup (pg_ops E) cerr now (px_relay px) (view p s))
                (px_relay px) (px_flight px) s))"

text \<open>The shutdown runs when the poll loop has returned: no publisher call is waiting for its outcome.\<close>

definition step_shutdown :: "nat \<Rightarrow> pg_env \<Rightarrow> string list \<Rightarrow> osys \<Rightarrow> osys option" where
  "step_shutdown p E ks s =
     (let px = sy_procs s p in
      if \<not> list_all (\<lambda>(i, e, ph). ph = Claimed) (px_flight px)
         \<or> \<not> (distinct ks \<and> set ks = fst ` set (rl_claimed (px_relay px))) then None
      else case resetClaimedOnShutdown (pg_ops E) ks (px_relay px) (view p s) of
        (r, g) \<Rightarrow> Some (put p g r [] s))"

definition step_crash :: "nat \<Rightarrow> osys \<Rightarrow> osys option" where
  "step_crash p s =
     (let px = sy_procs s p in
      Some (put p ((view p s)\<lparr>pg_tokens := []\<rparr>)
                ((px_relay px)\<lparr>rl_claimed := [], rl_pollCount := 0\<rparr>) [] s))"

fun ob_step :: "wenv \<Rightarrow> ob_event \<Rightarrow> osys \<Rightarrow> osys option" where
  "ob_step W (EvWrite p flt now cerr ks newID w ctx prm) s = step_write W p flt now cerr ks newID w ctx prm s"
| "ob_step W (EvPoll p E ctx) s = step_poll p E ctx s"
| "ob_step W (EvPublish p i res accepted) s = step_publish p i res accepted s"
| "ob_step W (EvFinish p i E show_err now) s = step_finish p i E show_err now s"
| "ob_step W (EvHeartbeat p E) s = step_heartbeat p E s"
| "ob_step W (EvCleanup p E cerr now) s = step_cleanup p E cerr now s"
| "ob_step W (EvShutdown p E ks) s = step_shutdown p E ks s"
| "ob_step W (EvCrash p) s = step_crash p s"

fun ob_run :: "wenv \<Rightarrow> ob_event list \<Rightarrow> osys \<Rightarrow> osys option" where
  "ob_run W [] s = Some s"
| "ob_run W (ev # evs) s = (case ob_step W ev s of None \<Rightarrow> None | Some s' \<Rightarrow> ob_run W evs s')"

text \<open>An empty table and relays as constructed, each with its own configuration.\<close>

definition ob_init :: "(nat \<Rightarrow> relay) \<Rightarrow> (nat \<Rightarrow> (string \<times> string \<times> string \<times> int) list) \<Rightarrow> osys" where
  "ob_init cfg rts =
     \<lparr> sy_rows = [], sy_uuids = 0,
       sy_procs = (\<lambda>p. \<lparr> px_relay = (cfg p)\<lparr>rl_claimed := []\<rparr>, px_routes = rts p, px_tokens = [], px_flight = [] \<rparr>),
       sy_written = [], sy_log = [], sy_errs = [], sy_dead = [] \<rparr>"

section \<open>The invariant\<close>

text \<open>What a message carries: everything but the bookkeeping of the relay.\<close>

definition econtent where
  "econtent e = (en_Topic e, en_RoutingKey e, en_MessageID e, en_MessageType e, en_SchemaVersion e,
                 en_Payload e, en_Headers e, en_CreatedAt e)"

definition rcontent where
  "rcontent r = econtent (row_entry r)"

lemma rcontent_simps [simp]:
  "rcontent (claim_row now gen r) = rcontent r"
  "rcontent (published_row now at r) = rcontent r"
  "rcontent (failed_row now msg r) = rcontent r"
  "rcontent (retried_row now msg next_at r) = rcontent r"
  "rcontent (reset_row now r) = rcontent r"
  "rcontent (r\<lparr>r_updated_at := now\<rparr>) = rcontent r"
  "econtent (claimed_entry now gen r) = rcontent r"
  by (simp_all add: rcontent_def econtent_def row_entry_def claim_row_def published_row_def failed_row_def
      retried_row_def reset_row_def claimed_entry_def)

lemma attempts_simps [simp]:
  "r_attempts (claim_row now gen r) = r_attempts r"
  "r_attempts (published_row now at r) = r_attempts r"
  "r_attempts (failed_row now msg r) = r_attempts r"
  "r_attempts (retried_row now msg next_at r) = r_attempts r + 1"
  "r_attempts (reset_row now r) = r_attempts r"
  "en_Attempts (claimed_entry now gen r) = r_attempts r"
  by (simp_all add: row_entry_def claim_row_def published_row_def failed_row_def
      retried_row_def reset_row_def claimed_entry_def)

definition delivered where
  "delivered s i c \<longleftrightarrow> (\<exists>e \<in> set (sy_log s). en_ID e = i \<and> econtent e = c)"

definition wrote where
  "wrote s i c \<longleftrightarrow> (\<exists>w \<in> set (sy_written s). r_id w = i \<and> rcontent w = c)"

definition errs :: "osys \<Rightarrow> string \<Rightarrow> int" where
  "errs s i = int (count_list (sy_errs s) i)"

definition owns :: "nat \<Rightarrow> string \<Rightarrow> osys \<Rightarrow> bool" where
  "owns p i s \<longleftrightarrow> pg_owned (view p s) i"

definition inv_tok :: "osys \<Rightarrow> bool" where
  "inv_tok s \<longleftrightarrow>
     (\<forall>p. pg_inv (view p s))
     \<and> (\<forall>p q i tok. map_of (px_tokens (sy_procs s p)) i = Some tok
          \<longrightarrow> map_of (px_tokens (sy_procs s q)) i = Some tok \<longrightarrow> p = q)"

definition row_inv :: "osys \<Rightarrow> row \<Rightarrow> bool" where
  "row_inv s r \<longleftrightarrow>
     wrote s (r_id r) (rcontent r) \<and> 0 \<le> r_attempts r \<and> r_attempts r \<le> errs s (r_id r)
     \<and> r_attempts r \<le> 2147483647
     \<and> (r_status r = StatusPublished \<longrightarrow> delivered s (r_id r) (rcontent r))
     \<and> (r_status r = StatusFailed \<longrightarrow> r_id r \<in> set (sy_dead s))"

definition flight_inv :: "osys \<Rightarrow> nat \<Rightarrow> string \<Rightarrow> entry \<Rightarrow> phase \<Rightarrow> bool" where
  "flight_inv s p i e ph \<longleftrightarrow>
     en_ID e = i \<and> wrote s i (econtent e) \<and> 0 \<le> en_Attempts e \<and> en_Attempts e \<le> 2147483647
     \<and> (ph = Sent \<longrightarrow> delivered s i (econtent e))
     \<and> (owns p i s \<longrightarrow>
          (\<forall>r. row_of (sy_rows s) i = Some r \<longrightarrow>
             rcontent r = econtent e \<and> en_Attempts e = r_attempts r
             \<and> ((\<exists>err. ph = Refused err) \<longrightarrow> r_attempts r + 1 \<le> errs s i)))"

definition ob_inv :: "(nat \<Rightarrow> relay) \<Rightarrow> osys \<Rightarrow> bool" where
  "ob_inv cfg s \<longleftrightarrow>
     inv_tok s
     \<and> distinct (map r_id (sy_written s))
     \<and> (\<forall>i r. row_of (sy_rows s) i = Some r \<longrightarrow> row_inv s r)
     \<and> (\<forall>w \<in> set (sy_written s). row_of (sy_rows s) (r_id w) = None
          \<longrightarrow> delivered s (r_id w) (rcontent w) \<or> r_id w \<in> set (sy_dead s))
     \<and> (\<forall>p i e ph. map_of (px_flight (sy_procs s p)) i = Some (e, ph) \<longrightarrow> flight_inv s p i e ph)
     \<and> (\<forall>e \<in> set (sy_log s). wrote s (en_ID e) (econtent e))
     \<and> (\<forall>i \<in> set (sy_dead s). \<exists>p. rl_maxAttempts (cfg p) \<le> errs s i)
     \<and> (\<forall>p. rl_maxAttempts (px_relay (sy_procs s p)) = rl_maxAttempts (cfg p))"

lemma ob_inv_init: "ob_inv cfg (ob_init cfg rts)"
  by (simp add: ob_inv_def ob_init_def inv_tok_def view_def pg_inv_def rows_inv_def claimToken_def)

lemma ob_inv_tok: "ob_inv cfg s \<Longrightarrow> inv_tok s"
  by (simp add: ob_inv_def)

lemma ob_inv_pg: "ob_inv cfg s \<Longrightarrow> pg_inv (view p s)"
  by (simp add: ob_inv_def inv_tok_def)

lemma ob_inv_row: "ob_inv cfg s \<Longrightarrow> row_of (sy_rows s) i = Some r \<Longrightarrow> row_inv s r"
  by (simp add: ob_inv_def)

lemma ob_inv_flight:
  "ob_inv cfg s \<Longrightarrow> map_of (px_flight (sy_procs s p)) i = Some (e, ph) \<Longrightarrow> flight_inv s p i e ph"
  by (simp add: ob_inv_def)

section \<open>Ownership is exclusive\<close>

lemma view_simps [simp]:
  "pg_rows (view p s) = sy_rows s"
  "pg_uuids (view p s) = sy_uuids s"
  "pg_routes (view p s) = px_routes (sy_procs s p)"
  "pg_tokens (view p s) = px_tokens (sy_procs s p)"
  "claimToken (view p s) i = map_of (px_tokens (sy_procs s p)) i"
  by (simp_all add: view_def claimToken_def)

lemma put_simps [simp]:
  "sy_rows (put p g r fl s) = pg_rows g"
  "sy_uuids (put p g r fl s) = pg_uuids g"
  "sy_written (put p g r fl s) = sy_written s"
  "sy_log (put p g r fl s) = sy_log s"
  "sy_errs (put p g r fl s) = sy_errs s"
  "sy_dead (put p g r fl s) = sy_dead s"
  "px_tokens (sy_procs (put p g r fl s) q) = (if q = p then pg_tokens g else px_tokens (sy_procs s q))"
  "px_flight (sy_procs (put p g r fl s) q) = (if q = p then fl else px_flight (sy_procs s q))"
  "px_relay (sy_procs (put p g r fl s) q) = (if q = p then r else px_relay (sy_procs s q))"
  by (simp_all add: put_def)

lemma owns_iff:
  assumes "inv_tok s"
  shows "owns p i s \<longleftrightarrow>
     (\<exists>r tok. row_of (sy_rows s) i = Some r \<and> r_status r = StatusProcessing
        \<and> r_claim_token r = Some tok \<and> map_of (px_tokens (sy_procs s p)) i = Some tok)"
  using pg_owned_iff [of "view p s" i] assms by (simp add: owns_def inv_tok_def)

lemma owns_unique: "inv_tok s \<Longrightarrow> owns p i s \<Longrightarrow> owns q i s \<Longrightarrow> p = q"
  by (auto simp: owns_iff) (auto simp: inv_tok_def)

text \<open>
  What a step of process \<open>p\<close> may do to the tokens: others keep theirs, and \<open>p\<close> keeps, forgets or
  gets new ones.
\<close>

lemma inv_tok_step:
  assumes "inv_tok s" and "pg_inv g"
    and "sy_uuids s \<le> pg_uuids g"
    and new: "\<And>i tok. claimToken g i = Some tok \<Longrightarrow>
      map_of (px_tokens (sy_procs s p)) i = Some tok \<or> (\<exists>k \<ge> sy_uuids s. tok = UuidV4 k)"
    and s': "sy_rows s' = pg_rows g" "sy_uuids s' = pg_uuids g"
      "\<And>q. px_tokens (sy_procs s' q) = (if q = p then pg_tokens g else px_tokens (sy_procs s q))"
  shows "inv_tok s'"
proof -
  have old: "known_token (sy_uuids s) tok" if "map_of (px_tokens (sy_procs s q)) i = Some tok" for q i tok
    using assms(1) that pg_inv_token [of "view q s" i tok] by (simp add: inv_tok_def)
  have "pg_inv (view q s')" for q
  proof (cases "q = p")
    case True
    then show ?thesis using assms(2) s' by (simp add: pg_inv_def claimToken_def)
  next
    case False
    then show ?thesis
      using assms(2,3) s' old known_token_mono by (fastforce simp: pg_inv_def)
  qed
  moreover have "q = q'" if q: "map_of (px_tokens (sy_procs s' q)) i = Some tok"
    and q': "map_of (px_tokens (sy_procs s' q')) i = Some tok" for q q' i tok
  proof -
    have "\<not> (\<exists>k \<ge> sy_uuids s. tok = UuidV4 k)" if "map_of (px_tokens (sy_procs s r)) i = Some tok" for r
      using old [OF that] by (auto simp: known_token_def)
    then have "map_of (px_tokens (sy_procs s q)) i = Some tok \<and> map_of (px_tokens (sy_procs s q')) i = Some tok \<or> q = q'"
      using q q' s'(3) new [of i tok] by (auto simp: claimToken_def split: if_splits)
    then show ?thesis using assms(1) by (auto simp: inv_tok_def)
  qed
  ultimately show ?thesis by (auto simp: inv_tok_def)
qed

section \<open>Steps that only move claims\<close>

text \<open>
  A claim, a heartbeat and a reset change neither the message nor the attempts, act on rows that are
  pending or processing, and install no token but a new one.
\<close>

definition quiet :: "nat \<Rightarrow> row \<Rightarrow> row \<Rightarrow> bool" where
  "quiet n r r' \<longleftrightarrow>
     r_id r' = r_id r \<and> rcontent r' = rcontent r \<and> r_attempts r' = r_attempts r
     \<and> (r_status r' = r_status r
        \<or> r_status r \<in> {StatusPending, StatusProcessing} \<and> r_status r' \<in> {StatusPending, StatusProcessing})
     \<and> (r_status r' = StatusProcessing \<longrightarrow>
          r_status r = StatusProcessing \<and> r_claim_token r' = r_claim_token r
          \<or> (\<exists>k \<ge> n. r_claim_token r' = Some (UuidV4 k)))"

definition quiet_rows :: "nat \<Rightarrow> table \<Rightarrow> table \<Rightarrow> bool" where
  "quiet_rows n t t' \<longleftrightarrow> (\<forall>i. rel_option (quiet n) (row_of t i) (row_of t' i))"

lemma quiet_refl [simp]: "quiet n r r"
  by (simp add: quiet_def)

lemma quiet_trans: "quiet n r r' \<Longrightarrow> quiet n r' r'' \<Longrightarrow> quiet n r r''"
  unfolding quiet_def by (elim conjE; intro conjI; force)

lemma quiet_rows_refl [simp]: "quiet_rows n t t"
  by (simp add: quiet_rows_def option.rel_refl)

lemma quiet_rows_trans: "quiet_rows n t t' \<Longrightarrow> quiet_rows n t' t'' \<Longrightarrow> quiet_rows n t t''"
proof -
  have "transp (rel_option (quiet n))"
    by (intro option.rel_transp transpI) (rule quiet_trans)
  then show "quiet_rows n t t' \<Longrightarrow> quiet_rows n t' t'' \<Longrightarrow> quiet_rows n t t''"
    unfolding quiet_rows_def by (meson transpD)
qed

lemma quiet_rows_mono: "quiet_rows m t t' \<Longrightarrow> n \<le> m \<Longrightarrow> quiet_rows n t t'"
  unfolding quiet_rows_def quiet_def by (fastforce elim!: option.rel_mono_strong)

lemma quiet_rows_update:
  assumes "\<And>r. r_id (f r) = r_id r" and "\<And>r. r \<in> set t \<Longrightarrow> p r \<Longrightarrow> quiet n r (f r)"
  shows "quiet_rows n t (snd (sql_update p f t))"
  unfolding quiet_rows_def
proof
  fix i
  show "rel_option (quiet n) (row_of t i) (row_of (snd (sql_update p f t)) i)"
    using assms by (cases "row_of t i") (auto simp: row_of_sql_update dest: row_of_SomeD)
qed

lemma quiet_rowsD:
  "quiet_rows n t t' \<Longrightarrow> row_of t' i = Some r' \<Longrightarrow> \<exists>r. row_of t i = Some r \<and> quiet n r r'"
  unfolding quiet_rows_def by (metis option_rel_Some2)

lemma quiet_rows_None: "quiet_rows n t t' \<Longrightarrow> row_of t' i = None \<longleftrightarrow> row_of t i = None"
  unfolding quiet_rows_def by (metis option.rel_distinct(1,2) option.exhaust)

text \<open>Such a step never makes another process the owner of a row.\<close>

lemma quiet_owns:
  assumes "inv_tok s" and "inv_tok s'" and "quiet_rows (sy_uuids s) (sy_rows s) (sy_rows s')"
    and "map_of (px_tokens (sy_procs s' q)) i = map_of (px_tokens (sy_procs s q)) i"
    and "owns q i s'"
  shows "owns q i s"
proof -
  obtain r' tok where r': "row_of (sy_rows s') i = Some r'" "r_status r' = StatusProcessing"
    "r_claim_token r' = Some tok" "map_of (px_tokens (sy_procs s q)) i = Some tok"
    using assms(4,5) by (auto simp: owns_iff [OF assms(2)])
  obtain r where r: "row_of (sy_rows s) i = Some r" "quiet (sy_uuids s) r r'"
    using quiet_rowsD [OF assms(3) r'(1)] by blast
  have "known_token (sy_uuids s) tok"
    using assms(1) r'(4) pg_inv_token [of "view q s" i tok] by (simp add: inv_tok_def)
  then have "r_claim_token r = Some tok \<and> r_status r = StatusProcessing"
    using r(2) r'(2,3) by (auto simp: quiet_def known_token_def)
  then show ?thesis using r(1) r'(4) by (auto simp: owns_iff [OF assms(1)])
qed

lemma quiet_row_inv:
  assumes "row_inv s r" and "quiet n r r'"
    and "sy_written s' = sy_written s" "sy_log s' = sy_log s" "sy_errs s' = sy_errs s" "sy_dead s' = sy_dead s"
  shows "row_inv s' r'"
  using assms by (auto simp: quiet_def row_inv_def wrote_def delivered_def errs_def)

lemma quiet_flight_inv:
  assumes "inv_tok s" and "inv_tok s'" and q: "quiet_rows (sy_uuids s) (sy_rows s) (sy_rows s')"
    and h: "sy_written s' = sy_written s" "sy_log s' = sy_log s" "sy_errs s' = sy_errs s"
    and "map_of (px_tokens (sy_procs s' p)) i = map_of (px_tokens (sy_procs s p)) i \<or> \<not> owns p i s'"
    and "flight_inv s p i e ph"
  shows "flight_inv s' p i e ph"
proof -
  have "rcontent r' = econtent e \<and> en_Attempts e = r_attempts r'
      \<and> ((\<exists>err. ph = Refused err) \<longrightarrow> r_attempts r' + 1 \<le> errs s i)"
    if own: "owns p i s'" and r': "row_of (sy_rows s') i = Some r'" for r'
  proof -
    have "owns p i s" using quiet_owns [OF assms(1,2) q] assms(7) own by blast
    moreover obtain r where "row_of (sy_rows s) i = Some r" "quiet (sy_uuids s) r r'"
      using quiet_rowsD [OF q r'] by blast
    ultimately show ?thesis using assms(8) by (auto simp: flight_inv_def quiet_def)
  qed
  then show ?thesis using assms(8) h by (auto simp: flight_inv_def wrote_def delivered_def errs_def)
qed

lemma ob_inv_quiet:
  assumes "ob_inv cfg s" and "inv_tok s'" and q: "quiet_rows (sy_uuids s) (sy_rows s) (sy_rows s')"
    and h: "sy_written s' = sy_written s" "sy_log s' = sy_log s" "sy_errs s' = sy_errs s" "sy_dead s' = sy_dead s"
    and fl: "\<And>p i e ph. map_of (px_flight (sy_procs s' p)) i = Some (e, ph) \<Longrightarrow>
       flight_inv s p i e ph
         \<and> (map_of (px_tokens (sy_procs s' p)) i = map_of (px_tokens (sy_procs s p)) i \<or> \<not> owns p i s')
       \<or> ph = Claimed \<and> en_ID e = i
         \<and> (\<exists>r. row_of (sy_rows s') i = Some r \<and> rcontent r = econtent e \<and> en_Attempts e = r_attempts r)"
    and "\<And>p. rl_maxAttempts (px_relay (sy_procs s' p)) = rl_maxAttempts (px_relay (sy_procs s p))"
  shows "ob_inv cfg s'"
proof -
  have tok: "inv_tok s" using assms(1) by (simp add: ob_inv_def)
  have rows: "row_inv s' r'" if r': "row_of (sy_rows s') i = Some r'" for i r'
  proof -
    obtain r where "row_of (sy_rows s) i = Some r" "quiet (sy_uuids s) r r'"
      using quiet_rowsD [OF q r'] by blast
    then show ?thesis using quiet_row_inv [OF ob_inv_row [OF assms(1)]] h by blast
  qed
  have "flight_inv s' p i e ph" if f: "map_of (px_flight (sy_procs s' p)) i = Some (e, ph)" for p i e ph
    using fl [OF f]
  proof
    assume "flight_inv s p i e ph
         \<and> (map_of (px_tokens (sy_procs s' p)) i = map_of (px_tokens (sy_procs s p)) i \<or> \<not> owns p i s')"
    then show ?thesis using quiet_flight_inv [OF tok assms(2) q h(1-3)] by blast
  next
    assume n: "ph = Claimed \<and> en_ID e = i
         \<and> (\<exists>r. row_of (sy_rows s') i = Some r \<and> rcontent r = econtent e \<and> en_Attempts e = r_attempts r)"
    then obtain r where r: "row_of (sy_rows s') i = Some r" "rcontent r = econtent e" "en_Attempts e = r_attempts r"
      by blast
    then show ?thesis using n rows [OF r(1)] row_of_SomeD [OF r(1)] by (auto simp: flight_inv_def row_inv_def)
  qed
  then show ?thesis
    using assms(1,2) rows h quiet_rows_None [OF q] assms(9)
    by (auto simp: ob_inv_def wrote_def delivered_def errs_def)
qed

text \<open>The common case: batches and remembered tokens only shrink.\<close>

lemma ob_inv_shrink:
  assumes "ob_inv cfg s" and "inv_tok s'" and "quiet_rows (sy_uuids s) (sy_rows s) (sy_rows s')"
    and "sy_written s' = sy_written s" "sy_log s' = sy_log s" "sy_errs s' = sy_errs s" "sy_dead s' = sy_dead s"
    and fl: "\<And>p i x. map_of (px_flight (sy_procs s' p)) i = Some x \<Longrightarrow>
       map_of (px_flight (sy_procs s p)) i = Some x
       \<and> (map_of (px_tokens (sy_procs s' p)) i = map_of (px_tokens (sy_procs s p)) i
          \<or> map_of (px_tokens (sy_procs s' p)) i = None)"
    and "\<And>p. rl_maxAttempts (px_relay (sy_procs s' p)) = rl_maxAttempts (px_relay (sy_procs s p))"
  shows "ob_inv cfg s'"
proof (rule ob_inv_quiet [OF assms(1-7) _ assms(9)])
  fix p i e ph
  assume "map_of (px_flight (sy_procs s' p)) i = Some (e, ph)"
  from fl [OF this] have "flight_inv s p i e ph
      \<and> (map_of (px_tokens (sy_procs s' p)) i = map_of (px_tokens (sy_procs s p)) i \<or> \<not> owns p i s')"
    using ob_inv_flight [OF assms(1)] owns_iff [OF assms(2), of p i] by auto
  then show "flight_inv s p i e ph
      \<and> (map_of (px_tokens (sy_procs s' p)) i = map_of (px_tokens (sy_procs s p)) i \<or> \<not> owns p i s')
    \<or> ph = Claimed \<and> en_ID e = i
      \<and> (\<exists>r. row_of (sy_rows s') i = Some r \<and> rcontent r = econtent e \<and> en_Attempts e = r_attempts r)" ..
qed

lemma stale_quiet:
  assumes "pg_ResetStaleProcessing flt now d g = (n, g')"
  shows "quiet_rows m (pg_rows g) (pg_rows g') \<and> claimToken g' = claimToken g \<and> pg_uuids g' = pg_uuids g"
proof -
  let ?p = "\<lambda>r. r_status r = StatusProcessing \<and> r_updated_at r < now - d \<and> routeSelection g r"
  have "g' = g \<or> g' = g\<lparr>pg_rows := snd (sql_update ?p (reset_row now) (pg_rows g))\<rparr>"
    using assms run_count_rows by (fastforce simp: pg_ResetStaleProcessing_def split: if_splits)
  moreover have "quiet_rows m (pg_rows g) (snd (sql_update ?p (reset_row now) (pg_rows g)))"
    by (rule quiet_rows_update) (auto simp: quiet_def)
  ultimately show ?thesis by (auto simp: fun_eq_iff)
qed

lemma fetch_quiet:
  assumes "pg_inv g" and "pg_FetchPending flt now skip limit g = (got, g')"
  shows "quiet_rows (pg_uuids g) (pg_rows g) (pg_rows g') \<and> pg_uuids g \<le> pg_uuids g'
    \<and> (\<forall>i tok. claimToken g' i = Some tok \<longrightarrow> claimToken g i = Some tok \<or> (\<exists>k \<ge> pg_uuids g. tok = UuidV4 k))"
  using assms(2) pg_inv_wf [OF assms(1)]
proof (cases rule: fetch_cases)
  case idle
  then show ?thesis by simp
next
  case (claimed batch gen)
  have "quiet (pg_uuids g) r (claim_row now gen r)"
    if r: "r \<in> set (pg_rows g)" "r_id r \<in> set (map r_id batch)" for r
  proof -
    obtain r' where r': "r' \<in> set batch" "r_id r' = r_id r" using r(2) by auto
    then have "r' \<in> set (pg_rows g)" "due now r'" using claim_batch_rows claimed(1) by auto
    then have "r' = r"
      using row_of_iff [OF pg_inv_wf [OF assms(1)]] r(1) r'(2) by (metis option.inject)
    moreover have "pg_uuids g \<le> gen (r_id r)" using pg_gen_bounds [of "r_id r" batch g] r(2) claimed(2) by simp
    ultimately show ?thesis using \<open>due now r'\<close> by (simp add: quiet_def due_def) (simp add: claim_row_def)
  qed
  then have "quiet_rows (pg_uuids g) (pg_rows g) (pg_rows g')"
    unfolding claimed(3) by (intro quiet_rows_update) auto
  moreover have "claimToken g i = Some tok \<or> (\<exists>k \<ge> pg_uuids g. tok = UuidV4 k)"
    if "claimToken g' i = Some tok" for i tok
    using that claimed(6) pg_gen_bounds [of i batch g] claimed(2)
    by (cases "i \<in> r_id ` set batch") auto
  ultimately show ?thesis using claimed(4) by auto
qed

text \<open>The entries a fetch returns are the rows as they now stand.\<close>

lemma fetch_entries:
  assumes "pg_inv g" and "pg_FetchPending flt now skip limit g = (Inr es, g')" and "e \<in> set es"
  shows "\<exists>r. row_of (pg_rows g') (en_ID e) = Some r \<and> rcontent r = econtent e \<and> en_Attempts e = r_attempts r"
  using assms(2) pg_inv_wf [OF assms(1)]
proof (cases rule: fetch_cases)
  case idle
  then show ?thesis using assms(3) by simp
next
  case (claimed batch gen)
  then obtain r where r: "r \<in> set batch" "e = claimed_entry now gen r" using assms(3) by auto
  then have "row_of (pg_rows g) (r_id r) = Some r"
    using claim_batch_rows claimed(1) row_of_iff [OF pg_inv_wf [OF assms(1)]] by auto
  then have "row_of (pg_rows g') (r_id r) = Some (claim_row now gen r)"
    unfolding claimed(3) using fetch_rows [OF pg_inv_wf [OF assms(1)], of batch now gen "r_id r"] r(1) by auto
  then show ?thesis using r(2) by simp
qed

text \<open>The claim at the start of a poll: recovery of stale rows, then the fetch.\<close>

lemma poll_claim_quiet:
  assumes inv: "pg_inv g" and "poll_claim (pg_ops E) ctx r g = (oes, r', g')"
  shows "pg_inv g' \<and> quiet_rows (pg_uuids g) (pg_rows g) (pg_rows g') \<and> pg_uuids g \<le> pg_uuids g'
    \<and> (\<forall>i tok. claimToken g' i = Some tok \<longrightarrow> claimToken g i = Some tok \<or> (\<exists>k \<ge> pg_uuids g. tok = UuidV4 k))
    \<and> rl_maxAttempts r' = rl_maxAttempts r
    \<and> (\<forall>es e. oes = Some es \<longrightarrow> e \<in> set es \<longrightarrow>
         (\<exists>x. row_of (pg_rows g') (en_ID e) = Some x \<and> rcontent x = econtent e \<and> en_Attempts e = r_attempts x))"
proof (cases "ctx_obs ctx 0 = None")
  case False
  then show ?thesis using assms by (simp add: poll_claim_def)
next
  case True
  let ?r = "r\<lparr>rl_pollCount := wrap64 (rl_pollCount r + 1)\<rparr>"
  let ?g = "if rl_pollCount ?r smod staleRecoveryMultiplier = 0
            then recoverStale (pg_ops E) (ctx_obs ctx 1) ?r g else g"
  obtain n g1 where st: "pg_ResetStaleProcessing (pe_stale E) (pe_now E) (rl_staleDuration r) g = (n, g1)"
    by fastforce
  have "?g = g \<or> ?g = g1" using st by (simp add: recoverStale_def pg_ops_def)
  then have g: "pg_inv ?g" "quiet_rows (pg_uuids g) (pg_rows g) (pg_rows ?g)"
    "claimToken ?g = claimToken g" "pg_uuids ?g = pg_uuids g"
    using stale_law_pg [OF inv st] stale_quiet [OF st] inv by auto
  obtain got g2 where f: "pg_FetchPending (pe_fetch E) (pe_now E) (pe_skip E) (rl_batchSize r) ?g = (got, g2)"
    by fastforce
  have res: "g' = g2 \<and> rl_maxAttempts r' = rl_maxAttempts r \<and> (\<forall>es. oes = Some es \<longrightarrow> got = Inr es)"
    using assms(2) True f
    by (auto simp: poll_claim_def Let_def pg_ops_def trackClaimed_def split: sum.splits if_splits)
  have "quiet_rows (pg_uuids g) (pg_rows g) (pg_rows g2)"
    using fetch_quiet [OF g(1) f] g(2,4) by (auto intro: quiet_rows_trans)
  moreover have "pg_uuids g \<le> pg_uuids g2
    \<and> (\<forall>i tok. claimToken g2 i = Some tok \<longrightarrow> claimToken g i = Some tok \<or> (\<exists>k \<ge> pg_uuids g. tok = UuidV4 k))"
    using fetch_quiet [OF g(1) f] g(3,4) by simp
  moreover have "\<exists>x. row_of (pg_rows g2) (en_ID e) = Some x \<and> rcontent x = econtent e \<and> en_Attempts e = r_attempts x"
    if es: "oes = Some es" "e \<in> set es" for es e
  proof -
    have "got = Inr es" using res es(1) by simp
    from fetch_entries [OF g(1) f [unfolded this] es(2)] show ?thesis .
  qed
  ultimately show ?thesis using res fetch_inv [OF g(1) f] by simp
qed

lemma map_of_flight:
  "map_of (map (\<lambda>e. (en_ID e, e, Claimed)) es) i = Some (e, ph) \<Longrightarrow> e \<in> set es \<and> en_ID e = i \<and> ph = Claimed"
  by (auto dest: map_of_SomeD)

lemma ob_inv_poll:
  assumes "ob_inv cfg s" and "step_poll p E ctx s = Some s'"
  shows "ob_inv cfg s'"
proof -
  obtain oes r' g' where c: "poll_claim (pg_ops E) ctx (px_relay (sy_procs s p)) (view p s) = (oes, r', g')"
    by (metis prod_cases3)
  define fl where "fl = (case oes of None \<Rightarrow> [] | Some es \<Rightarrow> map (\<lambda>e. (en_ID e, e, Claimed)) es)"
  have s': "s' = put p g' r' fl s"
    using assms(2) c by (auto simp: step_poll_def fl_def split: if_splits option.splits)
  note q = poll_claim_quiet [OF ob_inv_pg [OF assms(1)] c, simplified view_simps]
  have tok: "inv_tok s'"
    by (rule inv_tok_step [OF ob_inv_tok [OF assms(1)], of g' p]) (use q s' in auto)
  show ?thesis
  proof (rule ob_inv_quiet [OF assms(1) tok])
    fix p' i e ph
    assume f: "map_of (px_flight (sy_procs s' p')) i = Some (e, ph)"
    show "flight_inv s p' i e ph
         \<and> (map_of (px_tokens (sy_procs s' p')) i = map_of (px_tokens (sy_procs s p')) i \<or> \<not> owns p' i s')
       \<or> ph = Claimed \<and> en_ID e = i
         \<and> (\<exists>r. row_of (sy_rows s') i = Some r \<and> rcontent r = econtent e \<and> en_Attempts e = r_attempts r)"
    proof (cases "p' = p")
      case False
      then show ?thesis using f s' ob_inv_flight [OF assms(1), of p' i e ph] by simp
    next
      case True
      then obtain es where "oes = Some es" "e \<in> set es \<and> en_ID e = i \<and> ph = Claimed"
        using f s' by (auto simp: fl_def dest: map_of_flight split: option.splits)
      then show ?thesis using q s' by auto
    qed
  qed (use q s' in auto)
qed

lemma heartbeat_quiet:
  assumes inv: "pg_inv g" and "pg_Heartbeat flt now ids g = (x, g')"
  shows "pg_inv g' \<and> quiet_rows n (pg_rows g) (pg_rows g') \<and> pg_tokens g' = pg_tokens g \<and> pg_uuids g' = pg_uuids g"
proof -
  let ?t = "snd (sql_update (matches_pair (owned_pairs g ids)) (\<lambda>r. r\<lparr>r_updated_at := now\<rparr>) (pg_rows g))"
  have "g' = g \<or> g' = g\<lparr>pg_rows := ?t\<rparr>" using assms(2) by (rule heartbeat_rows)
  moreover have "quiet_rows n (pg_rows g) ?t"
    by (rule quiet_rows_update) (auto simp: quiet_def)
  moreover have "pg_inv (g\<lparr>pg_rows := ?t\<rparr>)"
    using inv by (intro pg_inv_rows rows_inv_update) (auto simp: pg_inv_def)
  ultimately show ?thesis using inv by auto
qed

lemma ob_inv_heartbeat:
  assumes "ob_inv cfg s" and "step_heartbeat p E s = Some s'"
  shows "ob_inv cfg s'"
proof -
  let ?ids = "map fst (px_flight (sy_procs s p))"
  define g' where "g' = heartbeat_tick (pg_ops E) ?ids (view p s)"
  have s': "s' = put p g' (px_relay (sy_procs s p)) (px_flight (sy_procs s p)) s"
    using assms(2) by (simp add: step_heartbeat_def Let_def g'_def)
  obtain x g1 where h: "pg_Heartbeat (pe_beat E) (pe_now E) ?ids (view p s) = (x, g1)" by fastforce
  have "g' = view p s \<or> g' = g1" using h by (simp add: g'_def heartbeat_tick_def pg_ops_def)
  then have g': "pg_inv g'" "quiet_rows (sy_uuids s) (sy_rows s) (pg_rows g')"
    "pg_tokens g' = px_tokens (sy_procs s p)" "pg_uuids g' = sy_uuids s"
    using heartbeat_quiet [OF ob_inv_pg [OF assms(1)] h] ob_inv_pg [OF assms(1)] by auto
  have tok: "inv_tok s'"
    by (rule inv_tok_step [OF ob_inv_tok [OF assms(1)] g'(1), of p])
       (use g' s' in \<open>auto simp: claimToken_def\<close>)
  show ?thesis
    by (rule ob_inv_shrink [OF assms(1) tok]) (use g' s' in \<open>auto split: if_splits\<close>)
qed

lemma fold_untrack_max: "rl_maxAttempts (fold untrackClaimed ids r) = rl_maxAttempts r"
  by (induction ids arbitrary: r) (simp_all add: untrackClaimed_def)

lemma shutdown_quiet:
  assumes inv: "pg_inv g" and "resetClaimedOnShutdown (pg_ops E) ks r g = (r', g')"
  shows "pg_inv g' \<and> quiet_rows n (pg_rows g) (pg_rows g') \<and> pg_uuids g' = pg_uuids g
    \<and> (\<forall>i. claimToken g' i = claimToken g i \<or> claimToken g' i = None) \<and> rl_maxAttempts r' = rl_maxAttempts r"
proof -
  let ?ids = "claimedIDs ks r"
  obtain res g1 where rp: "pg_ResetPending (pe_uuid_eq_text E) (pe_reset E) (pe_now E) ?ids g = (res, g1)" by fastforce
  have "(g' = g \<or> g' = g1) \<and> rl_maxAttempts r' = rl_maxAttempts r"
    using assms(2) rp
    by (auto simp: resetClaimedOnShutdown_def pg_ops_def Let_def fold_untrack_max split: option.splits if_splits)
  moreover have "quiet_rows n (pg_rows g) (snd (sql_update (matches_pair (owned_pairs g ?ids)) (reset_row (pe_now E)) (pg_rows g)))"
    by (rule quiet_rows_update) (auto simp: quiet_def matches_owned_pairs)
  then have "quiet_rows n (pg_rows g) (pg_rows g1)" using reset_pending_rows [OF rp] by auto
  ultimately show ?thesis
    using inv reset_law_pg [OF inv rp] reset_pending_tokens [OF rp] by (auto split: if_splits)
qed

lemma ob_inv_shutdown:
  assumes "ob_inv cfg s" and "step_shutdown p E ks s = Some s'"
  shows "ob_inv cfg s'"
proof -
  obtain r' g' where c: "resetClaimedOnShutdown (pg_ops E) ks (px_relay (sy_procs s p)) (view p s) = (r', g')"
    by fastforce
  have s': "s' = put p g' r' [] s"
    using assms(2) c by (auto simp: step_shutdown_def Let_def split: if_splits)
  note q = shutdown_quiet [OF ob_inv_pg [OF assms(1)] c, of "sy_uuids s"]
  have keep: "map_of (px_tokens (sy_procs s p)) i = Some tok" if "claimToken g' i = Some tok" for i tok
    using q that by (metis option.distinct(1) view_simps(5))
  have tok: "inv_tok s'"
    by (rule inv_tok_step [OF ob_inv_tok [OF assms(1)], of g' p]) (use q s' keep in simp_all)
  show ?thesis
    by (rule ob_inv_shrink [OF assms(1) tok]) (use q s' in \<open>simp_all split: if_splits\<close>)
qed

lemma ob_inv_crash:
  assumes "ob_inv cfg s" and "step_crash p s = Some s'"
  shows "ob_inv cfg s'"
proof -
  let ?g = "(view p s)\<lparr>pg_tokens := []\<rparr>"
  have s': "s' = put p ?g ((px_relay (sy_procs s p))\<lparr>rl_claimed := [], rl_pollCount := 0\<rparr>) [] s"
    using assms(2) by (simp add: step_crash_def Let_def)
  have "pg_inv ?g" using ob_inv_pg [OF assms(1), of p] by (simp add: pg_inv_def claimToken_def)
  then have tok: "inv_tok s'"
    by (rule inv_tok_step [OF ob_inv_tok [OF assms(1)], of _ p]) (use s' in \<open>auto simp: claimToken_def\<close>)
  show ?thesis
    by (rule ob_inv_shrink [OF assms(1) tok]) (use s' in \<open>auto split: if_splits\<close>)
qed

section \<open>Publisher calls\<close>

lemma owns_cong:
  "sy_rows s' = sy_rows s \<Longrightarrow> px_tokens (sy_procs s' p) = px_tokens (sy_procs s p) \<Longrightarrow> owns p i s' = owns p i s"
  unfolding owns_def by (rule pg_owned_cong) simp_all

text \<open>The history only grows.\<close>

definition grows :: "osys \<Rightarrow> osys \<Rightarrow> bool" where
  "grows s s' \<longleftrightarrow>
     set (sy_written s) \<subseteq> set (sy_written s') \<and> set (sy_log s) \<subseteq> set (sy_log s')
     \<and> (\<forall>i. errs s i \<le> errs s' i) \<and> set (sy_dead s) \<subseteq> set (sy_dead s')"

lemma grows_mono:
  assumes "grows s s'"
  shows "delivered s i c \<Longrightarrow> delivered s' i c" and "wrote s i c \<Longrightarrow> wrote s' i c"
    and "errs s i \<le> errs s' i" and "i \<in> set (sy_dead s) \<Longrightarrow> i \<in> set (sy_dead s')"
  using assms by (auto simp: grows_def delivered_def wrote_def)

lemma row_inv_grows: "row_inv s r \<Longrightarrow> grows s s' \<Longrightarrow> row_inv s' r"
  using grows_mono [of s s'] by (simp add: row_inv_def) (meson order_trans)

lemma flight_inv_grows:
  assumes "flight_inv s p i e ph" and "grows s s'"
    and "owns p i s' \<Longrightarrow> owns p i s \<and> row_of (sy_rows s') i = row_of (sy_rows s) i"
  shows "flight_inv s' p i e ph"
  using assms(1,3) grows_mono [OF assms(2)] unfolding flight_inv_def
  by (auto intro: order_trans)

lemma ob_inv_grows:
  assumes inv: "ob_inv cfg s" and gr: "grows s s'" and "inv_tok s'" and "distinct (map r_id (sy_written s'))"
    and "\<And>i r. row_of (sy_rows s') i = Some r \<Longrightarrow> row_inv s' r"
    and gone: "\<And>w. w \<in> set (sy_written s') \<Longrightarrow> row_of (sy_rows s') (r_id w) = None \<Longrightarrow>
       w \<in> set (sy_written s) \<and> row_of (sy_rows s) (r_id w) = None
       \<or> delivered s' (r_id w) (rcontent w) \<or> r_id w \<in> set (sy_dead s')"
    and "\<And>p i e ph. map_of (px_flight (sy_procs s' p)) i = Some (e, ph) \<Longrightarrow> flight_inv s' p i e ph"
    and log: "\<And>e. e \<in> set (sy_log s') \<Longrightarrow> e \<in> set (sy_log s) \<or> wrote s' (en_ID e) (econtent e)"
    and dead: "\<And>i. i \<in> set (sy_dead s') \<Longrightarrow> i \<in> set (sy_dead s) \<or> (\<exists>p. rl_maxAttempts (cfg p) \<le> errs s' i)"
    and "\<And>p. rl_maxAttempts (px_relay (sy_procs s' p)) = rl_maxAttempts (px_relay (sy_procs s p))"
  shows "ob_inv cfg s'"
proof -
  have "delivered s' (r_id w) (rcontent w) \<or> r_id w \<in> set (sy_dead s')"
    if "w \<in> set (sy_written s')" "row_of (sy_rows s') (r_id w) = None" for w
    using gone [OF that] inv grows_mono(1,4) [OF gr] unfolding ob_inv_def by blast
  moreover have "wrote s' (en_ID e) (econtent e)" if "e \<in> set (sy_log s')" for e
    using log [OF that] inv grows_mono(2) [OF gr] unfolding ob_inv_def by blast
  moreover have "\<exists>p. rl_maxAttempts (cfg p) \<le> errs s' i" if "i \<in> set (sy_dead s')" for i
    using dead [OF that] inv order_trans [OF _ grows_mono(3) [OF gr]] unfolding ob_inv_def by blast
  ultimately show ?thesis
    using inv assms(3-5,7,10) unfolding ob_inv_def by simp
qed

lemma ob_inv_publish:
  assumes "ob_inv cfg s" and "step_publish p i res accepted s = Some s'"
  shows "ob_inv cfg s'"
proof -
  obtain e where e: "map_of (px_flight (sy_procs s p)) i = Some (e, Claimed)"
    and acc: "res = PubOk \<longrightarrow> accepted"
    using assms(2) by (auto simp: step_publish_def split: option.splits prod.splits phase.splits if_splits)
  define err where "err = fst (callPublisher (\<lambda>_ _. (res, ())) e ())"
  define ph where "ph = (case err of None \<Rightarrow> Sent | Some x \<Rightarrow> Refused x)"
  define fl where "fl = AList.update i (e, ph) (px_flight (sy_procs s p))"
  have s': "s' = (put p (view p s) (px_relay (sy_procs s p)) fl s)
      \<lparr>sy_log := (if accepted then sy_log s @ [e] else sy_log s),
       sy_errs := (if err = None then sy_errs s else sy_errs s @ [i])\<rparr>"
    using assms(2) e by (auto simp: step_publish_def Let_def err_def ph_def fl_def split: if_splits)
  have same: "sy_rows s' = sy_rows s" "px_tokens (sy_procs s' q) = px_tokens (sy_procs s q)"
    "sy_written s' = sy_written s" "sy_dead s' = sy_dead s" "sy_uuids s' = sy_uuids s"
    "px_flight (sy_procs s' q) = (if q = p then fl else px_flight (sy_procs s q))"
    "px_relay (sy_procs s' q) = px_relay (sy_procs s q)" for q
    using s' by simp_all
  have log: "sy_log s' = (if accepted then sy_log s @ [e] else sy_log s)"
    and errs: "sy_errs s' = (if err = None then sy_errs s else sy_errs s @ [i])"
    using s' by simp_all
  have gr: "grows s s'" using same log errs by (auto simp: grows_def errs_def)
  have fe: "flight_inv s p i e Claimed" using ob_inv_flight [OF assms(1) e] .
  have own: "owns q j s' = owns q j s" for q j using same by (intro owns_cong) auto
  have tok: "inv_tok s'"
    using ob_inv_tok [OF assms(1)] same by (simp add: inv_tok_def pg_inv_def)
  have "flight_inv s' p i e ph"
  proof -
    have "ph = Sent \<Longrightarrow> delivered s' i (econtent e)"
      using acc log fe
      by (auto simp: ph_def err_def callPublisher_def delivered_def flight_inv_def split: option.splits pub_result.splits)
    moreover have "ph = Refused x \<Longrightarrow> errs s' i = errs s i + 1" for x
      using errs by (auto simp: ph_def errs_def split: option.splits)
    moreover have "r_attempts r \<le> errs s i" if "row_of (sy_rows s) i = Some r" for r
      using ob_inv_row [OF assms(1) that] row_of_SomeD [OF that] by (simp add: row_inv_def)
    ultimately show ?thesis
      using fe own [of p i] grows_mono(2) [OF gr] same(1) by (auto simp: flight_inv_def)
  qed
  moreover have "flight_inv s' q j e' ph'"
    if "map_of (px_flight (sy_procs s q)) j = Some (e', ph')" for q j e' ph'
    using ob_inv_flight [OF assms(1) that] gr by (rule flight_inv_grows) (simp add: own same)
  ultimately have "flight_inv s' q j e' ph'"
    if "map_of (px_flight (sy_procs s' q)) j = Some (e', ph')" for q j e' ph'
    using that same(6) [of q] by (auto simp: fl_def gomap_simps split: if_splits)
  moreover have "row_inv s' r" if "row_of (sy_rows s') j = Some r" for j r
    using row_inv_grows [OF ob_inv_row [OF assms(1)] gr] that same(1) by simp
  moreover have "wrote s' (en_ID e) (econtent e)"
    using fe grows_mono(2) [OF gr] by (auto simp: flight_inv_def)
  moreover have "distinct (map r_id (sy_written s))" using assms(1) by (simp add: ob_inv_def)
  ultimately show ?thesis
    by (intro ob_inv_grows [OF assms(1) gr tok]) (auto simp: same log split: if_splits)
qed

section \<open>Outcomes\<close>

lemma owns_other_row:
  assumes "inv_tok s" and "inv_tok s'" and "row_of (sy_rows s') i = row_of (sy_rows s) i"
    and "map_of (px_tokens (sy_procs s' p)) i = map_of (px_tokens (sy_procs s p)) i
         \<or> map_of (px_tokens (sy_procs s' p)) i = None"
    and "owns p i s'"
  shows "owns p i s"
  using assms(3-5) by (auto simp: owns_iff [OF assms(1)] owns_iff [OF assms(2)])

text \<open>Recording an outcome settles one row of the batch, or finds that it is no longer owned.\<close>

lemma ob_inv_outcome:
  assumes inv: "ob_inv cfg s" and "pg_inv g" and "pg_uuids g = sy_uuids s"
    and tk: "\<And>j. claimToken g j = map_of (px_tokens (sy_procs s p)) j \<or> claimToken g j = None"
    and rows: "pg_rows g = sy_rows s \<or>
      (\<exists>x. r_id x = i \<and> (\<forall>j. row_of (pg_rows g) j = (if j = i then Some x else row_of (sy_rows s) j))
          \<and> r_status x \<noteq> StatusProcessing \<and> row_inv s' x)"
    and s': "s' = (put p g r (AList.delete i (px_flight (sy_procs s p))) s)\<lparr>sy_dead := sy_dead s @ d\<rparr>"
    and d: "\<And>j. j \<in> set d \<Longrightarrow> \<exists>q. rl_maxAttempts (cfg q) \<le> errs s j"
    and "rl_maxAttempts r = rl_maxAttempts (px_relay (sy_procs s p))"
  shows "ob_inv cfg s'"
proof -
  have gr: "grows s s'" using s' by (auto simp: grows_def errs_def)
  have tok: "inv_tok s'"
    by (rule inv_tok_step [OF ob_inv_tok [OF inv] assms(2), of p])
       (use s' assms(3) tk in \<open>auto, metis option.distinct(1)\<close>)
  have row: "row_of (sy_rows s') j = row_of (sy_rows s) j
      \<or> j = i \<and> (\<exists>x. row_of (sy_rows s') i = Some x \<and> r_status x \<noteq> StatusProcessing \<and> row_inv s' x)" for j
  proof -
    have "sy_rows s' = pg_rows g" using s' by simp
    then show ?thesis using rows by (cases "j = i") auto
  qed
  have flight: "flight_inv s' q j e ph"
    if "map_of (px_flight (sy_procs s q)) j = Some (e, ph)" for q j e ph
  proof (rule flight_inv_grows [OF ob_inv_flight [OF inv that] gr])
    assume own: "owns q j s'"
    then have "row_of (sy_rows s') j = row_of (sy_rows s) j"
      using row [of j] by (auto simp: owns_iff [OF tok])
    moreover have "map_of (px_tokens (sy_procs s' q)) j = map_of (px_tokens (sy_procs s q)) j
         \<or> map_of (px_tokens (sy_procs s' q)) j = None"
      using tk [of j] s' by (auto simp: claimToken_def)
    ultimately show "owns q j s \<and> row_of (sy_rows s') j = row_of (sy_rows s) j"
      using owns_other_row [OF ob_inv_tok [OF inv] tok] own by blast
  qed
  show ?thesis
  proof (rule ob_inv_grows [OF inv gr tok])
    fix j x assume "row_of (sy_rows s') j = Some x"
    then show "row_inv s' x" using row [of j] row_inv_grows [OF ob_inv_row [OF inv] gr] by auto
  next
    fix q j e ph assume "map_of (px_flight (sy_procs s' q)) j = Some (e, ph)"
    then show "flight_inv s' q j e ph" using flight s' by (auto simp: gomap_simps split: if_splits)
  next
    fix w assume "w \<in> set (sy_written s')" "row_of (sy_rows s') (r_id w) = None"
    then show "w \<in> set (sy_written s) \<and> row_of (sy_rows s) (r_id w) = None
       \<or> delivered s' (r_id w) (rcontent w) \<or> r_id w \<in> set (sy_dead s')"
      using row [of "r_id w"] s' by auto
  next
    fix j assume "j \<in> set (sy_dead s')"
    then show "j \<in> set (sy_dead s) \<or> (\<exists>q. rl_maxAttempts (cfg q) \<le> errs s' j)"
      using d s' by (auto simp: errs_def)
  qed (use inv s' assms(8) in \<open>auto simp: ob_inv_def\<close>)
qed

lemma settleD:
  "settle i (res, g) r = (r', g') \<Longrightarrow> g' = g \<and> rl_maxAttempts r' = rl_maxAttempts r"
  by (auto simp: settle_def untrackClaimed_def split: option.splits if_splits)

text \<open>
  A fenced update by process \<open>p\<close>, with the requirement on the row it writes when \<open>p\<close> owns the row.
\<close>

lemma ob_inv_transition:
  assumes inv: "ob_inv cfg s" and t: "transition flt look bad upd i (view p s) = (res, g)"
    and id: "\<And>x. r_id (upd x) = r_id x"
    and upd: "\<And>x. r_status (upd x) = st" "st \<noteq> StatusProcessing"
      "\<And>x. r_claim_token (upd x) = r_claim_token x \<or> r_claim_token (upd x) = None"
    and ok: "\<And>x. row_of (sy_rows s) i = Some x \<Longrightarrow> owns p i s \<Longrightarrow> \<not> bad x
        \<Longrightarrow> row_of (pg_rows g) i = Some (upd x) \<Longrightarrow> row_inv s' (upd x)"
    and s': "s' = (put p g r (AList.delete i (px_flight (sy_procs s p))) s)\<lparr>sy_dead := sy_dead s @ d\<rparr>"
    and d: "\<And>j. j \<in> set d \<Longrightarrow> \<exists>q. rl_maxAttempts (cfg q) \<le> errs s j"
    and r: "rl_maxAttempts r = rl_maxAttempts (px_relay (sy_procs s p))"
  shows "ob_inv cfg s'"
proof -
  have pg: "pg_inv g" using transition_outcome [OF t ob_inv_pg [OF inv] id upd] by simp
  have wf: "tab_wf (pg_rows (view p s))" using pg_inv_wf [OF ob_inv_pg [OF inv]] .
  from t wf id show ?thesis
  proof (cases rule: transition_cases)
    case (applied x)
    then have "owns p i s" by (simp add: owns_def pg_owned_def)
    then have x: "row_inv s' (upd x)" using ok applied(1,3,4) by simp
    have "r_id (upd x) = i" using applied(1) id row_of_SomeD by auto
    then have rows: "pg_rows g = sy_rows s \<or> (\<exists>x. r_id x = i
        \<and> (\<forall>j. row_of (pg_rows g) j = (if j = i then Some x else row_of (sy_rows s) j))
        \<and> r_status x \<noteq> StatusProcessing \<and> row_inv s' x)"
      using x applied(4) upd(1,2) by (intro disjI2 exI [of _ "upd x"]) simp
    show ?thesis
      by (rule ob_inv_outcome [OF inv pg _ _ rows s' d r]) (use applied in \<open>auto split: if_splits\<close>)
  next
    case unchanged
    show ?thesis
      by (rule ob_inv_outcome [OF inv pg _ _ _ s' d r]) (use unchanged in \<open>auto split: if_splits\<close>)
  qed
qed

lemma ob_inv_finish_sent:
  assumes inv: "ob_inv cfg s" and f: "map_of (px_flight (sy_procs s p)) i = Some (e, Sent)"
    and "finishPublish (pg_ops E) now e (px_relay (sy_procs s p)) (view p s) = (r, g)"
    and s': "s' = put p g r (AList.delete i (px_flight (sy_procs s p))) s"
  shows "ob_inv cfg s'"
proof -
  note fe = ob_inv_flight [OF inv f, unfolded flight_inv_def]
  obtain flt look now' where E: "pe_outcome E i = (flt, look, now')" by (metis prod_cases3)
  obtain res g1 where t: "transition flt look (\<lambda>_. False) (published_row now' now) i (view p s) = (res, g1)"
    by fastforce
  have "settle i (res, g1) (px_relay (sy_procs s p)) = (r, g)"
    using assms(3) t E fe by (simp add: finishPublish_def pg_ops_def pg_MarkPublished_def)
  then have "g = g1" "rl_maxAttempts r = rl_maxAttempts (px_relay (sy_procs s p))"
    by (simp_all add: settleD)
  moreover have "row_inv s' (published_row now' now x)" if "row_of (sy_rows s) i = Some x" "owns p i s" for x
  proof -
    have "grows s s'" using s' by (simp add: grows_def errs_def)
    then have "row_inv s' x" "delivered s' i (rcontent x)"
      using row_inv_grows [OF ob_inv_row [OF inv that(1)]] grows_mono(1) fe that by auto
    then show ?thesis
      using row_of_SomeD [OF that(1)] by (simp add: row_inv_def) (simp add: published_row_def)
  qed
  ultimately show ?thesis
    by (intro ob_inv_transition [OF inv t, where s' = s' and r = r and d = "[]" and st = StatusPublished])
       (auto simp: s' published_row_def)
qed

text \<open>
  A refused call: the last attempt marks the row failed, an earlier one schedules the next.  An owner's
  view of the attempts is exact, so the row fails only after that many refusals.
\<close>

lemma refused_row_inv:
  assumes inv: "ob_inv cfg s" and f: "map_of (px_flight (sy_procs s p)) i = Some (e, Refused err)"
    and x: "row_of (sy_rows s) i = Some x" and own: "owns p i s" and gr: "grows s s'"
  shows "i \<in> set (sy_dead s') \<Longrightarrow> row_inv s' (failed_row now msg x)"
    and "r_attempts x < 2147483647 \<Longrightarrow> row_inv s' (retried_row now msg next_at x)"
    and "en_Attempts e + 1 \<le> errs s i"
proof -
  have a: "en_Attempts e = r_attempts x" "r_attempts x + 1 \<le> errs s i"
    using ob_inv_flight [OF inv f] x own by (auto simp: flight_inv_def)
  then show "en_Attempts e + 1 \<le> errs s i" by simp
  have r: "row_inv s' x" "r_id x = i"
    using row_inv_grows [OF ob_inv_row [OF inv x] gr] row_of_SomeD [OF x] by auto
  show "i \<in> set (sy_dead s') \<Longrightarrow> row_inv s' (failed_row now msg x)"
    using r by (simp add: row_inv_def) (simp add: failed_row_def)
  have "r_attempts x + 1 \<le> errs s' i" using a(2) grows_mono(3) [OF gr, of i] by linarith
  then show "row_inv s' (retried_row now msg next_at x)" if "r_attempts x < 2147483647"
    using r that by (simp add: row_inv_def) (simp add: retried_row_def)
qed

lemma failed_is_dead:
  assumes inv: "ob_inv cfg s" and t: "transition flt look bad upd i (view p s) = (res, g)"
    and id: "\<And>x. r_id (upd x) = r_id x"
    and upd: "\<And>x. r_status (upd x) = st" "st \<noteq> StatusProcessing"
      "\<And>x. r_claim_token (upd x) = r_claim_token x \<or> r_claim_token (upd x) = None"
    and "pg_status g i = Some StatusFailed"
  shows "st = StatusFailed \<and> owns p i s \<or> (\<exists>q. rl_maxAttempts (cfg q) \<le> errs s i)"
proof (cases "pg_status (view p s) i = Some StatusFailed")
  case True
  then obtain x where x: "row_of (sy_rows s) i = Some x" "r_status x = StatusFailed"
    by (auto simp: pg_status_def)
  then have "i \<in> set (sy_dead s)"
    using ob_inv_row [OF inv x(1)] row_of_SomeD [OF x(1)] by (simp add: row_inv_def)
  then show ?thesis using inv by (simp add: ob_inv_def)
next
  case False
  then have "owns p i s" "pg_status g i = Some st"
    using transition_outcome [OF t ob_inv_pg [OF inv] id upd] assms(7)
    by (auto simp: outcome_law_def owns_def split: option.splits if_splits)
  then show ?thesis using assms(7) by simp
qed

lemma ob_inv_finish_refused:
  assumes inv: "ob_inv cfg s" and f: "map_of (px_flight (sy_procs s p)) i = Some (e, Refused err)"
    and h: "handlePublishError (pg_ops E) show_err now e err (px_relay (sy_procs s p)) (view p s) = (r, g)"
    and s': "s' = (put p g r (AList.delete i (px_flight (sy_procs s p))) s)
        \<lparr>sy_dead := sy_dead s @ (if pg_status g i = Some StatusFailed then [i] else [])\<rparr>"
  shows "ob_inv cfg s'"
proof -
  let ?rl = "px_relay (sy_procs s p)" and ?msg = "show_err err"
  note fe = ob_inv_flight [OF inv f, unfolded flight_inv_def]
  obtain flt look now' where E: "pe_outcome E i = (flt, look, now')" by (metis prod_cases3)
  have w: "wrap64 (en_Attempts e + 1) = en_Attempts e + 1"
    using fe by (intro wrap64_id) (simp add: in_i64_def)
  have gr: "grows s s'" using s' by (auto simp: grows_def errs_def)
  note ref = refused_row_inv [OF inv f _ _ gr]
  show ?thesis
  proof (cases "en_Attempts e + 1 \<ge> rl_maxAttempts ?rl")
    case True
    obtain res g1 where t: "transition flt look (\<lambda>_. False) (failed_row now' ?msg) i (view p s) = (res, g1)"
      by fastforce
    have "settle i (res, g1) ?rl = (r, g)"
      using h t E fe True w by (simp add: handlePublishError_def pg_ops_def pg_MarkFailed_def)
    then have g: "g1 = g" "rl_maxAttempts r = rl_maxAttempts ?rl" by (auto dest: settleD)
    have "\<exists>q. rl_maxAttempts (cfg q) \<le> errs s i" if "pg_status g i = Some StatusFailed"
    proof -
      have "owns p i s \<Longrightarrow> rl_maxAttempts (cfg p) \<le> errs s i"
        using True ref(3) inv by (fastforce simp: ob_inv_def owns_iff [OF ob_inv_tok [OF inv]])
      then show ?thesis
        using failed_is_dead [OF inv t [unfolded g], of StatusFailed] that by (auto simp: failed_row_def)
    qed
    moreover have "row_inv s' (failed_row now' ?msg x)"
      if "row_of (sy_rows s) i = Some x" "owns p i s" "row_of (pg_rows g) i = Some (failed_row now' ?msg x)" for x
      using ref(1) [OF that(1,2)] that(3) s' by (simp add: pg_status_def failed_row_def)
    ultimately show ?thesis
      by (intro ob_inv_transition [OF inv t [unfolded g(1)] _ _ _ _ _ s', where st = StatusFailed])
         (auto simp: g failed_row_def split: if_splits)
  next
    case False
    let ?next = "now + retryBackoff (en_Attempts e + 1)"
    obtain res g1 where t: "transition flt look (\<lambda>x. r_attempts x \<ge> 2147483647) (retried_row now' ?msg ?next) i (view p s) = (res, g1)"
      by fastforce
    have "settle i (res, g1) ?rl = (r, g)"
      using h t E fe False w by (simp add: handlePublishError_def pg_ops_def pg_IncrementAttempts_def)
    then have g: "g1 = g" "rl_maxAttempts r = rl_maxAttempts ?rl" by (auto dest: settleD)
    have "\<exists>q. rl_maxAttempts (cfg q) \<le> errs s i" if "pg_status g i = Some StatusFailed"
      using failed_is_dead [OF inv t [unfolded g], of StatusPending] that by (auto simp: retried_row_def)
    then show ?thesis
      using ref(2)
      by (intro ob_inv_transition [OF inv t [unfolded g(1)] _ _ _ _ _ s', where st = StatusPending])
         (auto simp: g retried_row_def split: if_splits)
  qed
qed

section \<open>Cleanup\<close>

text \<open>Retention removes rows that are done, and touches nothing else.\<close>

definition pruned :: "table \<Rightarrow> table \<Rightarrow> bool" where
  "pruned t t' \<longleftrightarrow>
     (\<forall>i. row_of t' i = row_of t i
        \<or> row_of t' i = None \<and> (\<exists>r. row_of t i = Some r \<and> r_status r \<in> {StatusPublished, StatusFailed}))"

lemma pruned_refl [simp]: "pruned t t"
  by (simp add: pruned_def)

lemma pruned_trans: "pruned t t' \<Longrightarrow> pruned t' t'' \<Longrightarrow> pruned t t''"
  unfolding pruned_def by (metis option.distinct(1))

lemma delete_pruned:
  assumes inv: "pg_inv g" and "run_count flt (sql_delete P (pg_rows g)) g = (x, g')"
    and "\<And>r. P r \<Longrightarrow> r_status r \<in> {StatusPublished, StatusFailed}"
  shows "pg_inv g' \<and> pruned (pg_rows g) (pg_rows g') \<and> pg_tokens g' = pg_tokens g \<and> pg_uuids g' = pg_uuids g"
proof -
  let ?t = "snd (sql_delete P (pg_rows g))"
  have "g' = g\<lparr>pg_rows := ?t\<rparr> \<or> g' = g" using run_count_rows [OF assms(2)] by simp
  moreover have "pg_inv (g\<lparr>pg_rows := ?t\<rparr>)"
    using inv by (intro pg_inv_rows rows_inv_delete) (auto simp: pg_inv_def)
  moreover have "pruned (pg_rows g) ?t"
    using assms(3) by (auto simp: pruned_def row_of_sql_delete [OF pg_inv_wf [OF inv]] split: option.split)
  ultimately show ?thesis using inv by auto
qed

lemma cleanup_pruned:
  assumes inv: "pg_inv g"
  shows "pg_inv (relay_cleanup (pg_ops E) cerr now r g)
    \<and> pruned (pg_rows g) (pg_rows (relay_cleanup (pg_ops E) cerr now r g))
    \<and> pg_tokens (relay_cleanup (pg_ops E) cerr now r g) = pg_tokens g
    \<and> pg_uuids (relay_cleanup (pg_ops E) cerr now r g) = pg_uuids g"
proof (cases "cerr = None")
  case False
  then show ?thesis using inv by (simp add: relay_cleanup_def)
next
  case True
  obtain x g1 where d1: "pg_DeletePublishedBefore (pe_published E) (now - rl_retention r) g = (x, g1)" by fastforce
  obtain y g2 where d2: "pg_DeleteFailedBefore (pe_failed E) (now - rl_failedRetention r) g1 = (y, g2)" by fastforce
  have 1: "pg_inv g1 \<and> pruned (pg_rows g) (pg_rows g1) \<and> pg_tokens g1 = pg_tokens g \<and> pg_uuids g1 = pg_uuids g"
    by (rule delete_pruned [OF inv d1 [unfolded pg_DeletePublishedBefore_def]]) simp
  have 2: "pg_inv g2 \<and> pruned (pg_rows g1) (pg_rows g2) \<and> pg_tokens g2 = pg_tokens g1 \<and> pg_uuids g2 = pg_uuids g1"
    by (rule delete_pruned [OF _ d2 [unfolded pg_DeleteFailedBefore_def]]) (use 1 in simp_all)
  have "relay_cleanup (pg_ops E) cerr now r g = g2"
    using True d1 d2 by (simp add: relay_cleanup_def pg_ops_def)
  then show ?thesis using 1 2 pruned_trans by auto
qed

lemma ob_inv_cleanup:
  assumes inv: "ob_inv cfg s" and "step_cleanup p E cerr now s = Some s'"
  shows "ob_inv cfg s'"
proof -
  define g where "g = relay_cleanup (pg_ops E) cerr now (px_relay (sy_procs s p)) (view p s)"
  have s': "s' = put p g (px_relay (sy_procs s p)) (px_flight (sy_procs s p)) s"
    using assms(2) by (simp add: step_cleanup_def Let_def g_def)
  have g: "pg_inv g" "pruned (sy_rows s) (pg_rows g)" "pg_tokens g = px_tokens (sy_procs s p)" "pg_uuids g = sy_uuids s"
    using cleanup_pruned [OF ob_inv_pg [OF inv]] by (simp_all add: g_def)
  have tok: "inv_tok s'"
    by (rule inv_tok_step [OF ob_inv_tok [OF inv] g(1), of p]) (use g s' in \<open>auto simp: claimToken_def\<close>)
  have gr: "grows s s'" using s' by (simp add: grows_def errs_def)
  have row: "row_of (sy_rows s') i = row_of (sy_rows s) i \<or> row_of (sy_rows s') i = None
     \<and> (\<exists>r. row_of (sy_rows s) i = Some r \<and> r_status r \<in> {StatusPublished, StatusFailed})" for i
    using g(2) s' by (simp add: pruned_def)
  show ?thesis
  proof (rule ob_inv_grows [OF inv gr tok])
    fix i r assume "row_of (sy_rows s') i = Some r"
    then show "row_inv s' r" using row [of i] row_inv_grows [OF ob_inv_row [OF inv] gr] by auto
  next
    fix w assume w: "w \<in> set (sy_written s')" "row_of (sy_rows s') (r_id w) = None"
    show "w \<in> set (sy_written s) \<and> row_of (sy_rows s) (r_id w) = None
       \<or> delivered s' (r_id w) (rcontent w) \<or> r_id w \<in> set (sy_dead s')"
      using row [of "r_id w"]
    proof
      assume "row_of (sy_rows s') (r_id w) = None
        \<and> (\<exists>r. row_of (sy_rows s) (r_id w) = Some r \<and> r_status r \<in> {StatusPublished, StatusFailed})"
      then obtain r where r: "row_of (sy_rows s) (r_id w) = Some r" "r_status r \<in> {StatusPublished, StatusFailed}"
        by blast
      have "row_inv s' r" "r_id r = r_id w"
        using row_inv_grows [OF ob_inv_row [OF inv r(1)] gr] row_of_SomeD [OF r(1)] by auto
      moreover have "rcontent r = rcontent w"
        using \<open>row_inv s' r\<close> \<open>r_id r = r_id w\<close> w(1) s' inv
        by (auto simp: row_inv_def wrote_def ob_inv_def distinct_map inj_on_def)
      ultimately show ?thesis using r(2) by (auto simp: row_inv_def)
    qed (use w s' in simp)
  next
    fix q i e ph assume "map_of (px_flight (sy_procs s' q)) i = Some (e, ph)"
    then have f: "map_of (px_flight (sy_procs s q)) i = Some (e, ph)" using s' by (simp split: if_splits)
    have "map_of (px_tokens (sy_procs s' q)) i = map_of (px_tokens (sy_procs s q)) i"
      using s' g(3) by simp
    then show "flight_inv s' q i e ph"
      using row [of i] owns_other_row [OF ob_inv_tok [OF inv] tok, of i q]
      by (intro flight_inv_grows [OF ob_inv_flight [OF inv f] gr]) (auto simp: owns_iff [OF tok])
  qed (use inv s' in \<open>auto simp: ob_inv_def\<close>)
qed

section \<open>Writes\<close>

lemma Insert_cases:
  assumes "pg_Insert jsonb flt now cerr e g = (res, g')"
  shows "g' = g \<and> res \<noteq> None
    \<or> (\<exists>c pl hj. g' = g\<lparr>pg_rows := pg_rows g @ [entry_row c pl hj e]\<rparr> \<and> jsonb (en_Payload e) = Some pl
        \<and> stored_headers jsonb e = Some hj \<and> row_accepted (pg_rows g) (entry_row c pl hj e)
        \<and> c = (if is_zero (en_CreatedAt e) then now else en_CreatedAt e))"
  using assms by (cases flt) (auto simp: pg_Insert_def Let_def split: option.splits if_splits)

text \<open>A write appends one pending row that carries the parameters, or leaves the table alone.\<close>

definition written_row :: "wenv \<Rightarrow> string \<Rightarrow> time \<Rightarrow> write_params \<Rightarrow> row \<Rightarrow> bool" where
  "written_row W newID now prm r \<longleftrightarrow>
     (\<exists>hj pl hs. we_marshal W (wp_Headers prm) = Some hj \<and> we_jsonb W (wp_Payload prm) = Some pl
        \<and> stored_headers (we_jsonb W) (new_entry newID now hj prm) = Some hs
        \<and> r = entry_row now pl hs (new_entry newID now hj prm))"

lemma write_cases:
  assumes "Write (\<lambda>_ e g. pg_Insert (we_jsonb W) flt now cerr e g) (we_jsonValid W) (we_marshal W)
             ks newID now w ctx prm g = (res, g')"
  shows "g' = g \<and> res \<noteq> None
    \<or> (\<exists>r. g' = g\<lparr>pg_rows := pg_rows g @ [r]\<rparr> \<and> row_of (pg_rows g) newID = None
         \<and> written_row W newID now prm r \<and> validateWriteParams (we_jsonValid W) ks prm = None)"
  using assms
proof (cases rule: Write_cases)
  case (refused err)
  then show ?thesis by simp
next
  case (inserted hj)
  from Insert_cases [OF inserted(5)] show ?thesis
    unfolding written_row_def
    using inserted(1,2) by (force simp: new_entry_def row_accepted_def entry_row_def)
qed

lemma written_row_fields:
  "written_row W newID now prm r \<Longrightarrow> r_id r = newID \<and> r_status r = StatusPending \<and> r_attempts r = 0
     \<and> r_claim_token r = None"
  by (auto simp: written_row_def entry_row_def new_entry_def)

lemma fresh_id_no_row:
  assumes inv: "ob_inv cfg s" and new: "newID \<notin> set (map r_id (sy_written s))"
  shows "row_of (sy_rows s) newID = None"
proof (rule ccontr)
  assume "row_of (sy_rows s) newID \<noteq> None"
  then obtain r where r: "row_of (sy_rows s) newID = Some r" by blast
  then have "wrote s newID (rcontent r)"
    using ob_inv_row [OF inv r] row_of_SomeD [OF r] by (simp add: row_inv_def)
  then show False using new by (force simp: wrote_def)
qed

lemma ob_inv_append:
  assumes inv: "ob_inv cfg s" and new: "r_id r \<notin> set (map r_id (sy_written s))"
    and rf: "r_status r = StatusPending" "r_attempts r = 0" "r_claim_token r = None"
    and s': "s' = (put p ((view p s)\<lparr>pg_rows := sy_rows s @ [r]\<rparr>) (px_relay (sy_procs s p)) (px_flight (sy_procs s p)) s)
              \<lparr>sy_written := sy_written s @ [r]\<rparr>"
  shows "ob_inv cfg s'"
proof -
  let ?g = "(view p s)\<lparr>pg_rows := sy_rows s @ [r]\<rparr>"
  have none: "row_of (sy_rows s) (r_id r) = None" using fresh_id_no_row [OF inv new] .
  have row: "row_of (sy_rows s') i = (if i = r_id r then Some r else row_of (sy_rows s) i)" for i
    using s' none by (simp add: row_of_append split: option.split)
  have gr: "grows s s'" using s' by (auto simp: grows_def errs_def)
  have "rows_inv (sy_uuids s) (sy_rows s)" using ob_inv_pg [OF inv, of p] by (simp add: pg_inv_def)
  then have "rows_inv (sy_uuids s) (sy_rows s @ [r])"
    using rf none by (auto simp: rows_inv_def tab_wf_def row_of_None)
  then have pg: "pg_inv ?g" using ob_inv_pg [OF inv, of p] by (simp add: pg_inv_rows)
  have tok: "inv_tok s'"
    by (rule inv_tok_step [OF ob_inv_tok [OF inv] pg, of p]) (use s' in auto)
  have toks: "px_tokens (sy_procs s' q) = px_tokens (sy_procs s q)" for q using s' by simp
  show ?thesis
  proof (rule ob_inv_grows [OF inv gr tok])
    fix i x assume "row_of (sy_rows s') i = Some x"
    then show "row_inv s' x"
      using row [of i] row_inv_grows [OF ob_inv_row [OF inv] gr] rf s'
      by (auto simp: row_inv_def wrote_def errs_def split: if_splits)
  next
    fix q i e ph assume "map_of (px_flight (sy_procs s' q)) i = Some (e, ph)"
    then have f: "map_of (px_flight (sy_procs s q)) i = Some (e, ph)" using s' by (simp split: if_splits)
    show "flight_inv s' q i e ph"
      using row [of i] rf owns_other_row [OF ob_inv_tok [OF inv] tok, of i q] toks
      by (intro flight_inv_grows [OF ob_inv_flight [OF inv f] gr]) (auto simp: owns_iff [OF tok] split: if_splits)
  next
    fix x assume "x \<in> set (sy_written s')" "row_of (sy_rows s') (r_id x) = None"
    then show "x \<in> set (sy_written s) \<and> row_of (sy_rows s) (r_id x) = None
       \<or> delivered s' (r_id x) (rcontent x) \<or> r_id x \<in> set (sy_dead s')"
      using row [of "r_id x"] s' by (simp split: if_splits) blast
  next
    show "distinct (map r_id (sy_written s'))" using inv s' new by (simp add: ob_inv_def)
  qed (simp_all add: s')
qed

text \<open>What a write step does.\<close>

lemma step_write_cases:
  assumes inv: "ob_inv cfg s" and step: "step_write W p flt now cerr ks newID w ctx prm s = Some s'"
  shows "s' = s \<or> (\<exists>r. written_row W newID now prm r \<and> newID \<notin> set (map r_id (sy_written s))
     \<and> validateWriteParams (we_jsonValid W) ks prm = None
     \<and> gm_wf (wp_Headers prm) \<and> range_order ks (wp_Headers prm)
     \<and> s' = (put p ((view p s)\<lparr>pg_rows := sy_rows s @ [r]\<rparr>) (px_relay (sy_procs s p)) (px_flight (sy_procs s p)) s)
              \<lparr>sy_written := sy_written s @ [r]\<rparr>)"
proof -
  obtain res g where g: "Write (\<lambda>_ e g. pg_Insert (we_jsonb W) flt now cerr e g) (we_jsonValid W) (we_marshal W)
             ks newID now w ctx prm (view p s) = (res, g)" by fastforce
  have new: "newID \<notin> set (map r_id (sy_written s))" "gm_wf (wp_Headers prm)" "range_order ks (wp_Headers prm)"
    using step by (auto simp: step_write_def split: if_splits)
  note none = fresh_id_no_row [OF inv new(1)]
  from write_cases [OF g] show ?thesis
  proof
    assume "g = view p s \<and> res \<noteq> None"
    then have "s' = s" using step g none new by (simp add: step_write_def Let_def put_def view_def)
    then show ?thesis ..
  next
    assume "\<exists>r. g = (view p s)\<lparr>pg_rows := pg_rows (view p s) @ [r]\<rparr> \<and> row_of (pg_rows (view p s)) newID = None
         \<and> written_row W newID now prm r \<and> validateWriteParams (we_jsonValid W) ks prm = None"
    then obtain r where r: "g = (view p s)\<lparr>pg_rows := sy_rows s @ [r]\<rparr>" "written_row W newID now prm r"
      "validateWriteParams (we_jsonValid W) ks prm = None" by auto
    then have "s' = (put p g (px_relay (sy_procs s p)) (px_flight (sy_procs s p)) s)\<lparr>sy_written := sy_written s @ [r]\<rparr>"
      using step g none new written_row_fields [OF r(2)] by (simp add: step_write_def Let_def row_of_append)
    then show ?thesis using r new by blast
  qed
qed

lemma ob_inv_write:
  assumes "ob_inv cfg s" and "step_write W p flt now cerr ks newID w ctx prm s = Some s'"
  shows "ob_inv cfg s'"
  using step_write_cases [OF assms] assms(1) ob_inv_append [OF assms(1)] written_row_fields by metis

section \<open>Runs\<close>

lemma ob_inv_finish:
  assumes inv: "ob_inv cfg s" and step: "step_finish p i E show_err now s = Some s'"
  shows "ob_inv cfg s'"
proof -
  let ?px = "sy_procs s p"
  obtain e ph where f: "map_of (px_flight ?px) i = Some (e, ph)" "ph \<noteq> Claimed"
    using step by (auto simp: step_finish_def Let_def split: option.splits phase.splits)
  show ?thesis
  proof (cases ph)
    case Sent
    obtain r g where h: "finishPublish (pg_ops E) now e (px_relay ?px) (view p s) = (r, g)" by fastforce
    have "s' = put p g r (AList.delete i (px_flight ?px)) s"
      using f Sent step h by (simp add: step_finish_def Let_def)
    from ob_inv_finish_sent [OF inv f(1) [unfolded Sent] h this] show ?thesis .
  next
    case (Refused err)
    obtain r g where h: "handlePublishError (pg_ops E) show_err now e err (px_relay ?px) (view p s) = (r, g)" by fastforce
    then have "s' = (put p g r (AList.delete i (px_flight ?px)) s)
        \<lparr>sy_dead := sy_dead s @ (if pg_status g i = Some StatusFailed then [i] else [])\<rparr>"
      using f Refused step by (simp add: step_finish_def Let_def put_def split: if_splits)
    from ob_inv_finish_refused [OF inv f(1) [unfolded Refused] h this] show ?thesis .
  qed (use f in simp)
qed

lemma ob_inv_step:
  assumes "ob_inv cfg s" and "ob_step W ev s = Some s'"
  shows "ob_inv cfg s'"
  using assms(2)
  by (cases ev)
     (auto intro: ob_inv_write [OF assms(1)] ob_inv_poll [OF assms(1)] ob_inv_publish [OF assms(1)]
        ob_inv_finish [OF assms(1)] ob_inv_heartbeat [OF assms(1)] ob_inv_cleanup [OF assms(1)]
        ob_inv_shutdown [OF assms(1)] ob_inv_crash [OF assms(1)])

lemma ob_inv_run: "ob_inv cfg s \<Longrightarrow> ob_run W evs s = Some s' \<Longrightarrow> ob_inv cfg s'"
  by (induction evs arbitrary: s) (auto split: option.splits dest: ob_inv_step)

lemmas ob_inv_reach = ob_inv_run [OF ob_inv_init]

end
