(* ===== verification/Outbox_Example.thy ===== *)
theory Outbox_Example
  imports Outbox_Delivery
begin

text \<open>
  A concrete run of the outbox, step by step: process 0 writes an entry with one header, claims it,
  publishes it and records the outcome; and the same run in which process 1 finds the claim stale before
  the outcome is recorded and takes the row over.
\<close>


definition demo_W :: wenv where
  "demo_W = \<lparr> we_jsonValid = (\<lambda>v. v = ''1''), 
     we_marshal = (\<lambda>h. if h = [] then Some ''null'' else if h = [(''h'', ''v'')] then Some ''J'' else None), we_jsonb = Some \<rparr>"

definition demo_prm :: write_params where
  "demo_prm = \<lparr> wp_Topic = ''t'', wp_RoutingKey = ''k'', wp_MessageID = ''m'', wp_MessageType = ''y'',
     wp_SchemaVersion = 0, wp_Payload = ''1'', wp_Headers = [(''h'', ''v'')] \<rparr>"

definition demo_writer :: "bool writer" where
  "demo_writer = \<lparr> w_txCheck = Some (\<lambda>c. c), w_sizeLimiter = DefaultMessageSizeLimiter \<rparr>"

definition demo_E :: pg_env where
  "demo_E = \<lparr> pe_now = 2, pe_skip = [], pe_fetch = NoFault, pe_stale = NoFault, pe_beat = NoFault,
     pe_outcome = (\<lambda>_. (NoFault, None, 3)), pe_published = NoFault, pe_failed = NoFault, pe_reset = NoFault, pe_uuid_eq_text = False \<rparr>"

lemma demo_header: "ValidateMessageHeader ''h'' ''v'' = None"
  by (simp add: ValidateMessageHeader_def isMessageHeaderNameByte_def MaxMessageHeaderNameBytes_def
      MaxMessageHeaderValueBytes_def valid_string_ascii)

lemma demo_valid: "validateWriteParams (we_jsonValid demo_W) [''h''] demo_prm = None"
  by (simp add: validateWriteParams_None demo_prm_def demo_W_def portable_ascii MaxRouteNameBytes_def ValidateMessageHeaders_def MaxMessageHeaders_def demo_header)

lemma demo_size: "sl_Check (w_sizeLimiter demo_writer) ''t'' ''k'' (params_message demo_prm) = None"
  by (simp add: sl_Check_def LimitFor_def demo_writer_def normalized_def DefaultMessageSizeLimiter_def DefaultMaxMessageBytes_def EstimateMessageBytes_def params_message_def demo_prm_def)

lemma demo_varchar: "varchar255 ''t''" "varchar255 ''k''" "varchar255 ''m''" "varchar255 ''y''"
  by (simp_all add: varchar255_def runes_ascii)

lemma demo_write: "Write (\<lambda>_ e g. pg_Insert (we_jsonb demo_W) NoFault 1 None e g) (we_jsonValid demo_W) (we_marshal demo_W)
     [''h''] ''a'' 1 demo_writer True demo_prm g = (if row_of (pg_rows g) ''a'' = None then
       (None, g\<lparr>pg_rows := pg_rows g @ [entry_row 1 ''1'' (Some ''J'') (new_entry ''a'' 1 ''J'' demo_prm)]\<rparr>) else (Some ErrStore, g))"
  using demo_valid demo_size demo_varchar
  by (simp add: Write_def demo_writer_def demo_W_def demo_prm_def pg_Insert_def new_entry_def uuid_nil_def zero_time_def stored_headers_def row_accepted_def entry_row_def)

definition demo_relay1 :: relay where
  "demo_relay1 = default_relay\<lparr>rl_pollCount := 9\<rparr>"

definition demo_px :: "relay \<Rightarrow> (string, claim_token) gomap \<Rightarrow> (string, entry \<times> phase) gomap \<Rightarrow> proc" where
  "demo_px r tk fl = \<lparr> px_relay = r, px_routes = [], px_tokens = tk, px_flight = fl \<rparr>"

lemma demo_px_simps [simp]: "px_relay (demo_px r tk fl) = r" "px_routes (demo_px r tk fl) = []"
  "px_tokens (demo_px r tk fl) = tk" "px_flight (demo_px r tk fl) = fl"
  by (simp_all add: demo_px_def)

definition demo_state :: "table \<Rightarrow> nat \<Rightarrow> proc \<Rightarrow> proc \<Rightarrow> row list \<Rightarrow> entry list \<Rightarrow> osys" where
  "demo_state t n a b wr lg = \<lparr> sy_rows = t, sy_uuids = n, sy_procs = (\<lambda>p. if p = 0 then a else if p = 1 then b else demo_px demo_relay1 [] []),
     sy_written = wr, sy_log = lg, sy_errs = [], sy_dead = [] \<rparr>"

definition demo_row :: "ostatus \<Rightarrow> time \<Rightarrow> time option \<Rightarrow> claim_token option \<Rightarrow> row" where
  "demo_row st upd pub tok = \<lparr> r_id = ''a'', r_topic = ''t'', r_routing_key = ''k'', r_message_id = ''m'',
     r_message_type = ''y'', r_schema_version = 0, r_payload = ''1'', r_headers = Some ''J'', r_status = st,
     r_attempts = 0, r_created_at = 1, r_updated_at = upd, r_published_at = pub, r_next_retry_at = None,
     r_last_error = None, r_claim_token = tok \<rparr>"

lemma demo_row_simps [simp]:
  "r_id (demo_row st upd pub tok) = ''a''" "r_status (demo_row st upd pub tok) = st"
  "r_next_retry_at (demo_row st upd pub tok) = None" "r_claim_token (demo_row st upd pub tok) = tok"
  "r_updated_at (demo_row st upd pub tok) = upd" "r_schema_version (demo_row st upd pub tok) = 0"
  "claim_row now gen (demo_row st upd pub tok) = demo_row StatusProcessing now pub (Some (UuidV4 (gen ''a'')))"
  "reset_row now (demo_row st upd pub tok) = demo_row StatusPending now pub None"
  "published_row now at (demo_row st upd pub tok) = demo_row StatusPublished now (Some at) tok"
  "entry_row 1 ''1'' (Some ''J'') (new_entry ''a'' 1 ''J'' demo_prm) = demo_row StatusPending 1 None None"
  by (simp_all add: demo_row_def claim_row_def reset_row_def published_row_def entry_row_def new_entry_def demo_prm_def)

lemma demo_state_simps [simp]:
  "sy_procs (demo_state t n a b wr lg) 0 = a" "sy_procs (demo_state t n a b wr lg) (Suc 0) = b"
  "sy_rows (demo_state t n a b wr lg) = t" "sy_written (demo_state t n a b wr lg) = wr" "sy_log (demo_state t n a b wr lg) = lg"
  "sy_errs (demo_state t n a b wr lg) = []"
  "(demo_state t n a b wr lg)\<lparr>sy_written := wr'\<rparr> = demo_state t n a b wr' lg"
  "(demo_state t n a b wr lg)\<lparr>sy_log := lg', sy_errs := []\<rparr> = demo_state t n a b wr lg'"
  by (simp_all add: demo_state_def)

lemma demo_view [simp]:
  "view 0 (demo_state t n a b wr lg) = \<lparr> pg_routes = px_routes a, pg_tokens = px_tokens a, pg_rows = t, pg_uuids = n \<rparr>"
  "view (Suc 0) (demo_state t n a b wr lg) = \<lparr> pg_routes = px_routes b, pg_tokens = px_tokens b, pg_rows = t, pg_uuids = n \<rparr>"
  by (simp_all add: view_def demo_state_def)

lemma demo_put [simp]:
  "put 0 g r fl (demo_state t n (demo_px r0 tk0 fl0) b wr lg) = demo_state (pg_rows g) (pg_uuids g) (demo_px r (pg_tokens g) fl) b wr lg"
  "put (Suc 0) g r fl (demo_state t n a (demo_px r0 tk0 fl0) wr lg) = demo_state (pg_rows g) (pg_uuids g) a (demo_px r (pg_tokens g) fl) wr lg"
  by (auto simp: put_def demo_state_def demo_px_def fun_eq_iff)

lemma demo_headers: "gm_wf (wp_Headers demo_prm)" "range_order [''h''] (wp_Headers demo_prm)"
  by (simp_all add: demo_prm_def gm_wf_def range_order_def)

lemma demo_step_write: "ob_step demo_W (EvWrite 0 NoFault 1 None [''h''] ''a'' demo_writer True demo_prm) (demo_state [] 0 (demo_px r [] []) b [] [])
   = Some (demo_state [demo_row StatusPending 1 None None] 0 (demo_px r [] []) b [demo_row StatusPending 1 None None] [])"
  by (simp add: step_write_def demo_write Let_def demo_headers)

definition demo_entry :: entry where
  "demo_entry = row_entry (demo_row StatusProcessing 0 None None)"

lemma demo_row_entry: "row_entry (demo_row StatusProcessing n None tok) = demo_entry"
  by (simp add: demo_entry_def row_entry_def demo_row_def)

lemma demo_entry_id: "en_ID (demo_entry) = ''a''"
  by (simp add: demo_entry_def row_entry_def)

lemma demo_claim: "poll_claim (pg_ops demo_E) background default_relay \<lparr> pg_routes = [], pg_tokens = [], pg_rows = [demo_row StatusPending 1 None None], pg_uuids = 0 \<rparr>
   = (Some [demo_entry], default_relay\<lparr>rl_pollCount := 1, rl_claimed := [(''a'', ())]\<rparr>, 
      \<lparr> pg_routes = [], pg_tokens = [(''a'', UuidV4 0)], pg_rows = [demo_row StatusProcessing 2 None (Some (UuidV4 0))], pg_uuids = 1 \<rparr>)"
  by (simp add: poll_claim_def default_relay_def demo_E_def pg_ops_def pg_FetchPending_def claim_batch_def due_def routeSelection_def
   wrap64_def staleRecoveryMultiplier_def signed_modulo_int_def sql_update_def pg_gen_def scanClaimedEntry_def rememberClaim_def trackClaimed_def
   demo_row_entry demo_entry_id)

lemma demo_step_poll: "ob_step demo_W (EvPoll 0 demo_E background) (demo_state [demo_row StatusPending 1 None None] 0 (demo_px default_relay [] []) b wr [])
   = Some (demo_state [demo_row StatusProcessing 2 None (Some (UuidV4 0))] 1
       (demo_px (default_relay\<lparr>rl_pollCount := 1, rl_claimed := [(''a'', ())]\<rparr>) [(''a'', UuidV4 0)] [(''a'', demo_entry, Claimed)]) b wr [])"
  by (simp add: step_poll_def demo_claim demo_entry_id)

lemma demo_step_publish: "ob_step demo_W (EvPublish 0 ''a'' PubOk True) (demo_state t n (demo_px r tk [(''a'', demo_entry, Claimed)]) b wr [])
   = Some (demo_state t n (demo_px r tk [(''a'', demo_entry, Sent)]) b wr [demo_entry])"
  by (simp add: step_publish_def callPublisher_def Let_def)

lemma demo_step_finish: "ob_step demo_W (EvFinish 0 ''a'' demo_E (\<lambda>_. []) 4)
     (demo_state [demo_row StatusProcessing 2 None (Some (UuidV4 0))] 1 (demo_px r [(''a'', UuidV4 0)] [(''a'', demo_entry, Sent)]) b wr lg)
   = Some (demo_state [demo_row StatusPublished 3 (Some 4) (Some (UuidV4 0))] 1 (demo_px (untrackClaimed ''a'' r) [] []) b wr lg)"
  by (simp add: step_finish_def Let_def finishPublish_def demo_entry_id pg_ops_def demo_E_def pg_MarkPublished_def transition_def
      fence_def claimToken_def exec_eq sql_update_def forgetClaim_def settle_def)

lemma demo_init: "ob_init (\<lambda>p. if p = 0 then default_relay else demo_relay1) (\<lambda>_. []) = demo_state [] 0 (demo_px default_relay [] []) (demo_px demo_relay1 [] []) [] []"
  by (auto simp: ob_init_def demo_state_def demo_px_def default_relay_def demo_relay1_def)

lemma demo_claim_stale: "poll_claim (pg_ops (demo_E\<lparr>pe_now := 400000000000\<rparr>)) background demo_relay1 \<lparr> pg_routes = [], pg_tokens = [], pg_rows = [demo_row StatusProcessing 2 None (Some (UuidV4 0))], pg_uuids = 1 \<rparr>
   = (Some [demo_entry], demo_relay1\<lparr>rl_pollCount := 10, rl_claimed := [(''a'', ())]\<rparr>, 
      \<lparr> pg_routes = [], pg_tokens = [(''a'', UuidV4 1)], pg_rows = [demo_row StatusProcessing 400000000000 None (Some (UuidV4 1))], pg_uuids = 2 \<rparr>)"
  by (simp add: poll_claim_def demo_relay1_def default_relay_def demo_E_def pg_ops_def pg_FetchPending_def claim_batch_def due_def routeSelection_def
   wrap64_def staleRecoveryMultiplier_def signed_modulo_int_def sql_update_def pg_gen_def scanClaimedEntry_def rememberClaim_def trackClaimed_def
   demo_row_entry demo_entry_id recoverStale_def pg_ResetStaleProcessing_def run_count_def)

lemma demo_step_takeover: "ob_step demo_W (EvPoll 1 (demo_E\<lparr>pe_now := 400000000000\<rparr>) background)
     (demo_state [demo_row StatusProcessing 2 None (Some (UuidV4 0))] 1 a (demo_px demo_relay1 [] []) wr lg)
   = Some (demo_state [demo_row StatusProcessing 400000000000 None (Some (UuidV4 1))] 2 a
       (demo_px (demo_relay1\<lparr>rl_pollCount := 10, rl_claimed := [(''a'', ())]\<rparr>) [(''a'', UuidV4 1)]
          [(''a'', demo_entry, Claimed)]) wr lg)"
  by (simp add: step_poll_def demo_claim_stale [unfolded One_nat_def] demo_entry_id)

definition demo_cfg :: "nat \<Rightarrow> relay" where
  "demo_cfg p = (if p = 0 then default_relay else demo_relay1)"

definition demo_sent :: "ob_event list" where
  "demo_sent = [EvWrite 0 NoFault 1 None [''h''] ''a'' demo_writer True demo_prm, EvPoll 0 demo_E background,
     EvPublish 0 ''a'' PubOk True]"

definition demo_done :: osys where
  "demo_done = demo_state [demo_row StatusPublished 3 (Some 4) (Some (UuidV4 0))] 1
     (demo_px (untrackClaimed ''a'' (default_relay\<lparr>rl_pollCount := 1, rl_claimed := [(''a'', ())]\<rparr>)) [] [])
     (demo_px demo_relay1 [] []) [demo_row StatusPending 1 None None] [demo_entry]"

definition demo_taken :: osys where
  "demo_taken = demo_state [demo_row StatusProcessing 400000000000 None (Some (UuidV4 1))] 2
     (demo_px (default_relay\<lparr>rl_pollCount := 1, rl_claimed := [(''a'', ())]\<rparr>) [(''a'', UuidV4 0)] [(''a'', demo_entry, Sent)])
     (demo_px (demo_relay1\<lparr>rl_pollCount := 10, rl_claimed := [(''a'', ())]\<rparr>) [(''a'', UuidV4 1)] [(''a'', demo_entry, Claimed)])
     [demo_row StatusPending 1 None None] [demo_entry]"

lemmas demo_steps = demo_init demo_step_write demo_step_poll demo_step_publish demo_step_finish demo_step_takeover

lemma demo_run_done:
  "ob_run demo_W (demo_sent @ [EvFinish 0 ''a'' demo_E (\<lambda>_. []) 4]) (ob_init demo_cfg (\<lambda>_. [])) = Some demo_done"
  by (simp add: demo_sent_def demo_done_def demo_steps [unfolded One_nat_def] demo_cfg_def [abs_def] del: ob_step.simps)

lemma demo_run_taken:
  "ob_run demo_W (demo_sent @ [EvPoll 1 (demo_E\<lparr>pe_now := 400000000000\<rparr>) background]) (ob_init demo_cfg (\<lambda>_. []))
     = Some demo_taken"
  by (simp add: demo_sent_def demo_taken_def demo_steps [unfolded One_nat_def] demo_cfg_def [abs_def] del: ob_step.simps)

end
