(* ===== verification/Outbox_Guarantees.thy ===== *)
theory Outbox_Guarantees
  imports Outbox_Example
begin

text \<open>
  What the transactional outbox guarantees, over every interleaving of writers and relays: no entry is
  lost and none is marked published that no publisher accepted, a claim belongs to one process and
  fences off the others, and what reaches the broker is what was written.
\<close>

section \<open>No loss\<close>

lemma written_content:
  assumes "ob_inv cfg s" and "w \<in> set (sy_written s)" and "wrote s (r_id w) c"
  shows "c = rcontent w"
proof -
  obtain v where "v \<in> set (sy_written s)" "r_id v = r_id w" "rcontent v = c"
    using assms(3) by (auto simp: wrote_def)
  moreover have "inj_on r_id (set (sy_written s))" using assms(1) by (simp add: ob_inv_def distinct_map)
  ultimately show ?thesis using assms(2) by (metis inj_onD)
qed

text \<open>
  Property C5.  In every run of writers and relay processes, with lost statements, crashes, shutdowns and stale
  recovery, an entry that was written is still in the table with its message unchanged, or was removed
  after it was delivered or had failed; a row marked published was accepted by the publisher before; a
  row marked failed was refused at least as often as a relay's limit of attempts; and the publisher
  received only messages that were written.
\<close>

theorem outbox_no_loss:
  assumes "ob_run W evs (ob_init cfg rts) = Some s"
  shows "(\<forall>w \<in> set (sy_written s).
      case row_of (sy_rows s) (r_id w) of
        Some r \<Rightarrow> rcontent r = rcontent w
          \<and> (r_status r = StatusPublished \<longrightarrow> delivered s (r_id w) (rcontent w))
          \<and> (r_status r = StatusFailed \<longrightarrow> (\<exists>p. rl_maxAttempts (cfg p) \<le> errs s (r_id w)))
      | None \<Rightarrow> delivered s (r_id w) (rcontent w) \<or> (\<exists>p. rl_maxAttempts (cfg p) \<le> errs s (r_id w)))
    \<and> (\<forall>e \<in> set (sy_log s). wrote s (en_ID e) (econtent e))"
proof -
  have inv: "ob_inv cfg s" using assms by (rule ob_inv_reach)
  have dead: "\<exists>p. rl_maxAttempts (cfg p) \<le> errs s i" if "i \<in> set (sy_dead s)" for i
    using inv that by (simp add: ob_inv_def)
  have "case row_of (sy_rows s) (r_id w) of
        Some r \<Rightarrow> rcontent r = rcontent w
          \<and> (r_status r = StatusPublished \<longrightarrow> delivered s (r_id w) (rcontent w))
          \<and> (r_status r = StatusFailed \<longrightarrow> (\<exists>p. rl_maxAttempts (cfg p) \<le> errs s (r_id w)))
      | None \<Rightarrow> delivered s (r_id w) (rcontent w) \<or> (\<exists>p. rl_maxAttempts (cfg p) \<le> errs s (r_id w))"
    if w: "w \<in> set (sy_written s)" for w
  proof (cases "row_of (sy_rows s) (r_id w)")
    case None
    then show ?thesis using inv w dead by (auto simp: ob_inv_def)
  next
    case (Some r)
    then have r: "row_inv s r" "r_id r = r_id w"
      using ob_inv_row [OF inv] row_of_SomeD by auto
    then have "rcontent r = rcontent w"
      by (intro written_content [OF inv w]) (simp add: row_inv_def)
    then show ?thesis using Some r dead by (auto simp: row_inv_def)
  qed
  then show ?thesis using inv by (simp add: ob_inv_def)
qed

theorem outbox_no_loss_witness:
  "\<exists>s. ob_run demo_W (demo_sent @ [EvFinish 0 ''a'' demo_E (\<lambda>_. []) 4]) (ob_init demo_cfg (\<lambda>_. [])) = Some s
     \<and> map r_status (sy_rows s) = [StatusPublished]
     \<and> delivered s ''a'' (rcontent (demo_row StatusPending 1 None None))"
  using outbox_no_loss [OF demo_run_done] demo_run_done by (simp add: demo_done_def)

section \<open>Fencing\<close>

text \<open>The events by which a process acts on claims it believes to hold.\<close>

fun claim_event :: "nat \<Rightarrow> ob_event \<Rightarrow> bool" where
  "claim_event p (EvFinish q i E show_err now) = (q = p)"
| "claim_event p (EvHeartbeat q E) = (q = p)"
| "claim_event p (EvShutdown q E ks) = (q = p)"
| "claim_event p _ = False"

lemma settle_rows: "snd (settle i res r) = snd res"
  by (cases res) (simp add: settle_def split: option.split)

lemma transition_other:
  assumes "transition flt look bad upd j g = (res, g')" and "pg_inv g"
    and "\<And>r. r_id (upd r) = r_id r" and "\<not> pg_owned g i"
  shows "row_of (pg_rows g') i = row_of (pg_rows g) i"
  using assms(1) pg_inv_wf [OF assms(2)] assms(3)
proof (cases rule: transition_cases)
  case (applied r)
  then have "i \<noteq> j" using assms(4) by (auto simp: pg_owned_def)
  then show ?thesis using applied(4) by simp
next
  case unchanged
  then show ?thesis by simp
qed

lemma finish_other:
  assumes inv: "pg_inv g" and own: "\<not> pg_owned g i"
  shows "row_of (pg_rows (snd (finishPublish (pg_ops E) now e r g))) i = row_of (pg_rows g) i"
    and "row_of (pg_rows (snd (handlePublishError (pg_ops E) show_err now e err r g))) i = row_of (pg_rows g) i"
proof -
  obtain flt look now' where E: "pe_outcome E (en_ID e) = (flt, look, now')" by (metis prod_cases3)
  note t = transition_other [OF prod.collapse [symmetric] inv _ own]
  show "row_of (pg_rows (snd (finishPublish (pg_ops E) now e r g))) i = row_of (pg_rows g) i"
    using E by (simp add: finishPublish_def settle_rows pg_ops_def pg_MarkPublished_def t)
  show "row_of (pg_rows (snd (handlePublishError (pg_ops E) show_err now e err r g))) i = row_of (pg_rows g) i"
    using E by (simp add: handlePublishError_def Let_def settle_rows pg_ops_def pg_MarkFailed_def
        pg_IncrementAttempts_def t)
qed

lemma update_pairs_other:
  assumes inv: "pg_inv g" and own: "\<not> pg_owned g i" and "\<And>r. r_id (f r) = r_id r"
  shows "row_of (snd (sql_update (matches_pair (owned_pairs g ids)) f (pg_rows g))) i = row_of (pg_rows g) i"
proof (cases "row_of (pg_rows g) i")
  case (Some r)
  then have "\<not> matches_pair (owned_pairs g ids) r"
    using own row_of_SomeD [OF Some] by (auto simp: matches_owned_pairs pg_owned_iff [OF inv])
  then show ?thesis using Some by (simp add: row_of_sql_update assms(3))
qed (simp add: row_of_sql_update assms(3))

lemma heartbeat_other:
  assumes "pg_inv g" and "\<not> pg_owned g i"
  shows "row_of (pg_rows (heartbeat_tick (pg_ops E) ids g)) i = row_of (pg_rows g) i"
proof -
  obtain x g' where h: "pg_Heartbeat (pe_beat E) (pe_now E) ids g = (x, g')" by fastforce
  have "row_of (pg_rows g') i = row_of (pg_rows g) i"
    using heartbeat_rows [OF h] update_pairs_other [OF assms, of "\<lambda>r. r\<lparr>r_updated_at := pe_now E\<rparr>"] by auto
  then show ?thesis using h by (simp add: heartbeat_tick_def pg_ops_def)
qed

lemma shutdown_other:
  assumes "pg_inv g" and "\<not> pg_owned g i"
  shows "row_of (pg_rows (snd (resetClaimedOnShutdown (pg_ops E) ks r g))) i = row_of (pg_rows g) i"
proof -
  let ?ids = "claimedIDs ks r"
  obtain res g' where rp: "pg_ResetPending (pe_uuid_eq_text E) (pe_reset E) (pe_now E) ?ids g = (res, g')" by fastforce
  have "row_of (pg_rows g') i = row_of (pg_rows g) i"
    using reset_pending_rows [OF rp] update_pairs_other [OF assms, of "reset_row (pe_now E)"] by auto
  then show ?thesis using rp by (simp add: resetClaimedOnShutdown_def pg_ops_def Let_def split: option.split)
qed

lemma step_finish_other:
  assumes "pg_inv (view p s)" and "\<not> pg_owned (view p s) i" and "step_finish p j E show_err now s = Some s'"
  shows "row_of (sy_rows s') i = row_of (sy_rows s) i"
proof -
  obtain e ph where f: "map_of (px_flight (sy_procs s p)) j = Some (e, ph)" "ph \<noteq> Claimed"
    using assms(3) by (auto simp: step_finish_def Let_def split: option.splits phase.splits)
  show ?thesis
  proof (cases ph)
    case Sent
    then have "sy_rows s' = pg_rows (snd (finishPublish (pg_ops E) now e (px_relay (sy_procs s p)) (view p s)))"
      using assms(3) f(1) by (auto simp: step_finish_def Let_def split: prod.splits)
    then show ?thesis using finish_other(1) [OF assms(1,2)] by simp
  next
    case (Refused err)
    then have "sy_rows s' = pg_rows (snd (handlePublishError (pg_ops E) show_err now e err (px_relay (sy_procs s p)) (view p s)))"
      using assms(3) f(1) by (auto simp: step_finish_def Let_def split: prod.splits if_splits)
    then show ?thesis using finish_other(2) [OF assms(1,2)] by simp
  qed (use f in simp)
qed

lemma step_heartbeat_other:
  assumes "pg_inv (view p s)" and "\<not> pg_owned (view p s) i" and "step_heartbeat p E s = Some s'"
  shows "row_of (sy_rows s') i = row_of (sy_rows s) i"
  using heartbeat_other [OF assms(1,2)] assms(3) by (auto simp: step_heartbeat_def Let_def)

lemma step_shutdown_other:
  assumes "pg_inv (view p s)" and "\<not> pg_owned (view p s) i" and "step_shutdown p E ks s = Some s'"
  shows "row_of (sy_rows s') i = row_of (sy_rows s) i"
proof -
  have "sy_rows s' = pg_rows (snd (resetClaimedOnShutdown (pg_ops E) ks (px_relay (sy_procs s p)) (view p s)))"
    using assms(3) by (auto simp: step_shutdown_def Let_def split: prod.splits if_splits)
  then show ?thesis using shutdown_other [OF assms(1,2)] by simp
qed

text \<open>
  Property C6.  In every run at most one process owns the current claim on a row, and a process that does not own
  it changes nothing in the row when it records an outcome, sends a heartbeat or shuts down: a relay
  whose claim was reset and taken over by another cannot resurrect, publish, fail or retry the row.
\<close>

theorem outbox_fencing:
  assumes "ob_run W evs (ob_init cfg rts) = Some s"
  shows "(owns p i s \<and> owns q i s \<longrightarrow> p = q)
    \<and> (claim_event p ev \<and> ob_step W ev s = Some s' \<and> \<not> owns p i s
        \<longrightarrow> row_of (sy_rows s') i = row_of (sy_rows s) i)"
proof -
  have inv: "ob_inv cfg s" using assms by (rule ob_inv_reach)
  have "row_of (sy_rows s') i = row_of (sy_rows s) i"
    if ev: "claim_event p ev" "ob_step W ev s = Some s'" and own: "\<not> owns p i s"
  proof -
    have "\<not> pg_owned (view p s) i" using own by (simp add: owns_def)
    note other = ob_inv_pg [OF inv, of p] this
    show ?thesis
      using ev
      by (cases ev) (auto dest: step_finish_other [OF other] step_heartbeat_other [OF other]
          step_shutdown_other [OF other])
  qed
  then show ?thesis using owns_unique [OF ob_inv_tok [OF inv]] by blast
qed

theorem outbox_fencing_witness:
  "\<exists>s s'. ob_run demo_W (demo_sent @ [EvPoll 1 (demo_E\<lparr>pe_now := 400000000000\<rparr>) background]) (ob_init demo_cfg (\<lambda>_. [])) = Some s
     \<and> \<not> owns 0 ''a'' s \<and> owns 1 ''a'' s
     \<and> ob_step demo_W (EvFinish 0 ''a'' demo_E (\<lambda>_. []) 4) s = Some s'
     \<and> row_of (sy_rows s') ''a'' = row_of (sy_rows s) ''a''"
proof -
  have own: "\<not> owns 0 ''a'' demo_taken" "owns 1 ''a'' demo_taken"
    by (simp_all add: owns_def pg_owned_def demo_taken_def claimToken_def fence_def)
  have "ob_step demo_W (EvFinish 0 ''a'' demo_E (\<lambda>_. []) 4) demo_taken \<noteq> None"
    by (simp add: demo_taken_def step_finish_def Let_def split: prod.split)
  then obtain s' where s': "ob_step demo_W (EvFinish 0 ''a'' demo_E (\<lambda>_. []) 4) demo_taken = Some s'" by blast
  have "row_of (sy_rows s') ''a'' = row_of (sy_rows demo_taken) ''a''"
    using outbox_fencing [OF demo_run_taken, of 0 "''a''" 1 "EvFinish 0 ''a'' demo_E (\<lambda>_. []) 4" s'] s' own
    by simp
  then show ?thesis using demo_run_taken own s' by blast
qed

section \<open>From the writer to the broker\<close>

text \<open>Every row of the history was put there by a write event that passed validation.\<close>

definition write_event :: "wenv \<Rightarrow> ob_event \<Rightarrow> row \<Rightarrow> write_params \<Rightarrow> bool" where
  "write_event W ev r prm \<longleftrightarrow>
     (\<exists>p flt now cerr ks newID w ctx. ev = EvWrite p flt now cerr ks newID w ctx prm
        \<and> written_row W newID now prm r \<and> validateWriteParams (we_jsonValid W) ks prm = None
        \<and> gm_wf (wp_Headers prm) \<and> range_order ks (wp_Headers prm))"

lemma step_written:
  assumes "ob_inv cfg s" and "ob_step W ev s = Some s'" and "r \<in> set (sy_written s')"
  shows "r \<in> set (sy_written s) \<or> (\<exists>prm. write_event W ev r prm)"
proof (cases ev)
  case (EvWrite p flt now cerr ks newID w ctx prm)
  then have "step_write W p flt now cerr ks newID w ctx prm s = Some s'" using assms(2) by simp
  from step_write_cases [OF assms(1) this] show ?thesis
    using assms(3) EvWrite by (auto simp: write_event_def)
next
  case EvPublish
  then show ?thesis
    using assms(2,3) by (auto simp: step_publish_def Let_def split: option.splits prod.splits phase.splits if_splits)
next
  case EvFinish
  then show ?thesis
    using assms(2,3) by (auto simp: step_finish_def Let_def split: option.splits prod.splits phase.splits if_splits)
qed (use assms(2,3) in \<open>auto simp: step_poll_def step_heartbeat_def step_cleanup_def step_shutdown_def step_crash_def
       Let_def split: option.splits prod.splits if_splits\<close>)

lemma run_written:
  assumes "ob_inv cfg s" and "ob_run W evs s = Some s'" and "r \<in> set (sy_written s')"
  shows "r \<in> set (sy_written s) \<or> (\<exists>ev \<in> set evs. \<exists>prm. write_event W ev r prm)"
  using assms
proof (induction evs arbitrary: s)
  case Nil
  then show ?case by simp
next
  case (Cons ev evs)
  then obtain s1 where s1: "ob_step W ev s = Some s1" "ob_run W evs s1 = Some s'"
    by (auto split: option.splits)
  from Cons.IH [OF ob_inv_step [OF Cons.prems(1) s1(1)] s1(2) Cons.prems(3)] show ?case
    using step_written [OF Cons.prems(1) s1(1)] by auto
qed

lemma same_map:
  assumes "gm_wf h" and "gm_wf h'" and "map_of h' = map_of h"
  shows "set h' = set h" and "length h' = length h"
proof -
  show "set h' = set h" using assms by (metis gm_wf_def map_of_inject_set)
  then show "length h' = length h" using assms(1,2) by (metis distinct_card distinct_map gm_wf_def)
qed

text \<open>
  What the code relies on of JSON and of \<^verbatim>\<open>JSONB\<close>, for headers maps whose names and values are valid UTF-8 (\<^verbatim>\<open>json.Marshal\<close>
  replaces other bytes): such a map marshals to \<^verbatim>\<open>null\<close> only if it is
  empty, and the stored form of any other marshalled map is non-empty and unmarshals to the same map.
\<close>

definition utf8_headers :: "headers \<Rightarrow> bool" where
  "utf8_headers h \<longleftrightarrow> list_all (\<lambda>(k, v). valid_string k \<and> valid_string v) h"

definition headers_codec :: "wenv \<Rightarrow> (string \<Rightarrow> headers option) \<Rightarrow> bool" where
  "headers_codec W unmarshal \<longleftrightarrow>
     (\<forall>h hj. we_marshal W h = Some hj \<longrightarrow> gm_wf h \<longrightarrow> utf8_headers h \<longrightarrow>
        (if hj = [] \<or> hj = ''null'' then h = []
         else \<forall>js. we_jsonb W hj = Some js \<longrightarrow>
           js \<noteq> [] \<and> (\<exists>h'. unmarshal js = Some h' \<and> gm_wf h' \<and> map_of h' = map_of h)))"

text \<open>The headers that pass validation are of this kind: names are ASCII tokens, values are checked.\<close>

lemma header_name_ascii: "isMessageHeaderNameByte c \<Longrightarrow> (of_char c :: nat) < 0x80"
  by (auto simp: isMessageHeaderNameByte_def Let_def)

lemma ValidateMessageHeader_utf8:
  "ValidateMessageHeader k v = None \<Longrightarrow> valid_string k \<and> valid_string v"
  by (auto simp: ValidateMessageHeader_def list_all_iff header_name_ascii intro!: valid_string_ascii split: if_splits)

lemma written_HeadersMap:
  assumes "headers_codec W unmarshal" and "written_row W newID now prm r"
    and wf: "gm_wf (wp_Headers prm)" "range_order ks (wp_Headers prm)"
    and ok: "ValidateMessageHeaders ks (wp_Headers prm) = None"
  shows "\<exists>h. map_of h = map_of (wp_Headers prm)
    \<and> (\<forall>ks'. range_order ks' h \<longrightarrow> HeadersMap unmarshal ks' (row_entry r) = Inr h)"
proof -
  let ?h = "wp_Headers prm"
  obtain hj pl hs where r: "we_marshal W ?h = Some hj" "stored_headers (we_jsonb W) (new_entry newID now hj prm) = Some hs"
    "r = entry_row now pl hs (new_entry newID now hj prm)"
    using assms(2) by (auto simp: written_row_def)
  have utf8: "utf8_headers ?h"
    using ok ValidateMessageHeaders_None [OF wf(2,1)] ValidateMessageHeader_utf8
    by (auto simp: utf8_headers_def list_all_iff)
  have codec: "if hj = [] \<or> hj = ''null'' then ?h = []
         else \<forall>js. we_jsonb W hj = Some js \<longrightarrow>
           js \<noteq> [] \<and> (\<exists>h'. unmarshal js = Some h' \<and> gm_wf h' \<and> map_of h' = map_of ?h)"
    using assms(1) r(1) wf(1) utf8 unfolding headers_codec_def by blast
  have en: "en_Headers (row_entry r) = (case hs of None \<Rightarrow> [] | Some js \<Rightarrow> js)"
    using r(3) by (simp add: row_entry_def entry_row_def)
  show ?thesis
  proof (cases "hj = [] \<or> hj = ''null''")
    case True
    then have "hs = None" "?h = []"
      using r(2) codec by (auto simp: stored_headers_def new_entry_def split: if_splits)
    then show ?thesis using en by (intro exI [of _ "[]"]) (simp add: HeadersMap_def)
  next
    case False
    then obtain js where js: "we_jsonb W hj = Some js" "hs = Some js"
      using r(2) by (auto simp: stored_headers_def new_entry_def split: if_splits)
    then obtain h' where h': "js \<noteq> []" "unmarshal js = Some h'" "gm_wf h'" "map_of h' = map_of ?h"
      using codec False by auto
    have "ValidateMessageHeaders ks' h' = None" if "range_order ks' h'" for ks'
      using ok ValidateMessageHeaders_None [OF wf(2,1)] ValidateMessageHeaders_None [OF that h'(3)]
        same_map [OF wf(1) h'(3,4)] by (simp add: list_all_iff)
    then show ?thesis using en js h' by (intro exI [of _ h']) (simp add: HeadersMap_def)
  qed
qed

text \<open>
  Property C14.  Every entry a publisher accepted stems from one call of Write, and the adapter to message brokers
  hands its broker exactly that call's exchange, routing key, message id, type and schema version, the
  stored form of its payload and its headers.  Of JSON the round trip of headers that are valid UTF-8 is used; \<^verbatim>\<open>Write\<close>
  accepts no others.
\<close>

theorem outbox_message_roundtrip:
  assumes "ob_run W evs (ob_init cfg rts) = Some s" and "headers_codec W unmarshal" and "e \<in> set (sy_log s)"
  shows "\<exists>ev \<in> set evs. \<exists>r prm h pl. write_event W ev r prm \<and> r_id r = en_ID e
    \<and> map_of h = map_of (wp_Headers prm) \<and> we_jsonb W (wp_Payload prm) = Some pl
    \<and> (\<forall>ks. range_order ks h \<longrightarrow> mp_Publish publish unmarshal ks e w =
         (case publish (wp_Topic prm) (wp_RoutingKey prm)
            \<lparr> msg_ID = wp_MessageID prm, msg_Type = wp_MessageType prm, msg_Payload = Some pl,
              msg_Timestamp = zero_time, msg_SchemaVersion = wp_SchemaVersion prm, msg_Headers = h \<rparr> w of
            (Some err, w') \<Rightarrow> (Some (ErrDelegate err), w') | (None, w') \<Rightarrow> (None, w')))"
proof -
  have inv: "ob_inv cfg s" using assms(1) by (rule ob_inv_reach)
  then obtain r where r: "r \<in> set (sy_written s)" "r_id r = en_ID e" "rcontent r = econtent e"
    using assms(3) by (auto simp: ob_inv_def wrote_def)
  obtain ev prm where ev: "ev \<in> set evs" "write_event W ev r prm"
    using run_written [OF ob_inv_init assms(1) r(1)] by (auto simp: ob_init_def)
  then obtain ks newID now where w: "written_row W newID now prm r" "gm_wf (wp_Headers prm)"
    "range_order ks (wp_Headers prm)" "validateWriteParams (we_jsonValid W) ks prm = None"
    by (auto simp: write_event_def)
  obtain h where h: "map_of h = map_of (wp_Headers prm)"
    "\<And>ks'. range_order ks' h \<Longrightarrow> HeadersMap unmarshal ks' (row_entry r) = Inr h"
    using written_HeadersMap [OF assms(2) w(1-3)] w(4) by (auto simp: validateWriteParams_None)
  obtain pl where pl: "we_jsonb W (wp_Payload prm) = Some pl"
    and f: "r_topic r = wp_Topic prm" "r_routing_key r = wp_RoutingKey prm" "r_message_id r = wp_MessageID prm"
      "r_message_type r = wp_MessageType prm" "r_schema_version r = uint (wp_SchemaVersion prm)" "r_payload r = pl"
    using w(1) by (auto simp: written_row_def entry_row_def new_entry_def)
  have e: "en_Topic e = wp_Topic prm" "en_RoutingKey e = wp_RoutingKey prm" "en_MessageID e = wp_MessageID prm"
    "en_MessageType e = wp_MessageType prm" "en_SchemaVersion e = wp_SchemaVersion prm" "en_Payload e = pl"
    "en_Headers e = en_Headers (row_entry r)"
    using r(3) f by (simp_all add: rcontent_def econtent_def row_entry_def)
  have "HeadersMap unmarshal ks' e = HeadersMap unmarshal ks' (row_entry r)" for ks'
    by (simp add: HeadersMap_def e(7))
  then have "mp_Publish publish unmarshal ks' e w =
         (case publish (wp_Topic prm) (wp_RoutingKey prm)
            \<lparr> msg_ID = wp_MessageID prm, msg_Type = wp_MessageType prm, msg_Payload = Some pl,
              msg_Timestamp = zero_time, msg_SchemaVersion = wp_SchemaVersion prm, msg_Headers = h \<rparr> w of
            (Some err, w') \<Rightarrow> (Some (ErrDelegate err), w') | (None, w') \<Rightarrow> (None, w'))"
    if "range_order ks' h" for ks'
    using h(2) [OF that] e by (simp add: mp_Publish_def entry_message_def)
  then show ?thesis using ev r(2) h(1) pl by blast
qed

definition demo_unmarshal :: "string \<Rightarrow> headers option" where
  "demo_unmarshal js = (if js = ''J'' then Some [(''h'', ''v'')] else None)"

theorem outbox_message_roundtrip_witness:
  "\<exists>h. map_of h = [''h'' \<mapsto> ''v'']
     \<and> mp_Publish (\<lambda>x k m w. (None, w @ [(x, k, m)])) demo_unmarshal [''h''] demo_entry []
       = (None, [(''t'', ''k'', \<lparr> msg_ID = ''m'', msg_Type = ''y'', msg_Payload = Some ''1'',
                    msg_Timestamp = zero_time, msg_SchemaVersion = 0, msg_Headers = h \<rparr>)])"
proof -
  have "headers_codec demo_W demo_unmarshal"
    by (auto simp: headers_codec_def demo_W_def demo_unmarshal_def gm_wf_def split: if_splits)
  moreover have "demo_entry \<in> set (sy_log demo_done)" by (simp add: demo_done_def)
  ultimately obtain ev r prm h pl where
    ev: "ev \<in> set (demo_sent @ [EvFinish 0 ''a'' demo_E (\<lambda>_. []) 4])" "write_event demo_W ev r prm"
    and h: "map_of h = map_of (wp_Headers prm)" "we_jsonb demo_W (wp_Payload prm) = Some pl"
    and pub: "\<forall>ks. range_order ks h \<longrightarrow>
       mp_Publish (\<lambda>x k m w. (None, w @ [(x, k, m)])) demo_unmarshal ks demo_entry [] =
         (None, [(wp_Topic prm, wp_RoutingKey prm,
            \<lparr> msg_ID = wp_MessageID prm, msg_Type = wp_MessageType prm, msg_Payload = Some pl,
              msg_Timestamp = zero_time, msg_SchemaVersion = wp_SchemaVersion prm, msg_Headers = h \<rparr>)])"
    using outbox_message_roundtrip [OF demo_run_done, of demo_unmarshal demo_entry
        "\<lambda>x k m w. (None, w @ [(x, k, m)])" "[]"]
    unfolding prod.case option.case append_Nil by blast
  have prm: "prm = demo_prm" using ev by (auto simp: demo_sent_def write_event_def)
  have "fst ` set h = {''h''}"
    using h(1) prm dom_map_of_conv_image_fst [of h] by (simp add: demo_prm_def)
  then show ?thesis
    using pub [rule_format, of "[''h'']"] h prm
    by (intro exI [of _ h]) (simp add: range_order_def demo_prm_def demo_W_def)
qed

section \<open>Routing\<close>

text \<open>
  Property C36.  Whatever the order of the routing table, the multiplexer hands an entry to the publisher registered
  for the longest prefix of its topic, to the fallback when no registered prefix matches, and reports an
  unroutable topic when there is no fallback either; an error names the route it came from.
\<close>

theorem multiplex_longest_prefix:
  assumes "mx_wf m" and "range_order ks (mx_routes m)"
  shows "(map_of (mx_routes m) b = Some p \<and> prefix b (en_Topic e)
       \<and> (\<forall>k p'. map_of (mx_routes m) k = Some p' \<longrightarrow> prefix k (en_Topic e) \<longrightarrow> length k \<le> length b)
      \<longrightarrow> mx_Publish pub ks m e w =
        (case pub p e w of (Some err, w') \<Rightarrow> (Some (ErrViaRoute b err), w') | (None, w') \<Rightarrow> (None, w')))
    \<and> ((\<forall>k p. map_of (mx_routes m) k = Some p \<longrightarrow> \<not> prefix k (en_Topic e))
      \<longrightarrow> mx_Publish pub ks m e w =
        (case mx_fallback m of
           None \<Rightarrow> (Some (ErrNoRoute (en_Topic e)), w)
         | Some p \<Rightarrow> (case pub p e w of (Some err, w') \<Rightarrow> (Some (ErrViaFallback err), w') | (None, w') \<Rightarrow> (None, w'))))"
proof (intro conjI impI)
  assume "map_of (mx_routes m) b = Some p \<and> prefix b (en_Topic e)
       \<and> (\<forall>k p'. map_of (mx_routes m) k = Some p' \<longrightarrow> prefix k (en_Topic e) \<longrightarrow> length k \<le> length b)"
  then have "mx_route ks m (en_Topic e) = (Some p, b) \<and> b \<noteq> []"
    unfolding mx_route_longest [OF assms] by blast
  then show "mx_Publish pub ks m e w =
        (case pub p e w of (Some err, w') \<Rightarrow> (Some (ErrViaRoute b err), w') | (None, w') \<Rightarrow> (None, w'))"
    by (simp add: mx_Publish_def split: prod.split option.split)
next
  assume "\<forall>k p. map_of (mx_routes m) k = Some p \<longrightarrow> \<not> prefix k (en_Topic e)"
  then have "mx_route ks m (en_Topic e) = (mx_fallback m, [])"
    by (rule mx_route_fallback [OF assms])
  then show "mx_Publish pub ks m e w =
        (case mx_fallback m of
           None \<Rightarrow> (Some (ErrNoRoute (en_Topic e)), w)
         | Some p \<Rightarrow> (case pub p e w of (Some err, w') \<Rightarrow> (Some (ErrViaFallback err), w') | (None, w') \<Rightarrow> (None, w')))"
    by (simp add: mx_Publish_def split: prod.split option.split)
qed

definition demo_mx :: "nat multiplex" where
  "demo_mx = \<lparr> mx_routes = [(''o'', 1), (''or'', 2), (''x'', 3)], mx_fallback = None \<rparr>"

theorem multiplex_longest_prefix_witness:
  "Register ''x'' (Some 3) demo_mx = Some demo_mx
   \<and> mx_Publish (\<lambda>p e w. (None, w @ [p])) [''or'', ''x'', ''o''] demo_mx (demo_entry\<lparr>en_Topic := ''ord''\<rparr>) [] = (None, [2])
   \<and> mx_Publish (\<lambda>p e w. (None, w @ [p])) [''o'', ''x'', ''or''] demo_mx (demo_entry\<lparr>en_Topic := ''q''\<rparr>) []
       = (Some (ErrNoRoute ''q''), [])"
proof -
  have wf: "mx_wf demo_mx" by (simp add: mx_wf_def demo_mx_def gm_wf_def)
  have ro: "range_order [''or'', ''x'', ''o''] (mx_routes demo_mx)" "range_order [''o'', ''x'', ''or''] (mx_routes demo_mx)"
    by (auto simp: range_order_def demo_mx_def)
  show ?thesis
    using multiplex_longest_prefix [OF wf ro(1), of "''or''" 2 "demo_entry\<lparr>en_Topic := ''ord''\<rparr>"
        "\<lambda>p e w. (None, w @ [p])" "[]"]
      multiplex_longest_prefix [OF wf ro(2), of "''or''" 2 "demo_entry\<lparr>en_Topic := ''q''\<rparr>"
        "\<lambda>p e w. (None, w @ [p])" "[]"]
    by (simp add: demo_mx_def Register_def)
qed

section \<open>Giving claims back\<close>

text \<open>
  Property C38.  While PostgreSQL offers no comparison of a \<^verbatim>\<open>UUID\<close> with a text value, ResetPending fails whenever the
  process holds a claim among the ids: no row is given back, and the process has forgotten its tokens, so
  that the rows stay in processing, owned by nobody, until stale recovery finds them.
\<close>

theorem reset_pending_strands_claims:
  assumes "pg_inv g" and "pg_owned g i" and "i \<in> set ids"
  shows "\<exists>g'. pg_ResetPending False flt now ids g = (Some ErrStore, g') \<and> pg_rows g' = pg_rows g
    \<and> pg_status g' i = Some StatusProcessing \<and> (\<forall>j \<in> set ids. \<not> pg_owned g' j)"
proof -
  obtain res g' where rp: "pg_ResetPending False flt now ids g = (res, g')" by fastforce
  obtain r tok where r: "row_of (pg_rows g) i = Some r" "claimToken g i = Some tok" "r_status r = StatusProcessing"
    using assms(2) by (auto simp: pg_owned_iff [OF assms(1)])
  then have "owned_pairs g ids \<noteq> []" using owned_pairs_mem [of i tok g ids] assms(3) by auto
  then have "res = Some ErrStore"
    using rp assms(3) by (auto simp: pg_ResetPending_def Let_def split: if_splits)
  moreover have rows: "pg_rows g' = pg_rows g" using reset_pending_rows [OF rp] by simp
  moreover have "pg_inv g'" using reset_law_pg [OF assms(1) rp] by blast
  then have "\<not> pg_owned g' j" if "j \<in> set ids" for j
    using reset_pending_tokens [OF rp, of j] that by (simp add: pg_owned_iff)
  ultimately show ?thesis using rp r by (simp add: pg_status_def)
qed

theorem reset_pending_strands_claims_witness:
  "\<exists>g'. pg_ResetPending False NoFault 5 [''a''] (view 1 demo_taken) = (Some ErrStore, g')
     \<and> pg_status g' ''a'' = Some StatusProcessing \<and> \<not> pg_owned g' ''a''"
proof -
  have "pg_inv (view 1 demo_taken)" by (rule ob_inv_pg [OF ob_inv_reach [OF demo_run_taken]])
  moreover have "pg_owned (view 1 demo_taken) ''a''"
    by (simp add: pg_owned_def demo_taken_def claimToken_def fence_def)
  ultimately show ?thesis
    using reset_pending_strands_claims [of "view 1 demo_taken" "''a''" "[''a'']" NoFault 5] by auto
qed

end
