(* ===== verification/Inbox.thy ===== *)
theory Inbox
  imports Outbox_Store
begin

text \<open>
  The transactional inbox, \<^verbatim>\<open>infra/outbox/postgres/inbox.go\<close> and \<^verbatim>\<open>infra/inbox/postgres\<close>.

  The table \<^verbatim>\<open>inbox_entries\<close> is an association list from consumer and message id to the time of receipt.
  A handler is a function of what its transaction sees; it ends with success, an error or a panic and
  leaves the work it did in the transaction, a value of type \<open>'f\<close>.  The database keeps the work of the
  committed transactions, one element per run of a handler.  A transaction is what it adds.  Whether
  \<^verbatim>\<open>BeginTx\<close> and the claim succeed, the fate of the commit (lost before or after it took effect) and the
  server's clock are arguments.  A transaction carried by the context is the argument \<open>joined\<close>.
  Metrics, options and the health check are left out.
\<close>

section \<open>State\<close>

type_synonym ikey = "string \<times> string"

record 'f ibdb =
  ib_receipts :: "(ikey, time) gomap"
  ib_work :: "(ikey \<times> 'f) list"

record 'f ibtx =
  tx_receipts :: "(ikey, time) gomap"
  tx_work :: "(ikey \<times> 'f) list"

definition begin_tx :: "'f ibtx" where
  "begin_tx = \<lparr> tx_receipts = [], tx_work = [] \<rparr>"

datatype 'e hresult = HandlerOk | HandlerErr 'e | HandlerPanic

type_synonym ('e, 'f) handler = "'f ibdb \<Rightarrow> 'f ibtx \<Rightarrow> 'e hresult \<times> 'f"

datatype 'e ib_error =
    IbHandlerNil
  | ErrInvalidConsumer part_error
  | IbInvalidMessage part_error
  | IbNilContext
  | IbContext ctx_error
  | IbBegin
  | IbClaim
  | IbCommit
  | IbHandler 'e
  | IbPanic
  | ErrNoTx
  | IbExec

record ib_env =
  ie_begin :: bool
  ie_claim :: bool
  ie_now :: time
  ie_commit :: fault

section \<open>Validation\<close>

definition maxConsumerNameBytes :: nat where
  "maxConsumerNameBytes = 128"

definition maxMessageIDBytes :: nat where
  "maxMessageIDBytes = 255"

definition validateToken :: "string \<Rightarrow> nat \<Rightarrow> part_error option" where
  "validateToken v n =
     (if v = [] then Some PartEmpty
      else if length v > n then Some PartTooLong
      else case runes v of
        None \<Rightarrow> Some PartNotUTF8
      | Some rs \<Rightarrow> if list_ex (\<lambda>r. is_control r \<or> is_space r) rs then Some PartControlOrSpace else None)"

definition ib_validate :: "string \<Rightarrow> string \<Rightarrow> ('e, 'f) handler option \<Rightarrow> 'e ib_error option" where
  "ib_validate consumer messageID handler =
     (case handler of
        None \<Rightarrow> Some IbHandlerNil
      | Some _ \<Rightarrow>
          (case validateToken consumer maxConsumerNameBytes of
             Some err \<Rightarrow> Some (ErrInvalidConsumer err)
           | None \<Rightarrow>
               (case validateToken messageID maxMessageIDBytes of
                  Some err \<Rightarrow> Some (IbInvalidMessage err)
                | None \<Rightarrow> None)))"

section \<open>Processing a delivery\<close>

text \<open>\<^verbatim>\<open>INSERT ... ON CONFLICT DO NOTHING\<close>: the number of rows inserted, none if the statement failed.\<close>

definition ib_claim :: "bool \<Rightarrow> time \<Rightarrow> ikey \<Rightarrow> 'f ibdb \<Rightarrow> 'f ibtx \<Rightarrow> nat option \<times> 'f ibtx" where
  "ib_claim succeeds now k db tx =
     (if \<not> succeeds then (None, tx)
      else if map_of (ib_receipts db) k \<noteq> None \<or> map_of (tx_receipts tx) k \<noteq> None then (Some 0, tx)
      else (Some 1, tx\<lparr>tx_receipts := (k, now) # tx_receipts tx\<rparr>))"

text \<open>The result \<open>Inr dup\<close> is \<^verbatim>\<open>InboxResult{Duplicate: dup}\<close>.\<close>

definition processInTx ::
    "bool \<Rightarrow> time \<Rightarrow> ikey \<Rightarrow> ('e, 'f) handler \<Rightarrow> 'f ibdb \<Rightarrow> 'f ibtx \<Rightarrow> ('e ib_error + bool) \<times> 'f ibtx" where
  "processInTx succeeds now k handler db tx =
     (case ib_claim succeeds now k db tx of
        (None, tx1) \<Rightarrow> (Inl IbClaim, tx1)
      | (Some n, tx1) \<Rightarrow>
          if n = 0 then (Inr True, tx1)
          else
            (case handler db tx1 of (res, f) \<Rightarrow>
               let tx2 = tx1\<lparr>tx_work := (k, f) # tx_work tx1\<rparr> in
               (case res of
                  HandlerErr e \<Rightarrow> (Inl (IbHandler e), tx2)
                | HandlerPanic \<Rightarrow> (Inl IbPanic, tx2)
                | HandlerOk \<Rightarrow> (Inr False, tx2))))"

definition apply_tx :: "'f ibtx \<Rightarrow> 'f ibdb \<Rightarrow> 'f ibdb" where
  "apply_tx tx db =
     \<lparr> ib_receipts = tx_receipts tx @ ib_receipts db, ib_work = tx_work tx @ ib_work db \<rparr>"

fun ib_commit :: "fault \<Rightarrow> 'f ibtx \<Rightarrow> 'f ibdb \<Rightarrow> bool \<times> 'f ibdb" where
  "ib_commit NoFault tx db = (True, apply_tx tx db)"
| "ib_commit FaultBefore tx db = (False, db)"
| "ib_commit FaultAfter tx db = (False, apply_tx tx db)"

text \<open>A transaction of the caller is returned with what the call added; otherwise \<^verbatim>\<open>Process\<close> owns one.\<close>

definition Process ::
    "ib_env \<Rightarrow> ctxt \<Rightarrow> 'f ibtx option \<Rightarrow> string \<Rightarrow> string \<Rightarrow> ('e, 'f) handler option \<Rightarrow> 'f ibdb
     \<Rightarrow> ('e ib_error + bool) \<times> 'f ibtx option \<times> 'f ibdb" where
  "Process E ctx joined consumer messageID handler db =
     (case ib_validate consumer messageID handler of
        Some err \<Rightarrow> (Inl err, joined, db)
      | None \<Rightarrow>
          let k = (consumer, messageID); h = the handler in
          case (if ctx = NilCtx then None else joined) of
            Some tx \<Rightarrow> (case processInTx (ie_claim E) (ie_now E) k h db tx of (res, tx') \<Rightarrow> (res, Some tx', db))
          | None \<Rightarrow>
              if ctx = NilCtx then (Inl IbNilContext, joined, db)
              else case ctx_obs ctx 0 of
                Some err \<Rightarrow> (Inl (IbContext err), joined, db)
              | None \<Rightarrow>
                  if \<not> ie_begin E then (Inl IbBegin, joined, db)
                  else case processInTx (ie_claim E) (ie_now E) k h db begin_tx of
                    (Inl err, _) \<Rightarrow> (Inl err, joined, db)
                  | (Inr dup, tx) \<Rightarrow>
                      if dup then (Inr dup, joined, db)
                      else (case ib_commit (ie_commit E) tx db of
                              (False, db') \<Rightarrow> (Inl IbCommit, joined, db')
                            | (True, db') \<Rightarrow> (Inr dup, joined, db')))"

definition ProcessInTx ::
    "ib_env \<Rightarrow> ctxt \<Rightarrow> 'f ibtx option \<Rightarrow> string \<Rightarrow> string \<Rightarrow> ('e, 'f) handler option \<Rightarrow> 'f ibdb
     \<Rightarrow> ('e ib_error + bool) \<times> 'f ibtx option" where
  "ProcessInTx E ctx joined consumer messageID handler db =
     (case ib_validate consumer messageID handler of
        Some err \<Rightarrow> (Inl err, joined)
      | None \<Rightarrow>
          (case (if ctx = NilCtx then None else joined) of
             None \<Rightarrow> (Inl ErrNoTx, joined)
           | Some tx \<Rightarrow>
               (case processInTx (ie_claim E) (ie_now E) (consumer, messageID) (the handler) db tx of
                  (res, tx') \<Rightarrow> (res, Some tx'))))"

text \<open>The retention sweep, outside every transaction.\<close>

definition ib_old :: "time \<Rightarrow> 'f ibdb \<Rightarrow> ikey list" where
  "ib_old bef db = map fst (filter (\<lambda>(k, t). t < bef) (ib_receipts db))"

definition PruneBefore :: "ctxt \<Rightarrow> fault \<Rightarrow> time \<Rightarrow> 'f ibdb \<Rightarrow> ('e ib_error + nat) \<times> 'f ibdb" where
  "PruneBefore ctx flt bef db =
     (if ctx = NilCtx then (Inl IbNilContext, db)
      else
        let db' = db\<lparr>ib_receipts := filter (\<lambda>(k, t). \<not> t < bef) (ib_receipts db)\<rparr> in
        case flt of
          NoFault \<Rightarrow> (Inr (length (ib_old bef db)), db')
        | FaultBefore \<Rightarrow> (Inl IbExec, db)
        | FaultAfter \<Rightarrow> (Inl IbExec, db'))"

definition ib_Count :: "ctxt \<Rightarrow> bool \<Rightarrow> 'f ibdb \<Rightarrow> 'e ib_error + nat" where
  "ib_Count ctx succeeds db =
     (if ctx = NilCtx then Inl IbNilContext
      else if \<not> succeeds then Inl IbExec
      else Inr (length (ib_receipts db)))"

section \<open>Concurrent consumers\<close>

text \<open>
  Workers, each with at most one open transaction, over one database.  \<open>is_open\<close> holds the transactions
  with the keys whose processing returned no error in them, \<open>is_acks\<close> the deliveries that may be
  acknowledged, \<open>is_pruned\<close> the receipts the sweep removed.  A claim waits while another open
  transaction holds the same key: the primary key makes PostgreSQL wait for its end.  A transaction in
  which a call failed is rolled back, by \<^verbatim>\<open>Process\<close> or by the caller that owns it; a crash rolls back, too.
  What a handler sees of others that commit while it runs is in the freedom of \<open>handler\<close>.
\<close>

record 'f ibsys =
  is_db :: "'f ibdb"
  is_open :: "nat \<Rightarrow> ('f ibtx \<times> ikey list) option"
  is_acks :: "ikey list"
  is_pruned :: "ikey list"

definition ib_init :: "'f ibsys" where
  "ib_init = \<lparr> is_db = \<lparr> ib_receipts = [], ib_work = [] \<rparr>, is_open = (\<lambda>_. None), is_acks = [], is_pruned = [] \<rparr>"

definition held :: "'f ibsys \<Rightarrow> nat \<Rightarrow> ikey set" where
  "held s w = (case is_open s w of None \<Rightarrow> {} | Some (tx, ks) \<Rightarrow> fst ` set (tx_receipts tx))"

inductive ib_step :: "'f ibsys \<Rightarrow> 'f ibsys \<Rightarrow> bool" where
  ib_begins: "is_open s w = None \<Longrightarrow> ib_step s (s\<lparr>is_open := (is_open s)(w \<mapsto> (begin_tx, []))\<rparr>)"
| ib_delivers: "is_open s w = Some (tx, ks) \<Longrightarrow> \<forall>v. v \<noteq> w \<longrightarrow> k \<notin> held s v \<Longrightarrow>
    processInTx succeeds now k (handler :: (unit, 'f) handler) (is_db s) tx = (Inr dup, tx') \<Longrightarrow>
    ib_step s (s\<lparr>is_open := (is_open s)(w \<mapsto> (tx', k # ks))\<rparr>)"
| ib_rolls_back: "is_open s w = Some (tx, ks) \<Longrightarrow> ib_step s (s\<lparr>is_open := (is_open s)(w := None)\<rparr>)"
| ib_returns_duplicate: "is_open s w = Some (tx, ks) \<Longrightarrow> tx_receipts tx = [] \<Longrightarrow>
    ib_step s (s\<lparr>is_open := (is_open s)(w := None), is_acks := ks @ is_acks s\<rparr>)"
| ib_commits: "is_open s w = Some (tx, ks) \<Longrightarrow> ib_commit flt tx (is_db s) = (done_ok, db') \<Longrightarrow>
    ib_step s (s\<lparr>is_open := (is_open s)(w := None), is_db := db',
                is_acks := (if done_ok then ks @ is_acks s else is_acks s)\<rparr>)"
| ib_prunes: "PruneBefore ctx flt bef (is_db s) = (res :: unit ib_error + nat, db') \<Longrightarrow>
    ib_step s (s\<lparr>is_db := db',
                is_pruned := (if db' = is_db s then [] else ib_old bef (is_db s)) @ is_pruned s\<rparr>)"

definition runs :: "'f ibdb \<Rightarrow> ikey \<Rightarrow> nat" where
  "runs db k = count_list (map fst (ib_work db)) k"

section \<open>Facts on one call\<close>

lemma validateToken_None: "validateToken v n = None \<longleftrightarrow> portable n v"
  by (auto simp: validateToken_def portable_def containsInvalidKeyRune_def split: option.splits)

lemma processInTx_cases:
  assumes "processInTx succeeds now k handler db tx = (Inr dup, tx')"
  obtains (duplicate) "dup" "tx' = tx" "map_of (ib_receipts db) k \<noteq> None \<or> map_of (tx_receipts tx) k \<noteq> None"
  | (ran) f where "\<not> dup" "map_of (ib_receipts db) k = None" "map_of (tx_receipts tx) k = None"
      "tx' = \<lparr> tx_receipts = (k, now) # tx_receipts tx, tx_work = (k, f) # tx_work tx \<rparr>"
  using assms
  by (cases tx) (auto simp: processInTx_def ib_claim_def Let_def split: if_splits prod.splits hresult.splits)

lemma ib_commit_cases:
  assumes "ib_commit flt tx db = (okay, db')"
  shows "db' = apply_tx tx db \<or> \<not> okay \<and> db' = db"
  using assms by (cases flt) auto

lemma count_distinct: "distinct xs \<Longrightarrow> count_list xs x = (if x \<in> set xs then 1 else 0)"
  by (induction xs) auto

lemma count_keys: "distinct (map fst m) \<Longrightarrow> count_list (map fst m) k = (if map_of m k = None then 0 else 1)"
  by (simp add: count_distinct map_of_eq_None_iff)

lemma count_filter:
  "count_list (map fst m) k =
     count_list (map fst (filter (\<lambda>(k, t). t < bef) m)) k + count_list (map fst (filter (\<lambda>(k, t). \<not> t < bef) m)) k"
  for m :: "(ikey, time) gomap"
  by (induction m) auto

section \<open>The invariant\<close>

definition tx_inv :: "'f ibdb \<Rightarrow> 'f ibtx \<Rightarrow> ikey list \<Rightarrow> bool" where
  "tx_inv db tx ks \<longleftrightarrow>
     distinct (map fst (tx_receipts tx)) \<and> map fst (tx_work tx) = map fst (tx_receipts tx)
     \<and> (\<forall>k \<in> fst ` set (tx_receipts tx). map_of (ib_receipts db) k = None)
     \<and> (\<forall>k \<in> set ks. 0 < runs db k \<or> k \<in> fst ` set (tx_receipts tx))"

definition ib_inv :: "'f ibsys \<Rightarrow> bool" where
  "ib_inv s \<longleftrightarrow>
     gm_wf (ib_receipts (is_db s))
     \<and> (\<forall>k. runs (is_db s) k =
           count_list (is_pruned s) k + (if map_of (ib_receipts (is_db s)) k = None then 0 else 1))
     \<and> (\<forall>w tx ks. is_open s w = Some (tx, ks) \<longrightarrow> tx_inv (is_db s) tx ks)
     \<and> (\<forall>v w. v \<noteq> w \<longrightarrow> held s v \<inter> held s w = {})
     \<and> (\<forall>k \<in> set (is_acks s). 0 < runs (is_db s) k)"

lemma ib_inv_init: "ib_inv ib_init"
  by (simp add: ib_inv_def ib_init_def runs_def held_def gm_wf_def)

lemma ib_inv_runs:
  assumes "ib_inv s"
  shows "runs (is_db s) k =
    count_list (is_pruned s) k + (if map_of (ib_receipts (is_db s)) k = None then 0 else 1)"
  using assms unfolding ib_inv_def by blast

text \<open>What a worker holds changes only with its own transaction.\<close>

lemma held_upd:
  "held (s\<lparr>is_open := (is_open s)(w := t)\<rparr>) v = (if v = w then
     (case t of None \<Rightarrow> {} | Some (tx, ks) \<Rightarrow> fst ` set (tx_receipts tx)) else held s v)"
  by (simp add: held_def)

lemma held_other [simp]:
  "held (s\<lparr>is_acks := a\<rparr>) v = held s v" "held (s\<lparr>is_db := db\<rparr>) v = held s v" "held (s\<lparr>is_pruned := p\<rparr>) v = held s v"
  by (simp_all add: held_def)

lemma ib_inv_open:
  assumes "ib_inv s" and "is_open s w = Some (tx, ks)"
  shows "tx_inv (is_db s) tx ks" and "held s w = fst ` set (tx_receipts tx)"
  using assms by (auto simp: ib_inv_def held_def)

text \<open>A worker opens a transaction, or replaces its own by one that holds no more than others leave free.\<close>

lemma ib_inv_set_open:
  assumes "ib_inv s" and "tx_inv (is_db s) tx' ks'"
    and "\<forall>v. v \<noteq> w \<longrightarrow> fst ` set (tx_receipts tx') \<inter> held s v = {}"
  shows "ib_inv (s\<lparr>is_open := (is_open s)(w \<mapsto> (tx', ks'))\<rparr>)"
  using assms by (auto simp: ib_inv_def held_upd)

lemma ib_inv_close:
  assumes "ib_inv s" and "\<forall>k \<in> set new. 0 < runs (is_db s) k"
  shows "ib_inv (s\<lparr>is_open := (is_open s)(w := None), is_acks := new @ is_acks s\<rparr>)"
  using assms by (auto simp: ib_inv_def held_upd held_def)

lemma ib_inv_acks:
  assumes "ib_inv s" and "\<forall>k \<in> set new. 0 < runs (is_db s) k"
  shows "ib_inv (s\<lparr>is_acks := new @ is_acks s\<rparr>)"
  using assms by (auto simp: ib_inv_def)

lemma tx_inv_deliver:
  assumes "tx_inv db tx ks" and "processInTx succeeds now k handler db tx = (Inr dup, tx')"
    and "map_of (ib_receipts db) k \<noteq> None \<longrightarrow> 0 < runs db k"
  shows "tx_inv db tx' (k # ks) \<and> fst ` set (tx_receipts tx') \<subseteq> insert k (fst ` set (tx_receipts tx))"
  using assms(2)
proof (cases rule: processInTx_cases)
  case duplicate
  then show ?thesis using assms(1,3) by (auto simp: tx_inv_def map_of_eq_None_iff)
next
  case (ran f)
  then show ?thesis using assms(1) by (auto simp: tx_inv_def map_of_eq_None_iff)
qed

lemma runs_apply:
  assumes "tx_inv db tx ks"
  shows "runs (apply_tx tx db) k = (if k \<in> fst ` set (tx_receipts tx) then 1 else 0) + runs db k"
  using assms by (simp add: runs_def apply_tx_def tx_inv_def count_distinct)

lemma ib_inv_apply:
  assumes inv: "ib_inv s" and opn: "is_open s w = Some (tx, ks)"
  shows "ib_inv (s\<lparr>is_open := (is_open s)(w := None), is_db := apply_tx tx (is_db s)\<rparr>)"
proof -
  note tx = ib_inv_open [OF inv opn]
  have r: "map_of (ib_receipts (apply_tx tx (is_db s))) k =
      (case map_of (tx_receipts tx) k of None \<Rightarrow> map_of (ib_receipts (is_db s)) k | Some t \<Rightarrow> Some t)" for k
    by (simp add: apply_tx_def map_add_def)
  have "fst ` set (tx_receipts tx) \<inter> fst ` set (ib_receipts (is_db s)) = {}"
    using tx(1) unfolding tx_inv_def map_of_eq_None_iff by blast
  then have wf: "gm_wf (ib_receipts (apply_tx tx (is_db s)))"
    using tx(1) inv by (simp add: ib_inv_def tx_inv_def gm_wf_def apply_tx_def)
  have cnt: "runs (apply_tx tx (is_db s)) k = count_list (is_pruned s) k
      + (if map_of (ib_receipts (apply_tx tx (is_db s))) k = None then 0 else 1)" for k
  proof (cases "k \<in> fst ` set (tx_receipts tx)")
    case True
    then have "map_of (tx_receipts tx) k \<noteq> None" by (simp add: map_of_eq_None_iff)
    moreover have "map_of (ib_receipts (is_db s)) k = None" using tx(1) True unfolding tx_inv_def by (elim conjE) (rule bspec)
    ultimately show ?thesis
      using True ib_inv_runs [OF inv, of k] by (auto simp: r runs_apply [OF tx(1)])
  next
    case False
    then have "map_of (tx_receipts tx) k = None" by (simp add: map_of_eq_None_iff)
    then show ?thesis using False ib_inv_runs [OF inv, of k] by (simp add: r runs_apply [OF tx(1)])
  qed
  have others: "tx_inv (apply_tx tx (is_db s)) tx' ks'" if o: "is_open s v = Some (tx', ks')" "v \<noteq> w" for v tx' ks'
  proof -
    have "held s v \<inter> held s w = {}" using inv that(2) by (simp add: ib_inv_def)
    then have "\<forall>k \<in> fst ` set (tx_receipts tx'). map_of (tx_receipts tx) k = None"
      using tx(2) ib_inv_open(2) [OF inv o(1)] by (auto simp: map_of_eq_None_iff)
    then show ?thesis
      using ib_inv_open(1) [OF inv o(1)] by (auto simp: tx_inv_def r runs_apply [OF tx(1)])
  qed
  have "0 < runs (apply_tx tx (is_db s)) k" if "k \<in> set (is_acks s)" for k
    using inv that by (simp add: ib_inv_def runs_apply [OF tx(1)])
  then show ?thesis using inv wf cnt others by (auto simp: ib_inv_def held_upd held_def)
qed

lemma ib_inv_prune:
  assumes "ib_inv s" and "db' = (is_db s)\<lparr>ib_receipts := filter (\<lambda>(k, t). \<not> t < bef) (ib_receipts (is_db s))\<rparr>"
  shows "ib_inv (s\<lparr>is_db := db', is_pruned := ib_old bef (is_db s) @ is_pruned s\<rparr>)"
proof -
  let ?m = "ib_receipts (is_db s)"
  have wf: "distinct (map fst ?m)" using assms(1) by (simp add: ib_inv_def gm_wf_def)
  have "count_list (map fst ?m) k = count_list (ib_old bef (is_db s)) k + count_list (map fst (filter (\<lambda>(k, t). \<not> t < bef) ?m)) k" for k
    unfolding ib_old_def by (rule count_filter)
  moreover have wf': "distinct (map fst (ib_receipts db'))" using wf assms(2) by (simp add: distinct_map_filter)
  ultimately have split: "(if map_of ?m k = None then 0 else 1)
      = count_list (ib_old bef (is_db s)) k + (if map_of (ib_receipts db') k = None then 0 else 1)" for k
    using count_keys [OF wf, of k] count_keys [OF wf', of k] assms(2) by simp
  have runs: "runs db' k = runs (is_db s) k" for k using assms(2) by (simp add: runs_def)
  have "map_of (ib_receipts db') k = None" if "map_of ?m k = None" for k
    using split [of k] that by (simp split: if_splits)
  then have "tx_inv db' tx ks" if "tx_inv (is_db s) tx ks" for tx ks
    using that by (auto simp: tx_inv_def runs)
  moreover have "runs db' k = count_list (ib_old bef (is_db s) @ is_pruned s) k
      + (if map_of (ib_receipts db') k = None then 0 else 1)" for k
    using split [of k] ib_inv_runs [OF assms(1), of k] by (simp add: runs)
  ultimately show ?thesis
    using assms(1) wf' by (simp add: ib_inv_def runs gm_wf_def)
qed

lemma ib_inv_step:
  assumes "ib_step s s'" and inv: "ib_inv s"
  shows "ib_inv s'"
  using assms(1)
proof cases
  case (ib_begins w)
  then show ?thesis using ib_inv_set_open [OF inv, of begin_tx "[]" w] by (simp add: tx_inv_def begin_tx_def)
next
  case (ib_delivers w tx ks k succeeds now handler dup tx')
  have "map_of (ib_receipts (is_db s)) k \<noteq> None \<longrightarrow> 0 < runs (is_db s) k"
    using ib_inv_runs [OF inv, of k] by simp
  then have tx': "tx_inv (is_db s) tx' (k # ks)" "fst ` set (tx_receipts tx') \<subseteq> insert k (held s w)"
    using tx_inv_deliver [OF ib_inv_open(1) [OF inv ib_delivers(2)] ib_delivers(4)]
      ib_inv_open(2) [OF inv ib_delivers(2)] by auto
  have "\<forall>v. v \<noteq> w \<longrightarrow> held s w \<inter> held s v = {}" using inv by (auto simp: ib_inv_def)
  then show ?thesis
    using ib_inv_set_open [OF inv tx'(1), of w] tx'(2) ib_delivers(1,3) by blast
next
  case (ib_rolls_back w tx ks)
  then show ?thesis using ib_inv_close [OF inv, of "[]" w] by simp
next
  case (ib_returns_duplicate w tx ks)
  then show ?thesis
    using ib_inv_close [OF inv, of ks w] ib_inv_open(1) [OF inv ib_returns_duplicate(2)] by (simp add: tx_inv_def)
next
  case (ib_commits w tx ks flt done_ok db')
  note o = ib_inv_open(1) [OF inv ib_commits(2)]
  let ?s = "s\<lparr>is_open := (is_open s)(w := None), is_db := apply_tx tx (is_db s)\<rparr>"
  have acked: "\<forall>k \<in> set ks. 0 < runs (is_db ?s) k"
    using o by (auto simp: runs_apply [OF o] tx_inv_def)
  have "ib_inv ?s" using inv ib_commits(2) by (rule ib_inv_apply)
  then have "ib_inv (?s\<lparr>is_acks := (if done_ok then ks else []) @ is_acks s\<rparr>)"
    using ib_inv_acks [of ?s "if done_ok then ks else []"] acked by simp
  moreover have "ib_inv (s\<lparr>is_open := (is_open s)(w := None)\<rparr>)"
    using ib_inv_close [OF inv, of "[]" w] by simp
  ultimately show ?thesis using ib_commit_cases [OF ib_commits(3)] ib_commits(1) by auto
next
  case (ib_prunes ctx flt bef res db')
  then show ?thesis
    using ib_inv_prune [OF inv refl, of bef] inv
    by (auto simp: PruneBefore_def Let_def split: if_splits fault.splits)
qed

lemma ib_inv_reach: "ib_step\<^sup>*\<^sup>* ib_init s \<Longrightarrow> ib_inv s"
  by (induction rule: rtranclp_induct) (auto intro: ib_inv_init ib_inv_step)

section \<open>A call of Process is a run\<close>

lemma processInTx_erase:
  assumes "processInTx succeeds now k handler db tx = (Inr dup, tx')"
  shows "\<exists>h :: (unit, 'f) handler. processInTx succeeds now k h db (tx :: 'f ibtx) = (Inr dup, tx')"
proof -
  obtain f where "processInTx succeeds now k (\<lambda>_ _. (HandlerOk, f) :: unit hresult \<times> 'f) db tx = (Inr dup, tx')"
    using assms
    by (auto simp: processInTx_def ib_claim_def Let_def split: if_splits prod.splits hresult.splits)
  then show ?thesis by blast
qed

lemma ib_run_deliver:
  fixes s :: "'f ibsys"
  assumes p: "processInTx succeeds now k h (is_db s) begin_tx = (Inr dup, tx)" and idle: "is_open s = (\<lambda>_. None)"
  shows "ib_step\<^sup>*\<^sup>* s (s\<lparr>is_open := (is_open s)(0 \<mapsto> (tx, [k]))\<rparr>)"
proof -
  let ?open = "s\<lparr>is_open := (is_open s)(0 \<mapsto> (begin_tx, []))\<rparr>"
  obtain h' :: "(unit, 'f) handler" where "processInTx succeeds now k h' (is_db ?open) begin_tx = (Inr dup, tx)"
    using processInTx_erase [OF p] by auto
  then have "ib_step ?open (?open\<lparr>is_open := (is_open ?open)(0 \<mapsto> (tx, [k]))\<rparr>)"
    by (intro ib_delivers [of _ _ begin_tx]) (auto simp: held_upd held_def idle)
  moreover have "ib_step s ?open" using idle by (intro ib_begins) simp
  ultimately show ?thesis by (auto intro: rtranclp.intros)
qed

text \<open>
  While no other transaction is open, a call of \<^verbatim>\<open>Process\<close> that owns its transaction is a run of the
  relation: it changes the database as the run does and returns without an error exactly if the run
  allows the delivery to be acknowledged.
\<close>

lemma Process_is_run:
  assumes call: "Process E ctx None consumer messageID (handler :: ('e, 'f) handler option) (is_db s) = (res, j, db')"
    and idle: "is_open s = (\<lambda>_. None)"
  shows "ib_step\<^sup>*\<^sup>* s (s\<lparr>is_db := db', is_acks := (if isl res then [] else [(consumer, messageID)]) @ is_acks s\<rparr>)"
proof -
  let ?k = "(consumer, messageID)"
  let ?at = "\<lambda>tx. s\<lparr>is_open := (is_open s)(0 \<mapsto> (tx, [?k]))\<rparr>"
  note reach = ib_run_deliver [OF _ idle]
  have same: "s\<lparr>is_open := (is_open s)(0 := None)\<rparr> = s" using idle by (auto simp: fun_upd_idem)
  consider (error) "isl res" "db' = is_db s"
    | (duplicate) succeeds now and h :: "('e, 'f) handler" and tx where "\<not> isl res" "db' = is_db s"
        "processInTx succeeds now ?k h (is_db s) begin_tx = (Inr True, tx)"
    | (commit) succeeds now and h :: "('e, 'f) handler" and tx flt where
        "processInTx succeeds now ?k h (is_db s) begin_tx = (Inr False, tx)" "ib_commit flt tx (is_db s) = (\<not> isl res, db')"
    using call
    by (auto simp: Process_def Let_def split: option.splits if_splits prod.splits sum.splits bool.splits)
  then show ?thesis
  proof cases
    case error
    then show ?thesis by simp
  next
    case duplicate
    then have "tx_receipts tx = []" by (auto elim!: processInTx_cases simp: begin_tx_def)
    then have "ib_step (?at tx) ((?at tx)\<lparr>is_open := (is_open (?at tx))(0 := None), is_acks := [?k] @ is_acks (?at tx)\<rparr>)"
      by (intro ib_returns_duplicate [of _ _ tx]) simp_all
    then show ?thesis using reach [OF duplicate(3)] duplicate same by auto
  next
    case commit
    then have "ib_step (?at tx) ((?at tx)\<lparr>is_open := (is_open (?at tx))(0 := None), is_db := db',
        is_acks := (if \<not> isl res then [?k] @ is_acks (?at tx) else is_acks (?at tx))\<rparr>)"
      by (intro ib_commits [of _ _ tx _ flt]) simp_all
    then show ?thesis using reach [OF commit(1)] same by auto
  qed
qed

section \<open>Exactly once\<close>

text \<open>
  Property C7.  Whatever the interleaving of workers, failed handlers, lost commits, crashes and
  retention sweeps, the committed runs of a handler for a consumer and a message are as many as the
  receipts the sweep removed, and one more while a receipt is kept.  So a delivery that may be
  acknowledged and whose receipt was not swept has been processed exactly once, however often it was
  delivered, also when a commit took effect and was reported as failed.
\<close>

theorem inbox_exactly_once:
  assumes "ib_step\<^sup>*\<^sup>* ib_init s"
  shows "runs (is_db s) k =
      count_list (is_pruned s) k + (if map_of (ib_receipts (is_db s)) k = None then 0 else 1)
    \<and> (k \<in> set (is_acks s) \<and> k \<notin> set (is_pruned s) \<longrightarrow> runs (is_db s) k = 1)"
proof -
  have inv: "ib_inv s" using assms by (rule ib_inv_reach)
  then have "0 < runs (is_db s) k" if "k \<in> set (is_acks s)"
    using that unfolding ib_inv_def by blast
  moreover have "count_list (is_pruned s) k = 0" if "k \<notin> set (is_pruned s)" using that by (simp add: count_list_0_iff)
  ultimately show ?thesis
    using ib_inv_runs [OF inv, of k] by (cases "map_of (ib_receipts (is_db s)) k") (fastforce+)
qed

text \<open>A delivery whose commit is reported as failed although it took effect, and its redelivery.\<close>

definition ib_ex_env :: "fault \<Rightarrow> ib_env" where
  "ib_ex_env flt = \<lparr> ie_begin = True, ie_claim = True, ie_now = 7, ie_commit = flt \<rparr>"

definition ib_ex_handler :: "(unit, nat) handler" where
  "ib_ex_handler db tx = (HandlerOk, 5)"

definition ib_ex_db :: "nat ibdb" where
  "ib_ex_db = \<lparr> ib_receipts = [((''c'', ''m''), 7)], ib_work = [((''c'', ''m''), 5)] \<rparr>"

lemma ib_ex_valid: "ib_validate ''c'' ''m'' (Some h) = None"
proof -
  have "validateToken ''c'' maxConsumerNameBytes = None" "validateToken ''m'' maxMessageIDBytes = None"
    unfolding validateToken_None by (simp_all add: portable_ascii maxConsumerNameBytes_def maxMessageIDBytes_def)
  then show ?thesis by (simp add: ib_validate_def)
qed

lemma ib_ex_lost:
  "Process (ib_ex_env FaultAfter) background None ''c'' ''m'' (Some ib_ex_handler) (is_db ib_init)
     = (Inl IbCommit, None, ib_ex_db)"
  by (simp add: Process_def Let_def ib_ex_valid processInTx_def ib_claim_def ib_init_def begin_tx_def
      ib_ex_env_def ib_ex_handler_def ib_ex_db_def apply_tx_def)

lemma ib_ex_again:
  "Process (ib_ex_env NoFault) background None ''c'' ''m'' (Some ib_ex_handler) ib_ex_db = (Inr True, None, ib_ex_db)"
  by (simp add: Process_def Let_def ib_ex_valid processInTx_def ib_claim_def ib_ex_env_def ib_ex_db_def)

lemma ib_init_idle: "is_open ib_init = (\<lambda>_. None)" "is_acks ib_init = []"
  by (simp_all add: ib_init_def)

lemma ib_ex_run: "ib_step\<^sup>*\<^sup>* ib_init (ib_init\<lparr>is_db := ib_ex_db, is_acks := [(''c'', ''m'')]\<rparr>)"
proof -
  let ?s = "ib_init\<lparr>is_db := ib_ex_db, is_acks := []\<rparr>"
  have "ib_step\<^sup>*\<^sup>* ib_init ?s"
    using Process_is_run [OF ib_ex_lost ib_init_idle(1)] unfolding ib_init_idle(2) by simp
  moreover have "Process (ib_ex_env NoFault) background None ''c'' ''m'' (Some ib_ex_handler) (is_db ?s) = (Inr True, None, ib_ex_db)"
    using ib_ex_again by simp
  then have "ib_step\<^sup>*\<^sup>* ?s (?s\<lparr>is_db := ib_ex_db, is_acks := [(''c'', ''m'')]\<rparr>)"
    using Process_is_run [of "ib_ex_env NoFault" background "''c''" "''m''" "Some ib_ex_handler" ?s "Inr True" None ib_ex_db]
    by (simp add: ib_init_idle)
  ultimately show ?thesis by simp
qed

theorem inbox_exactly_once_witness:
  "\<exists>s. ib_step\<^sup>*\<^sup>* ib_init s \<and> (''c'', ''m'') \<in> set (is_acks s) \<and> runs (is_db s) (''c'', ''m'') = 1
     \<and> ib_work (is_db s) = [((''c'', ''m''), 5 :: nat)]"
  using inbox_exactly_once [OF ib_ex_run, of "(''c'', ''m'')"] ib_ex_run
  by (intro exI [of _ "ib_init\<lparr>is_db := ib_ex_db, is_acks := [(''c'', ''m'')]\<rparr>"]) (simp add: ib_init_def ib_ex_db_def)

end
