(* ===== verification/Outbox_Inbox.thy ===== *)
theory Outbox_Inbox
  imports Outbox_Guarantees Inbox
begin

text \<open>
  From one service to another: the outbox of the producer and the inbox of the consumer, with a broker
  between them that may deliver a message any number of times.
\<close>

section \<open>Message ids\<close>

text \<open>What the writer accepts as a message id, the inbox accepts too, and it travels unchanged.\<close>

lemma written_message_id:
  assumes "write_event W ev r prm"
  shows "r_message_id r = wp_MessageID prm \<and> validateToken (r_message_id r) maxMessageIDBytes = None"
  using assms
  by (auto simp: write_event_def written_row_def entry_row_def new_entry_def validateWriteParams_None
      validateToken_None maxMessageIDBytes_def MaxRouteNameBytes_def)

lemma run_message_id:
  assumes "ob_run W evs (ob_init cfg rts) = Some s" and "w \<in> set (sy_written s)"
  shows "validateToken (r_message_id w) maxMessageIDBytes = None"
  using run_written [OF ob_inv_init assms] written_message_id by (auto simp: ob_init_def)

lemma content_message_id: "econtent e = rcontent r \<Longrightarrow> en_MessageID e = r_message_id r"
  by (simp add: econtent_def rcontent_def row_entry_def)

section \<open>End to end\<close>

text \<open>
  Property C8.  The outbox delivers at least once and the inbox drops what it has seen: if the consumer
  may acknowledge every message a publisher accepted and no receipt was swept, then for every row the
  producer has marked published, in whatever run of its relays, the consumer has processed the message
  exactly once.  The message id of every written row is one the inbox accepts.
\<close>

theorem outbox_inbox_exactly_once:
  assumes "ob_run W evs (ob_init cfg rts) = Some s" and "ib_step\<^sup>*\<^sup>* ib_init t"
    and "\<forall>e \<in> set (sy_log s). (consumer, en_MessageID e) \<in> set (is_acks t)" and "is_pruned t = []"
    and "validateToken consumer maxConsumerNameBytes = None" and "w \<in> set (sy_written s)"
  shows "ib_validate consumer (r_message_id w) (Some handler) = None
    \<and> (\<forall>r. row_of (sy_rows s) (r_id w) = Some r \<and> r_status r = StatusPublished
          \<longrightarrow> runs (is_db t) (consumer, r_message_id w) = 1)"
proof (intro conjI allI impI)
  show "ib_validate consumer (r_message_id w) (Some handler) = None"
    using run_message_id [OF assms(1,6)] assms(5) by (simp add: ib_validate_def)
next
  fix r
  assume r: "row_of (sy_rows s) (r_id w) = Some r \<and> r_status r = StatusPublished"
  have inv: "ob_inv cfg s" using assms(1) by (rule ob_inv_reach)
  then have row: "row_inv s r" "r_id r = r_id w" using r ob_inv_row row_of_SomeD by auto
  then have "rcontent r = rcontent w" by (intro written_content [OF inv assms(6)]) (simp add: row_inv_def)
  then obtain e where "e \<in> set (sy_log s)" "econtent e = rcontent w"
    using row r by (auto simp: row_inv_def delivered_def)
  then have k: "(consumer, r_message_id w) \<in> set (is_acks t)"
    using assms(3) content_message_id [of e w] by force
  have t: "ib_inv t" using assms(2) by (rule ib_inv_reach)
  then have "0 < runs (is_db t) (consumer, r_message_id w)" using k unfolding ib_inv_def by blast
  then show "runs (is_db t) (consumer, r_message_id w) = 1"
    using ib_inv_runs [OF t, of "(consumer, r_message_id w)"] assms(4) by (simp split: if_splits)
qed

theorem outbox_inbox_exactly_once_witness:
  "\<exists>s t. ob_run demo_W (demo_sent @ [EvFinish 0 ''a'' demo_E (\<lambda>_. []) 4]) (ob_init demo_cfg (\<lambda>_. [])) = Some s
     \<and> map r_status (sy_rows s) = [StatusPublished] \<and> ib_step\<^sup>*\<^sup>* ib_init (t :: nat ibsys)
     \<and> ib_validate ''c'' ''m'' (Some ib_ex_handler) = None \<and> runs (is_db t) (''c'', ''m'') = 1"
proof -
  let ?t = "ib_init\<lparr>is_db := ib_ex_db, is_acks := [(''c'', ''m'')]\<rparr>"
  let ?w = "demo_row StatusPending 1 None None"
  have id: "en_MessageID demo_entry = ''m''" "r_message_id ?w = ''m''"
    by (simp_all add: demo_entry_def row_entry_def demo_row_def)
  have "validateToken ''c'' maxConsumerNameBytes = None"
    unfolding validateToken_None by (simp add: portable_ascii maxConsumerNameBytes_def)
  then have "ib_validate ''c'' (r_message_id ?w) (Some ib_ex_handler) = None
    \<and> (\<forall>r. row_of (sy_rows demo_done) (r_id ?w) = Some r \<and> r_status r = StatusPublished
          \<longrightarrow> runs (is_db ?t) (''c'', r_message_id ?w) = 1)"
    by (intro outbox_inbox_exactly_once [OF demo_run_done ib_ex_run])
       (simp_all add: demo_done_def id ib_init_def)
  then have "ib_validate ''c'' ''m'' (Some ib_ex_handler) = None \<and> runs (is_db ?t) (''c'', ''m'') = 1"
    by (simp add: demo_done_def id)
  moreover have "map r_status (sy_rows demo_done) = [StatusPublished]" by (simp add: demo_done_def)
  ultimately show ?thesis
    using demo_run_done ib_ex_run by (intro exI [of _ demo_done] exI [of _ ?t] conjI) (simp_all only: simp_thms)
qed

end
