(* ===== verification/Audit_Chain.thy ===== *)
theory Audit_Chain
  imports Cursors
begin

text \<open>
  The tamper-evident chain of \<^verbatim>\<open>observability/auditlog\<close>: the canonical encoding and the chain HMACs of
  \<^verbatim>\<open>chain.go\<close>, \<^verbatim>\<open>sealedBy\<close> of \<^verbatim>\<open>seal.go\<close> and the verifier of \<^verbatim>\<open>rotation.go\<close>.

  A byte slice is a string; nil and the empty slice are the same, which the code never tells apart.
  HMAC-SHA256 is the argument \<open>hmac\<close>.  \<^verbatim>\<open>subtle.ConstantTimeCompare\<close> is equality.  An index of a key
  that may be \<^verbatim>\<open>-1\<close> is an option, except \<open>cv_oldest\<close>, which the code compares.
\<close>

section \<open>Events\<close>

record event =
  ev_ID :: string
  ev_Timestamp :: time
  ev_Actor :: string
  ev_Tenant :: string
  ev_Action :: string
  ev_Resource :: string
  ev_Status :: string
  ev_IPAddress :: string
  ev_Metadata :: string
  ev_TraceID :: string
  ev_Format :: "8 word"
  ev_PrevHMAC :: string
  ev_HMAC :: string

section \<open>The canonical encoding\<close>

definition PutUint32 :: "nat \<Rightarrow> string" where
  "PutUint32 n = map (\<lambda>k. char_of (n div 256 ^ k)) [3, 2, 1, 0]"

definition PutUint64 :: "nat \<Rightarrow> string" where
  "PutUint64 n = map (\<lambda>k. char_of (n div 256 ^ k)) [7, 6, 5, 4, 3, 2, 1, 0]"

definition appendLenPrefixed :: "string \<Rightarrow> string \<Rightarrow> string" where
  "appendLenPrefixed dst payload = dst @ PutUint32 (length payload mod 2 ^ 32) @ payload"

definition appendUnixNano :: "string \<Rightarrow> time \<Rightarrow> string" where
  "appendUnixNano dst t = dst @ PutUint64 (nat (t mod 2 ^ 64))"

definition formatHeader :: string where
  "formatHeader = [CHR 0xFF, CHR ''r'', CHR ''a'', CHR ''l'']"

definition canonicalEvent :: "event \<Rightarrow> string" where
  "canonicalEvent e =
     (let buf = (if ev_Format e \<noteq> 0 then formatHeader @ [char_of (unat (ev_Format e))] else []);
          buf = appendLenPrefixed buf (ev_PrevHMAC e);
          buf = appendLenPrefixed buf (ev_ID e);
          buf = appendUnixNano buf (ev_Timestamp e);
          buf = appendLenPrefixed buf (ev_Actor e);
          buf = appendLenPrefixed buf (ev_Action e);
          buf = appendLenPrefixed buf (ev_Resource e);
          buf = appendLenPrefixed buf (ev_Status e);
          buf = appendLenPrefixed buf (ev_IPAddress e);
          buf = appendLenPrefixed buf (ev_TraceID e);
          buf = appendLenPrefixed buf (ev_Metadata e);
          buf = appendLenPrefixed buf (ev_PrevHMAC e)
      in if ev_Tenant e \<noteq> [] \<or> ev_Format e \<noteq> 0 then appendLenPrefixed buf (ev_Tenant e) else buf)"

section \<open>Chain HMACs\<close>

record chain_key =
  ck_ID :: string
  ck_Key :: "byte list"

definition keyIDTag :: string where
  "keyIDTag = [CHR 0xFF, CHR ''k'', CHR ''i'', CHR ''d'']"

definition computeHMAC :: "mac_fn \<Rightarrow> byte list \<Rightarrow> event \<Rightarrow> string" where
  "computeHMAC hmac chainKey e = hmac chainKey (canonicalEvent e)"

definition computeKeyedHMAC :: "mac_fn \<Rightarrow> byte list \<Rightarrow> string \<Rightarrow> event \<Rightarrow> string" where
  "computeKeyedHMAC hmac chainKey keyID e =
     (if keyID = [] then computeHMAC hmac chainKey e
      else hmac chainKey (canonicalEvent e @ keyIDTag @ appendLenPrefixed [] keyID))"

definition constantTimeEqualHMAC :: "string \<Rightarrow> string \<Rightarrow> bool" where
  "constantTimeEqualHMAC a b = (if length a \<noteq> length b then False else a = b)"

definition eventWithoutHMAC :: "event \<Rightarrow> event" where
  "eventWithoutHMAC e = e\<lparr>ev_HMAC := []\<rparr>"

definition isZeroBytes :: "string \<Rightarrow> bool" where
  "isZeroBytes b = list_all (\<lambda>c. c = CHR 0x00) b"

definition sealedBy :: "mac_fn \<Rightarrow> chain_key \<Rightarrow> event \<Rightarrow> string \<Rightarrow> bool \<times> bool" where
  "sealedBy hmac k canonical mac =
     (if ck_ID k \<noteq> [] \<and> constantTimeEqualHMAC mac (computeKeyedHMAC hmac (ck_Key k) (ck_ID k) canonical)
      then (True, True)
      else (constantTimeEqualHMAC mac (computeHMAC hmac (ck_Key k) canonical), False))"

section \<open>Verification\<close>

datatype al_error =
    ErrChainBroken
  | ErrNoChainKey
  | ErrAnchorPruned
  | ErrChainHeadUnknown
  | ErrLoggerClosed
  | ErrInvalidEvent
  | ErrRotationDue
  | ErrRotationCurrent
  | ErrMetadata
  | ErrAuditStore
  | ErrLimitNegative
  | ErrLimitTooLarge
  | ErrInvalidCursor

definition MinChainKeyLen :: nat where
  "MinChainKeyLen = 32"

definition RotationActor :: string where
  "RotationActor = ''auditlog''"

definition RotationAction :: string where
  "RotationAction = ''auditlog.chain_key_rotated''"

definition rotationResource :: string where
  "rotationResource = ''chain-keys/''"

definition isRotation :: "event \<Rightarrow> bool" where
  "isRotation e \<longleftrightarrow> ev_Actor e = RotationActor \<and> ev_Action e = RotationAction"

record head =
  hd_HMAC :: string
  hd_Events :: nat
  hd_KeyID :: string

record verification =
  vf_Watermark :: string
  vf_Anchor :: head

record verifier =
  cv_keys :: "chain_key list"
  cv_v :: verification
  cv_floor :: nat
  cv_rotated :: bool
  cv_anchored :: bool
  cv_anchorKey :: "nat option"
  cv_prev :: string
  cv_last :: "nat option"
  cv_oldest :: int
  cv_sealing :: nat
  cv_index :: nat

fun index_of :: "('a \<Rightarrow> bool) \<Rightarrow> 'a list \<Rightarrow> nat option" where
  "index_of P [] = None"
| "index_of P (x # xs) = (if P x then Some 0 else map_option Suc (index_of P xs))"

definition newChainVerifier :: "chain_key list \<Rightarrow> nat \<Rightarrow> verification \<Rightarrow> al_error + verifier" where
  "newChainVerifier keys sealing v =
     (if keys = [] then Inl ErrNoChainKey
      else if \<not> list_all (\<lambda>k. length (ck_Key k) \<ge> MinChainKeyLen) keys then Inl ErrNoChainKey
      else
        let c = \<lparr> cv_keys = keys, cv_v = v, cv_floor = length keys - 1, cv_rotated = False, cv_anchored = False,
                  cv_anchorKey = None, cv_prev = [], cv_last = None, cv_oldest = -1, cv_sealing = sealing,
                  cv_index = 0 \<rparr>
        in if hd_HMAC (vf_Anchor v) = [] then Inr c
           else case index_of (\<lambda>k. ck_ID k = hd_KeyID (vf_Anchor v)) keys of
             Some i \<Rightarrow>
               Inr (c\<lparr>cv_anchorKey := Some i,
                      cv_anchored := constantTimeEqualHMAC (hd_HMAC (vf_Anchor v)) (vf_Watermark v)\<rparr>)
           | None \<Rightarrow> Inl ErrChainBroken)"

fun sealer_loop :: "mac_fn \<Rightarrow> event \<Rightarrow> string \<Rightarrow> nat \<Rightarrow> chain_key list \<Rightarrow> (nat \<times> bool) option" where
  "sealer_loop hmac canonical mac i [] = None"
| "sealer_loop hmac canonical mac i (k # ks) =
     (case sealedBy hmac k canonical mac of
        (True, keyed) \<Rightarrow> Some (i, keyed)
      | (False, _) \<Rightarrow> sealer_loop hmac canonical mac (Suc i) ks)"

definition sealer :: "mac_fn \<Rightarrow> chain_key list \<Rightarrow> event \<Rightarrow> (nat \<times> bool) option" where
  "sealer hmac keys e = sealer_loop hmac (eventWithoutHMAC e) (ev_HMAC e) 0 keys"

definition checkAnchor :: "event \<Rightarrow> nat \<Rightarrow> verifier \<Rightarrow> al_error + verifier" where
  "checkAnchor e i c =
     (if cv_anchored c then
        (if (case cv_anchorKey c of None \<Rightarrow> True | Some a \<Rightarrow> i > a) then Inl ErrChainBroken else Inr c)
      else case cv_anchorKey c of
        None \<Rightarrow> Inr c
      | Some a \<Rightarrow>
          if \<not> constantTimeEqualHMAC (ev_HMAC e) (hd_HMAC (vf_Anchor (cv_v c))) then Inr c
          else if i \<noteq> a then Inl ErrChainBroken
          else if vf_Watermark (cv_v c) = [] \<and> int (cv_index c) \<noteq> int (hd_Events (vf_Anchor (cv_v c))) - 1
            then Inl ErrChainBroken
          else Inr (c\<lparr>cv_anchored := True\<rparr>))"

definition link_ok :: "event \<Rightarrow> verifier \<Rightarrow> bool" where
  "link_ok e c =
     (if cv_index c = 0 then
        (if vf_Watermark (cv_v c) = [] then ev_PrevHMAC e = [] \<or> isZeroBytes (ev_PrevHMAC e)
         else constantTimeEqualHMAC (ev_PrevHMAC e) (vf_Watermark (cv_v c)))
      else constantTimeEqualHMAC (ev_PrevHMAC e) (cv_prev c))"

definition advance :: "event \<Rightarrow> nat \<Rightarrow> verifier \<Rightarrow> verifier" where
  "advance e i c =
     c\<lparr>cv_floor := i, cv_last := Some i, cv_oldest := max (cv_oldest c) (int i), cv_prev := ev_HMAC e,
       cv_index := Suc (cv_index c)\<rparr>"

definition vstep :: "mac_fn \<Rightarrow> event \<Rightarrow> verifier \<Rightarrow> al_error + verifier" where
  "vstep hmac e c =
     (if \<not> link_ok e c then Inl ErrChainBroken
      else case sealer hmac (cv_keys c) e of
        None \<Rightarrow> Inl ErrChainBroken
      | Some (i, keyed) \<Rightarrow>
          (case checkAnchor e i c of
             Inl err \<Rightarrow> Inl err
           | Inr c1 \<Rightarrow>
               if i > cv_floor c1 then Inl ErrChainBroken
               else if cv_rotated c1 \<and> \<not> keyed then Inl ErrChainBroken
               else if isRotation e then
                 (if \<not> keyed \<or> ev_Resource e \<noteq> rotationResource @ ck_ID (cv_keys c1 ! i) then Inl ErrChainBroken
                  else Inr (advance e i (c1\<lparr>cv_rotated := True\<rparr>)))
               else if cv_index c1 > 0 \<and> i < cv_floor c1 then Inl ErrChainBroken
               else Inr (advance e i c1)))"

fun vsteps :: "mac_fn \<Rightarrow> event list \<Rightarrow> verifier \<Rightarrow> al_error + verifier" where
  "vsteps hmac [] c = Inr c"
| "vsteps hmac (e # es) c = (case vstep hmac e c of Inl err \<Rightarrow> Inl err | Inr c' \<Rightarrow> vsteps hmac es c')"

definition finish :: "verifier \<Rightarrow> al_error + head" where
  "finish c =
     (case (cv_anchorKey c, cv_anchored c) of
        (Some a, False) \<Rightarrow>
          if vf_Watermark (cv_v c) \<noteq> [] \<and> cv_oldest c \<le> int a then Inl ErrAnchorPruned else Inl ErrChainBroken
      | _ \<Rightarrow>
          Inr (if cv_index c = 0
               then \<lparr> hd_HMAC = vf_Watermark (cv_v c), hd_Events = 0, hd_KeyID = ck_ID (cv_keys c ! cv_sealing c) \<rparr>
               else \<lparr> hd_HMAC = cv_prev c, hd_Events = cv_index c,
                      hd_KeyID = ck_ID (cv_keys c ! (case cv_last c of None \<Rightarrow> 0 | Some i \<Rightarrow> i)) \<rparr>))"

definition verify :: "mac_fn \<Rightarrow> nat \<Rightarrow> event list \<Rightarrow> chain_key list \<Rightarrow> verification \<Rightarrow> al_error + head" where
  "verify hmac sealing events keys v =
     (case newChainVerifier keys sealing v of
        Inl err \<Rightarrow> Inl err
      | Inr c \<Rightarrow> (case vsteps hmac events c of Inl err \<Rightarrow> Inl err | Inr c' \<Rightarrow> finish c'))"

definition VerifyChainKeys :: "mac_fn \<Rightarrow> event list \<Rightarrow> chain_key list \<Rightarrow> verification \<Rightarrow> al_error + head" where
  "VerifyChainKeys hmac events keys v = verify hmac 0 events keys v"

definition no_anchor :: head where
  "no_anchor = \<lparr> hd_HMAC = [], hd_Events = 0, hd_KeyID = [] \<rparr>"

definition VerifyChainFrom :: "mac_fn \<Rightarrow> event list \<Rightarrow> byte list \<Rightarrow> string \<Rightarrow> al_error option" where
  "VerifyChainFrom hmac events chainKey watermark =
     (case VerifyChainKeys hmac events [\<lparr> ck_ID = [], ck_Key = chainKey \<rparr>]
             \<lparr> vf_Watermark = watermark, vf_Anchor = no_anchor \<rparr> of
        Inl err \<Rightarrow> Some err
      | Inr _ \<Rightarrow> None)"

definition VerifyChain :: "mac_fn \<Rightarrow> event list \<Rightarrow> byte list \<Rightarrow> al_error option" where
  "VerifyChain hmac events chainKey = VerifyChainFrom hmac events chainKey []"

section \<open>The encoding is unambiguous\<close>

lemma char_of_inj: "m < 256 \<Longrightarrow> n < 256 \<Longrightarrow> char_of m = (char_of n :: char) \<longleftrightarrow> m = n" for m n :: nat
  by (metis mod_less of_char_of)

lemma char_of_div_inj:
  "(char_of (m :: nat) :: char) = char_of n \<longleftrightarrow> m mod 256 = n mod 256"
  by (metis char_of_mod_256 mod_less_divisor char_of_inj zero_less_numeral)

lemma digits_inj:
  fixes m n :: nat
  assumes "m < 256 ^ w" and "n < 256 ^ w" and "\<forall>k < w. m div 256 ^ k mod 256 = n div 256 ^ k mod 256"
  shows "m = n"
  using assms
proof (induction w arbitrary: m n)
  case 0
  then show ?case by simp
next
  case (Suc w)
  have low: "m mod 256 = n mod 256" using Suc.prems(3) [rule_format, of 0] by simp
  have "m div 256 = n div 256"
  proof (rule Suc.IH)
    show "m div 256 < 256 ^ w" "n div 256 < 256 ^ w"
      using Suc.prems(1,2) by (auto intro: div_less_mono simp: less_mult_imp_div_less mult.commute)
    show "\<forall>k < w. m div 256 div 256 ^ k mod 256 = n div 256 div 256 ^ k mod 256"
      using Suc.prems(3) by (auto simp: div_mult2_eq [symmetric] simp flip: power_Suc)
  qed
  with low show ?case by (metis mult_div_mod_eq)
qed

lemma char_digits_inj:
  fixes m n :: nat
  assumes "m < 256 ^ w" and "n < 256 ^ w" and "{..<w} \<subseteq> set ks"
    and "map (\<lambda>k. char_of (m div 256 ^ k) :: char) ks = map (\<lambda>k. char_of (n div 256 ^ k)) ks"
  shows "m = n"
proof (rule digits_inj [OF assms(1,2)], intro allI impI)
  fix k assume "k < w"
  then have "k \<in> set ks" using assms(3) by auto
  then show "m div 256 ^ k mod 256 = n div 256 ^ k mod 256"
    using assms(4) by (simp add: char_of_div_inj)
qed

lemma below_4: "{..<4 :: nat} \<subseteq> set [3, 2, 1, 0]"
  by (simp add: subset_iff, presburger)

lemma below_8: "{..<8 :: nat} \<subseteq> set [7, 6, 5, 4, 3, 2, 1, 0]"
  by (simp add: subset_iff, presburger)

lemma PutUint32_inj: "m < 2 ^ 32 \<Longrightarrow> n < 2 ^ 32 \<Longrightarrow> PutUint32 m = PutUint32 n \<longleftrightarrow> m = n"
  using char_digits_inj [OF _ _ below_4, of m n] unfolding PutUint32_def by (auto simp del: list.map)

lemma PutUint64_inj: "m < 2 ^ 64 \<Longrightarrow> n < 2 ^ 64 \<Longrightarrow> PutUint64 m = PutUint64 n \<longleftrightarrow> m = n"
  using char_digits_inj [OF _ _ below_8, of m n] unfolding PutUint64_def by (auto simp del: list.map)

lemma length_be [simp]: "length (PutUint32 n) = 4" "length (PutUint64 n) = 8"
  by (simp_all add: PutUint32_def PutUint64_def)

definition lp :: "string \<Rightarrow> string" where
  "lp x = PutUint32 (length x mod 2 ^ 32) @ x"

definition nano :: "time \<Rightarrow> string" where
  "nano t = PutUint64 (nat (t mod 2 ^ 64))"

lemma lp_append_inj:
  assumes "length x < 2 ^ 32" and "length y < 2 ^ 32"
  shows "lp x @ r = lp y @ s \<longleftrightarrow> x = y \<and> r = s"
  using assms by (auto simp: lp_def append_eq_append_conv PutUint32_inj)

text \<open>Events of a size a process can hold: every field is shorter than two gigabytes.\<close>

definition ev_small :: "event \<Rightarrow> bool" where
  "ev_small e \<longleftrightarrow>
     list_all (\<lambda>x. length x < 2 ^ 31) [ev_ID e, ev_Actor e, ev_Tenant e, ev_Action e, ev_Resource e, ev_Status e,
       ev_IPAddress e, ev_Metadata e, ev_TraceID e, ev_PrevHMAC e]"

text \<open>
  What the encoding keeps of an event: everything, but of its time, in nanoseconds, only the lower 64 bits.  Times
  that \<^verbatim>\<open>UnixNano\<close> can represent are kept exactly.
\<close>

definition stamped :: "event \<Rightarrow> event" where
  "stamped e = e\<lparr>ev_Timestamp := ev_Timestamp e mod 2 ^ 64\<rparr>"

lemma stamped_time:
  assumes "in_i64 t" and "in_i64 u" and "t mod 2 ^ 64 = u mod 2 ^ 64"
  shows "t = u"
proof -
  have "2 ^ 64 dvd t - u" using assms(3) by (simp add: mod_eq_dvd_iff)
  moreover have "\<bar>t - u\<bar> < 2 ^ 64" using assms(1,2) by (auto simp: in_i64_def abs_less_iff)
  ultimately show "t = u" using dvd_imp_le_int [of "t - u" "2 ^ 64"] by fastforce
qed

lemma stamped_exact:
  assumes "stamped e = stamped e'" and "in_i64 (ev_Timestamp e)" and "in_i64 (ev_Timestamp e')"
  shows "e = e'"
proof -
  have f: "ev_Timestamp e = ev_Timestamp e'"
    using assms stamped_time [of "ev_Timestamp e" "ev_Timestamp e'"] unfolding stamped_def
    by (metis event.select_convs(2) event.surjective event.update_convs(2))
  show ?thesis using assms(1) f unfolding stamped_def by (cases e; cases e') simp
qed

text \<open>What a key with an ID, or without one, authenticates.\<close>

definition mac_input :: "event \<Rightarrow> string \<Rightarrow> string" where
  "mac_input e keyID =
     canonicalEvent e @ (if keyID = [] then [] else keyIDTag @ appendLenPrefixed [] keyID)"

lemma computeKeyedHMAC_input: "computeKeyedHMAC hmac k keyID e = hmac k (mac_input e keyID)"
  by (simp add: computeKeyedHMAC_def computeHMAC_def mac_input_def)

lemma computeHMAC_input: "computeHMAC hmac k e = hmac k (mac_input e [])"
  by (simp add: computeHMAC_def mac_input_def)

definition ev_fields :: "event \<Rightarrow> string" where
  "ev_fields e = lp (ev_PrevHMAC e) @ lp (ev_ID e) @ nano (ev_Timestamp e) @ lp (ev_Actor e)
     @ lp (ev_Action e) @ lp (ev_Resource e) @ lp (ev_Status e) @ lp (ev_IPAddress e) @ lp (ev_TraceID e)
     @ lp (ev_Metadata e) @ lp (ev_PrevHMAC e)"

definition kid_suffix :: "string \<Rightarrow> string" where
  "kid_suffix keyID = (if keyID = [] then [] else keyIDTag @ lp keyID)"

definition ev_tail :: "event \<Rightarrow> string \<Rightarrow> string" where
  "ev_tail e keyID = (if ev_Tenant e \<noteq> [] \<or> ev_Format e \<noteq> 0 then lp (ev_Tenant e) else []) @ kid_suffix keyID"

lemma mac_input_parts:
  "mac_input e keyID =
     (if ev_Format e \<noteq> 0 then formatHeader @ [char_of (unat (ev_Format e))] else []) @ ev_fields e @ ev_tail e keyID"
  by (simp add: mac_input_def canonicalEvent_def Let_def appendLenPrefixed_def appendUnixNano_def ev_fields_def ev_tail_def kid_suffix_def lp_def nano_def)

lemma nano_append_inj: "nano t @ r = nano u @ s \<longleftrightarrow> t mod 2 ^ 64 = u mod 2 ^ 64 \<and> r = s"
proof -
  have "nat (t mod 2 ^ 64) < 2 ^ 64" "nat (u mod 2 ^ 64) < 2 ^ 64" by (simp_all add: nat_less_iff)
  then have "nano t = nano u \<longleftrightarrow> nat (t mod 2 ^ 64) = nat (u mod 2 ^ 64)"
    unfolding nano_def by (rule PutUint64_inj)
  also have "\<dots> \<longleftrightarrow> t mod 2 ^ 64 = u mod 2 ^ 64" by (rule eq_nat_nat_iff) simp_all
  finally show ?thesis by (auto simp: nano_def append_eq_append_conv)
qed

text \<open>The time wraps around: an event moved by \<open>2 ^ 64\<close> nanoseconds, about 584 years, has the same encoding.\<close>

lemma canonicalEvent_wraps:
  "canonicalEvent (e\<lparr>ev_Timestamp := ev_Timestamp e + 2 ^ 64 * k\<rparr>) = canonicalEvent e"
  by (simp add: canonicalEvent_def appendUnixNano_def Let_def)

lemma small_field:
  assumes "ev_small e"
  shows "length (ev_ID e) < 2 ^ 32" "length (ev_Actor e) < 2 ^ 32" "length (ev_Tenant e) < 2 ^ 32"
    "length (ev_Action e) < 2 ^ 32" "length (ev_Resource e) < 2 ^ 32" "length (ev_Status e) < 2 ^ 32"
    "length (ev_IPAddress e) < 2 ^ 32" "length (ev_Metadata e) < 2 ^ 32" "length (ev_TraceID e) < 2 ^ 32"
    "length (ev_PrevHMAC e) < 2 ^ 32"
  using assms by (simp_all add: ev_small_def)

lemma ev_fields_inj:
  assumes "ev_small e" and "ev_small e'" and "ev_fields e @ r = ev_fields e' @ r'"
  shows "ev_PrevHMAC e = ev_PrevHMAC e' \<and> ev_ID e = ev_ID e' \<and> ev_Timestamp e mod 2 ^ 64 = ev_Timestamp e' mod 2 ^ 64
    \<and> ev_Actor e = ev_Actor e' \<and> ev_Action e = ev_Action e' \<and> ev_Resource e = ev_Resource e'
    \<and> ev_Status e = ev_Status e' \<and> ev_IPAddress e = ev_IPAddress e' \<and> ev_TraceID e = ev_TraceID e'
    \<and> ev_Metadata e = ev_Metadata e' \<and> r = r'"
  using assms(3) small_field [OF assms(1)] small_field [OF assms(2)]
  by (simp add: ev_fields_def lp_append_inj nano_append_inj del: power_numeral)

text \<open>A length never starts with the byte that opens a format header or a key-ID tag.\<close>

lemma lp_no_tag:
  assumes "length x < 2 ^ 31"
  shows "lp x @ r \<noteq> CHR 0xFF # s"
proof -
  have "length x div 256 ^ 3 < 128" using assms by (simp add: less_mult_imp_div_less)
  then have "of_char (char_of (length x div 256 ^ 3) :: char) \<noteq> (of_char (CHR 0xFF) :: nat)"
    by (simp add: of_char_of)
  then have "(char_of (length x div 256 ^ 3) :: char) \<noteq> CHR 0xFF" by metis
  then show ?thesis using assms by (simp add: lp_def PutUint32_def)
qed

lemma lp_not_Nil [simp]: "lp x \<noteq> []"
  by (simp add: lp_def PutUint32_def)

lemma kid_suffix_inj:
  assumes "length i < 2 ^ 31" and "length j < 2 ^ 31"
  shows "kid_suffix i = kid_suffix j \<longleftrightarrow> i = j"
  using assms lp_append_inj [of i j "[]" "[]"] by (auto simp: kid_suffix_def keyIDTag_def)

lemma kid_suffix_lp:
  assumes "length t < 2 ^ 31"
  shows "kid_suffix i \<noteq> lp t @ r"
  using lp_no_tag [OF assms, of r] by (auto simp: kid_suffix_def keyIDTag_def dest: sym)

lemma ev_tail_inj:
  assumes "ev_small e" and "ev_small e'" and "length i < 2 ^ 31" and "length j < 2 ^ 31"
    and "ev_Format e = ev_Format e'" and "ev_tail e i = ev_tail e' j"
  shows "ev_Tenant e = ev_Tenant e' \<and> i = j"
proof -
  have t: "length (ev_Tenant e) < 2 ^ 31" "length (ev_Tenant e') < 2 ^ 31"
    using assms(1,2) by (simp_all add: ev_small_def)
  note rules = kid_suffix_inj [OF assms(3,4)] kid_suffix_lp [OF t(1)] kid_suffix_lp [OF t(2)]
    kid_suffix_lp [OF t(1), symmetric] kid_suffix_lp [OF t(2), symmetric]
    lp_append_inj [OF small_field(3) [OF assms(1)] small_field(3) [OF assms(2)]]
  show ?thesis
    using assms(5,6) unfolding ev_tail_def by (auto simp: rules simp del: power_numeral split: if_splits)
qed

lemma format_inj:
  assumes "ev_small e" and "ev_small e'" and "mac_input e i = mac_input e' j"
  shows "ev_Format e = ev_Format e' \<and> ev_fields e @ ev_tail e i = ev_fields e' @ ev_tail e' j"
proof -
  have first: "ev_fields x @ r \<noteq> CHR 0xFF # s" if "ev_small x" for x r s
    using lp_no_tag [of "ev_PrevHMAC x"] that by (simp add: ev_fields_def ev_small_def)
  have fm: "unat (ev_Format x) mod 256 = unat (ev_Format x)" for x :: event
    using unsigned_less [of "ev_Format x", where ?'a = nat] by simp
  show ?thesis
    using assms(3) first [OF assms(1)] first [OF assms(2)] fm [of e] fm [of e']
    by (auto simp: mac_input_parts formatHeader_def word_unat_eq_iff split: if_splits dest: sym)
qed

lemma mac_input_inj:
  assumes "ev_small e" and "ev_small e'" and "length i < 2 ^ 31" and "length j < 2 ^ 31"
    and "mac_input e i = mac_input e' j"
  shows "stamped (eventWithoutHMAC e) = stamped (eventWithoutHMAC e') \<and> i = j"
proof -
  note f = format_inj [OF assms(1,2,5)]
  then have "ev_tail e i = ev_tail e' j" and same: "ev_PrevHMAC e = ev_PrevHMAC e' \<and> ev_ID e = ev_ID e' \<and> ev_Timestamp e mod 2 ^ 64 = ev_Timestamp e' mod 2 ^ 64
    \<and> ev_Actor e = ev_Actor e' \<and> ev_Action e = ev_Action e' \<and> ev_Resource e = ev_Resource e'
    \<and> ev_Status e = ev_Status e' \<and> ev_IPAddress e = ev_IPAddress e' \<and> ev_TraceID e = ev_TraceID e'
    \<and> ev_Metadata e = ev_Metadata e'"
    using ev_fields_inj [OF assms(1,2)] by blast+
  then have t: "ev_Tenant e = ev_Tenant e' \<and> i = j" using ev_tail_inj [OF assms(1-4)] f by blast
  show ?thesis using f same t unfolding eventWithoutHMAC_def stamped_def by (intro conjI event.equality) simp_all
qed

section \<open>Sealed events\<close>

lemma mac_input_eventWithoutHMAC [simp]: "mac_input (eventWithoutHMAC e) i = mac_input e i"
  by (simp add: mac_input_parts eventWithoutHMAC_def ev_fields_def ev_tail_def)

lemma constantTimeEqualHMAC_eq [simp]: "constantTimeEqualHMAC a b \<longleftrightarrow> a = b"
  by (auto simp: constantTimeEqualHMAC_def)

definition kid :: "chain_key list \<Rightarrow> nat \<Rightarrow> bool \<Rightarrow> string" where
  "kid keys i keyed = (if keyed then ck_ID (keys ! i) else [])"

lemma sealedBy_iff:
  "sealedBy hmac k e mac = (True, keyed) \<longleftrightarrow>
     (if keyed then ck_ID k \<noteq> [] \<and> mac = hmac (ck_Key k) (mac_input e (ck_ID k))
      else (ck_ID k \<noteq> [] \<longrightarrow> mac \<noteq> hmac (ck_Key k) (mac_input e (ck_ID k))) \<and> mac = hmac (ck_Key k) (mac_input e []))"
  by (auto simp: sealedBy_def computeKeyedHMAC_input computeHMAC_input)

lemma sealer_loop_Some:
  assumes "sealer_loop hmac e mac n ks = Some (i, keyed)"
  shows "n \<le> i \<and> i - n < length ks \<and> sealedBy hmac (ks ! (i - n)) e mac = (True, keyed)"
  using assms
proof (induction ks arbitrary: n)
  case (Cons k ks)
  obtain matched kd where k: "sealedBy hmac k e mac = (matched, kd)" by fastforce
  show ?case
  proof (cases matched)
    case True
    then show ?thesis using Cons.prems k by simp
  next
    case False
    then have "Suc n \<le> i \<and> i - Suc n < length ks \<and> sealedBy hmac (ks ! (i - Suc n)) e mac = (True, keyed)"
      using Cons.IH [of "Suc n"] Cons.prems k by simp
    moreover from this have "i - n = Suc (i - Suc n)" by arith
    ultimately show ?thesis by simp
  qed
qed simp

lemma sealer_Some:
  assumes "sealer hmac keys e = Some (i, keyed)"
  shows "i < length keys" and "ev_HMAC e = hmac (ck_Key (keys ! i)) (mac_input e (kid keys i keyed))"
    and "keyed \<Longrightarrow> ck_ID (keys ! i) \<noteq> []"
  using sealer_loop_Some [OF assms [unfolded sealer_def]]
  by (auto simp: sealedBy_iff kid_def split: if_splits)

text \<open>
  What the chain relies on of HMAC-SHA256: no two different inputs, of those the keys and the events at
  hand give rise to, have the same MAC, and a MAC is never empty.
\<close>

definition chain_inputs :: "chain_key list \<Rightarrow> event set \<Rightarrow> (byte list \<times> string) set" where
  "chain_inputs keys E = {(ck_Key k, mac_input e i) | k e i. k \<in> set keys \<and> e \<in> E \<and> i \<in> insert [] (ck_ID ` set keys)}"

definition mac_separates :: "mac_fn \<Rightarrow> chain_key list \<Rightarrow> event set \<Rightarrow> bool" where
  "mac_separates hmac keys E \<longleftrightarrow>
     inj_on (\<lambda>(k, x). hmac k x) (chain_inputs keys E) \<and> (\<forall>k x. hmac k x \<noteq> [])
     \<and> (\<forall>e \<in> E. ev_small e) \<and> (\<forall>k \<in> set keys. length (ck_ID k) < 2 ^ 31)"

lemma sealed_input:
  assumes "sealer hmac keys e = Some (i, keyed)" and "set keys \<subseteq> set all" and "e \<in> E"
  shows "(ck_Key (keys ! i), mac_input e (kid keys i keyed)) \<in> chain_inputs all E"
  using sealer_Some(1) [OF assms(1)] assms(2,3) by (force simp: chain_inputs_def kid_def)

lemma same_HMAC_same_event:
  assumes sep: "mac_separates hmac all E" and "e \<in> E" "e' \<in> E" "set keys \<subseteq> set all" "set keys' \<subseteq> set all"
    and s: "sealer hmac keys e = Some (i, b)" "sealer hmac keys' e' = Some (i', b')" and "ev_HMAC e = ev_HMAC e'"
  shows "stamped e = stamped e'"
proof -
  have "hmac (ck_Key (keys ! i)) (mac_input e (kid keys i b)) = hmac (ck_Key (keys' ! i')) (mac_input e' (kid keys' i' b'))"
    using sealer_Some(2) [OF s(1)] sealer_Some(2) [OF s(2)] assms(8) by metis
  then have "mac_input e (kid keys i b) = mac_input e' (kid keys' i' b')"
    using sep inj_onD [OF _ _ sealed_input [OF s(1) assms(4,2)] sealed_input [OF s(2) assms(5,3)], of "\<lambda>(k, x). hmac k x"]
    by (simp add: mac_separates_def)
  moreover have "keys ! i \<in> set all" "keys' ! i' \<in> set all"
    using sealer_Some(1) [OF s(1)] sealer_Some(1) [OF s(2)] assms(4,5) by auto
  then have "length (kid keys i b) < 2 ^ 31" "length (kid keys' i' b') < 2 ^ 31"
    using sep by (auto simp: mac_separates_def kid_def)
  ultimately have "stamped (eventWithoutHMAC e) = stamped (eventWithoutHMAC e')"
    using mac_input_inj [of e e'] sep assms(2,3) by (auto simp: mac_separates_def)
  then show ?thesis using assms(8) unfolding eventWithoutHMAC_def stamped_def by (cases e; cases e') simp
qed

section \<open>What an accepted chain looks like\<close>

lemma checkAnchor_cases:
  assumes "checkAnchor e i c = Inr c'"
  shows "c' = c \<or> \<not> cv_anchored c \<and> c' = c\<lparr>cv_anchored := True\<rparr> \<and> cv_anchorKey c = Some i
    \<and> ev_HMAC e = hd_HMAC (vf_Anchor (cv_v c))
    \<and> (vf_Watermark (cv_v c) = [] \<longrightarrow> Suc (cv_index c) = hd_Events (vf_Anchor (cv_v c)))"
  using assms by (auto simp: checkAnchor_def split: if_splits option.splits)

lemma vstep_cases:
  assumes "vstep hmac e c = Inr c'"
  obtains i keyed c1 rot where "link_ok e c" "sealer hmac (cv_keys c) e = Some (i, keyed)" "checkAnchor e i c = Inr c1"
    "i \<le> cv_floor c" "cv_rotated c \<longrightarrow> keyed" "isRotation e \<longrightarrow> rot \<and> keyed"
    "\<not> isRotation e \<longrightarrow> rot = cv_rotated c \<and> (cv_index c = 0 \<or> i = cv_floor c)"
    "c' = advance e i (c1\<lparr>cv_rotated := rot\<rparr>)"
proof -
  obtain i keyed c1 where *: "link_ok e c" "sealer hmac (cv_keys c) e = Some (i, keyed)" "checkAnchor e i c = Inr c1"
    using assms by (auto simp: vstep_def split: if_splits option.splits sum.splits)
  have same: "cv_floor c1 = cv_floor c" "cv_rotated c1 = cv_rotated c" "cv_index c1 = cv_index c"
    using checkAnchor_cases [OF *(3)] by auto
  have idem: "c1\<lparr>cv_rotated := cv_rotated c\<rparr> = c1" using same by simp
  show ?thesis
  proof (cases "isRotation e")
    case True
    then show ?thesis
      using assms * same by (intro that [OF *, of True]) (auto simp: vstep_def split: if_splits)
  next
    case False
    then have "c' = advance e i c1" "i \<le> cv_floor c" "cv_rotated c \<longrightarrow> keyed" "cv_index c = 0 \<or> i = cv_floor c"
      using assms * same by (auto simp: vstep_def split: if_splits)
    then show ?thesis using False by (intro that [OF *, of "cv_rotated c"]) (simp_all add: idem)
  qed
qed

lemma vstep_state:
  assumes "vstep hmac e c = Inr c'"
  shows "cv_keys c' = cv_keys c" "cv_v c' = cv_v c" "cv_index c' = Suc (cv_index c)" "cv_prev c' = ev_HMAC e"
    "cv_anchorKey c' = cv_anchorKey c" "cv_sealing c' = cv_sealing c"
    "cv_anchored c' \<Longrightarrow> cv_anchored c \<or> ev_HMAC e = hd_HMAC (vf_Anchor (cv_v c))
      \<and> (vf_Watermark (cv_v c) = [] \<longrightarrow> Suc (cv_index c) = hd_Events (vf_Anchor (cv_v c)))"
  using assms by (cases rule: vstep_cases; auto simp: advance_def dest!: checkAnchor_cases)+

lemma vsteps_append:
  "vsteps hmac (xs @ ys) c = (case vsteps hmac xs c of Inl err \<Rightarrow> Inl err | Inr c' \<Rightarrow> vsteps hmac ys c')"
  by (induction xs arbitrary: c) (auto split: sum.split)

text \<open>Each event is sealed by a listed key and links to the one before it.\<close>

definition sealed :: "mac_fn \<Rightarrow> chain_key list \<Rightarrow> event \<Rightarrow> bool" where
  "sealed hmac keys e \<longleftrightarrow> sealer hmac keys e \<noteq> None"

fun linked :: "event list \<Rightarrow> bool" where
  "linked (e # e' # es) \<longleftrightarrow> ev_PrevHMAC e' = ev_HMAC e \<and> linked (e' # es)"
| "linked _ \<longleftrightarrow> True"

lemma vsteps_sealed:
  assumes "vsteps hmac es c = Inr c'"
  shows "list_all (sealed hmac (cv_keys c)) es" and "linked es"
    and "cv_index c > 0 \<Longrightarrow> es \<noteq> [] \<Longrightarrow> ev_PrevHMAC (hd es) = cv_prev c"
proof -
  have "list_all (sealed hmac (cv_keys c)) es \<and> linked es
    \<and> (cv_index c > 0 \<longrightarrow> es \<noteq> [] \<longrightarrow> ev_PrevHMAC (hd es) = cv_prev c)"
    using assms
  proof (induction es arbitrary: c)
    case (Cons e es)
    then obtain d where d: "vstep hmac e c = Inr d" "vsteps hmac es d = Inr c'" by (auto split: sum.splits)
    have "sealed hmac (cv_keys c) e \<and> link_ok e c"
      using d(1) by (cases rule: vstep_cases) (simp add: sealed_def)
    then show ?case
      using Cons.IH [OF d(2)] vstep_state [OF d(1)] by (cases es) (auto simp: link_ok_def)
  qed simp
  then show "list_all (sealed hmac (cv_keys c)) es" and "linked es"
    and "cv_index c > 0 \<Longrightarrow> es \<noteq> [] \<Longrightarrow> ev_PrevHMAC (hd es) = cv_prev c" by auto
qed

lemma vsteps_state:
  assumes "vsteps hmac es c = Inr c'"
  shows "cv_keys c' = cv_keys c \<and> cv_v c' = cv_v c \<and> cv_index c' = cv_index c + length es
    \<and> cv_anchorKey c' = cv_anchorKey c \<and> cv_sealing c' = cv_sealing c
    \<and> (es \<noteq> [] \<longrightarrow> cv_prev c' = ev_HMAC (last es))"
  using assms
proof (induction es arbitrary: c)
  case (Cons e es)
  then obtain d where d: "vstep hmac e c = Inr d" "vsteps hmac es d = Inr c'" by (auto split: sum.splits)
  show ?case using Cons.IH [OF d(2)] vstep_state [OF d(1)] d(2) by (cases es) auto
qed simp

text \<open>The anchored event is in the chain, at the anchored position when nothing was pruned.\<close>

lemma vsteps_anchor:
  assumes "vsteps hmac es c = Inr c'" and "cv_anchored c'" and "\<not> cv_anchored c" and "vf_Watermark (cv_v c) = []"
  shows "\<exists>n < length es. ev_HMAC (es ! n) = hd_HMAC (vf_Anchor (cv_v c))
    \<and> Suc (cv_index c + n) = hd_Events (vf_Anchor (cv_v c))"
  using assms
proof (induction es arbitrary: c)
  case (Cons e es)
  then obtain d where d: "vstep hmac e c = Inr d" "vsteps hmac es d = Inr c'" by (auto split: sum.splits)
  note st = vstep_state [OF d(1)]
  show ?case
  proof (cases "cv_anchored d")
    case True
    then show ?thesis using st(7) Cons.prems(3,4) by (intro exI [of _ 0]) auto
  next
    case False
    then obtain n where "n < length es" "ev_HMAC (es ! n) = hd_HMAC (vf_Anchor (cv_v c))"
      "Suc (cv_index d + n) = hd_Events (vf_Anchor (cv_v c))"
      using Cons.IH [OF d(2) Cons.prems(2)] Cons.prems(4) st(2) by auto
    then show ?thesis using st(3) by (intro exI [of _ "Suc n"]) auto
  qed
qed simp

end
