(* ===== verification/Audit_Log.thy ===== *)
theory Audit_Log
  imports Audit_Chain
begin

text \<open>
  The logger of \<^verbatim>\<open>observability/auditlog\<close> (\<^verbatim>\<open>auditlog.go\<close>, \<^verbatim>\<open>seal.go\<close>, \<^verbatim>\<open>rotation.go\<close>) over the memory store
  (\<^verbatim>\<open>memory.go\<close>, \<^verbatim>\<open>tail.go\<close>) and the retention sweep of \<^verbatim>\<open>postgres/store.go\<close>.

  A store is the list of its events in the order of appending.  New ids, the clock, the trace id of the
  context, JSON, the parser of addresses and the answer of the context are fields of \<open>al_env\<close>, indexed by
  the place in the call; \<open>ae_others\<close> is what other replicas append before the \<open>n\<close>-th append of a call.
  Search, listing, drop hooks and logging are left out.
\<close>

section \<open>Validation\<close>

definition MaxEventIDBytes :: nat where "MaxEventIDBytes = 36"

definition MaxActorBytes :: nat where "MaxActorBytes = 255"

definition MaxTenantBytes :: nat where "MaxTenantBytes = 255"

definition MaxActionBytes :: nat where "MaxActionBytes = 255"

definition MaxResourceBytes :: nat where "MaxResourceBytes = 2048"

definition MaxStatusBytes :: nat where "MaxStatusBytes = 32"

definition MaxIPAddressBytes :: nat where "MaxIPAddressBytes = 64"

definition MaxTraceIDBytes :: nat where "MaxTraceIDBytes = 32"

definition MaxMetadataBytes :: nat where "MaxMetadataBytes = 65536"

definition isSafeLogToken :: "string \<Rightarrow> nat \<Rightarrow> bool" where
  "isSafeLogToken v maxBytes \<longleftrightarrow>
     (if v = [] \<or> length v > maxBytes then False
      else case runes v of
        None \<Rightarrow> False
      | Some rs \<Rightarrow> \<not> list_ex (\<lambda>r. is_control r \<or> is_space r) rs)"

definition validateStatus :: "string \<Rightarrow> bool" where
  "validateStatus status \<longleftrightarrow>
     (if status = [] then False
      else if length status > MaxStatusBytes \<or> \<not> isSafeLogToken status MaxStatusBytes then False
      else status \<in> set [''success'', ''failure'', ''denied''])"

definition isLowerHex :: "string \<Rightarrow> bool" where
  "isLowerHex v = list_all (\<lambda>c. c \<in> set ''0123456789abcdef'') v"

record al_env =
  ae_newID :: "nat \<Rightarrow> string"
  ae_now :: "nat \<Rightarrow> time"
  ae_canon :: "string \<Rightarrow> string option"
  ae_trace :: string
  ae_parseAddr :: "string \<Rightarrow> bool"
  ae_jsonValid :: "string \<Rightarrow> bool"
  ae_ctx :: "nat \<Rightarrow> ctx_error option"
  ae_others :: "nat \<Rightarrow> event list \<Rightarrow> event list"

definition ValidateEvent :: "al_env \<Rightarrow> event \<Rightarrow> al_error option" where
  "ValidateEvent E e =
     (if is_zero (ev_Timestamp e) then Some ErrInvalidEvent
      else if \<not> isSafeLogToken (ev_ID e) MaxEventIDBytes then Some ErrInvalidEvent
      else if \<not> isSafeLogToken (ev_Actor e) MaxActorBytes then Some ErrInvalidEvent
      else if ev_Tenant e \<noteq> [] \<and> \<not> isSafeLogToken (ev_Tenant e) MaxTenantBytes then Some ErrInvalidEvent
      else if \<not> isSafeLogToken (ev_Action e) MaxActionBytes then Some ErrInvalidEvent
      else if \<not> isSafeLogToken (ev_Resource e) MaxResourceBytes then Some ErrInvalidEvent
      else if \<not> validateStatus (ev_Status e) then Some ErrInvalidEvent
      else if ev_IPAddress e \<noteq> [] \<and>
           (length (ev_IPAddress e) > MaxIPAddressBytes \<or> \<not> valid_string (ev_IPAddress e)
            \<or> \<not> ae_parseAddr E (ev_IPAddress e)) then Some ErrInvalidEvent
      else if ev_TraceID e \<noteq> [] \<and> (length (ev_TraceID e) \<noteq> MaxTraceIDBytes \<or> \<not> isLowerHex (ev_TraceID e))
        then Some ErrInvalidEvent
      else if length (ev_Metadata e) > MaxMetadataBytes then Some ErrInvalidEvent
      else if ev_Metadata e \<noteq> [] \<and> \<not> ae_jsonValid E (ev_Metadata e) then Some ErrInvalidEvent
      else None)"

section \<open>The memory store\<close>

definition zero_event :: event where
  "zero_event =
     \<lparr> ev_ID = [], ev_Timestamp = zero_time, ev_Actor = [], ev_Tenant = [], ev_Action = [], ev_Resource = [],
       ev_Status = [], ev_IPAddress = [], ev_Metadata = [], ev_TraceID = [], ev_Format = 0,
       ev_PrevHMAC = [], ev_HMAC = [] \<rparr>"

definition chain_head :: "event list \<Rightarrow> event" where
  "chain_head events = (if events = [] then zero_event else last events)"

text \<open>The error of \<open>build\<close> is passed on as it is; \<open>Inl ErrAuditStore\<close> stands for every error of the store itself.\<close>

definition AppendChained ::
    "al_env \<Rightarrow> ctx_error option \<Rightarrow> (event \<Rightarrow> al_error + event) \<Rightarrow> event list \<Rightarrow> (al_error option \<times> event list)" where
  "AppendChained E cerr build events =
     (if cerr \<noteq> None then (Some ErrAuditStore, events)
      else case build (chain_head events) of
        Inl err \<Rightarrow> (Some err, events)
      | Inr e \<Rightarrow>
          (case ValidateEvent E e of
             Some err \<Rightarrow> (Some ErrAuditStore, events)
           | None \<Rightarrow> (None, events @ [e])))"

definition mem_Append :: "al_env \<Rightarrow> ctx_error option \<Rightarrow> event \<Rightarrow> event list \<Rightarrow> bool \<times> event list" where
  "mem_Append E cerr e events =
     (if cerr \<noteq> None then (False, events)
      else if ValidateEvent E e \<noteq> None then (False, events)
      else (True, events @ [e]))"

definition LastHMAC :: "ctx_error option \<Rightarrow> event list \<Rightarrow> ctx_error + string" where
  "LastHMAC cerr events =
     (case cerr of
        Some err \<Rightarrow> Inl err
      | None \<Rightarrow> Inr (if events = [] then [] else ev_HMAC (last events)))"

definition mem_Head :: "ctx_error option \<Rightarrow> event list \<Rightarrow> ctx_error + (event \<times> bool)" where
  "mem_Head cerr events =
     (case cerr of
        Some err \<Rightarrow> Inl err
      | None \<Rightarrow> Inr (if events = [] then (zero_event, False) else (last events, True)))"

text \<open>The loop of \<^verbatim>\<open>Tail\<close> from index \<open>i\<close>; \<open>rest\<close> are the events from there on.\<close>

fun tail_loop :: "string \<Rightarrow> nat \<Rightarrow> nat \<Rightarrow> event list \<Rightarrow> event list \<Rightarrow> nat \<Rightarrow> event list \<times> nat" where
  "tail_loop tenant limit i [] acc pos = (acc, pos)"
| "tail_loop tenant limit i (e # rest) acc pos =
     (if length acc < limit
      then tail_loop tenant limit (Suc i) rest
             (if tenant = [] \<or> ev_Tenant e = tenant then acc @ [e] else acc) (Suc i)
      else (acc, pos))"

definition mem_Tail ::
    "ctx_error option \<Rightarrow> string \<Rightarrow> nat \<Rightarrow> nat \<Rightarrow> event list \<Rightarrow> al_error option \<times> event list \<times> nat" where
  "mem_Tail cerr tenant after limit events =
     (if cerr \<noteq> None then (Some ErrAuditStore, [], after)
      else (None, tail_loop tenant limit after (drop after events) [] after))"

definition MaxPageLimit :: int where
  "MaxPageLimit = 10000"

definition DefaultTailLimit :: int where
  "DefaultTailLimit = 500"

text \<open>\<^verbatim>\<open>Logger.Tail\<close> over the memory store, which is a \<^verbatim>\<open>Tailer\<close>.\<close>

definition al_Tail ::
    "ctx_error option \<Rightarrow> string \<Rightarrow> int \<Rightarrow> int \<Rightarrow> event list \<Rightarrow> al_error option \<times> event list \<times> int" where
  "al_Tail cerr tenant after limit events =
     (if limit < 0 then (Some ErrLimitNegative, [], after)
      else if limit > MaxPageLimit then (Some ErrLimitTooLarge, [], after)
      else if after < 0 then (Some ErrInvalidCursor, [], after)
      else
        let limit = (if limit = 0 then DefaultTailLimit else limit) in
        case mem_Tail cerr tenant (nat after) (nat limit) events of (err, out, pos) \<Rightarrow> (err, out, int pos))"

text \<open>
  \<^verbatim>\<open>DeleteBefore\<close> of the PostgreSQL store, in the order of \<^verbatim>\<open>seq\<close>: everything before the first event that must
  stay, with the HMAC of the newest event removed.  This is a sweep that commits; one that fails is
  rolled back and leaves the rows as they are.
\<close>

definition DeleteBefore :: "time \<Rightarrow> event list \<Rightarrow> (nat \<times> string) \<times> event list" where
  "DeleteBefore cutoff events =
     (let gone = takeWhile (\<lambda>e. ev_Timestamp e < cutoff) events in
      ((length gone, if gone = [] then [] else ev_HMAC (last gone)), drop (length gone) events))"

section \<open>The logger\<close>

record named_key =
  nk_id :: string
  nk_key :: secret

record al_logger =
  lg_chainKey :: secret
  lg_chainKeyID :: string
  lg_older :: "named_key list"
  lg_next :: "named_key list"
  lg_closed :: bool

definition keyRing :: "al_logger \<Rightarrow> named_key list \<times> nat" where
  "keyRing l =
     (lg_next l @ [\<lparr> nk_id = lg_chainKeyID l, nk_key = lg_chainKey l \<rparr>] @ lg_older l, length (lg_next l))"

definition Close :: "al_logger \<Rightarrow> al_logger" where
  "Close l =
     (if lg_closed l then l
      else l\<lparr>lg_closed := True, lg_chainKey := sec_Zero (lg_chainKey l),
             lg_older := map (\<lambda>k. k\<lparr>nk_key := sec_Zero (nk_key k)\<rparr>) (lg_older l),
             lg_next := map (\<lambda>k. k\<lparr>nk_key := sec_Zero (nk_key k)\<rparr>) (lg_next l)\<rparr>)"

definition reveal :: "named_key \<Rightarrow> chain_key" where
  "reveal k = \<lparr> ck_ID = nk_id k, ck_Key = sec_Use (nk_key k) (\<lambda>b. b) \<rparr>"

definition revealChainKeys :: "al_logger \<Rightarrow> chain_key list \<times> nat" where
  "revealChainKeys l = (case keyRing l of (ring, sealing) \<Rightarrow> (map reveal ring, sealing))"

fun sealerOf_loop :: "mac_fn \<Rightarrow> named_key list \<Rightarrow> event \<Rightarrow> nat list \<Rightarrow> al_error + nat option" where
  "sealerOf_loop hmac ring e [] = Inr None"
| "sealerOf_loop hmac ring e (i # order) =
     (let k = reveal (ring ! i) in
      if ck_Key k = [] then Inl ErrLoggerClosed
      else if fst (sealedBy hmac k (eventWithoutHMAC e) (ev_HMAC e)) then Inr (Some i)
      else sealerOf_loop hmac ring e order)"

definition sealerOf :: "mac_fn \<Rightarrow> named_key list \<Rightarrow> nat \<Rightarrow> event \<Rightarrow> al_error + nat option" where
  "sealerOf hmac ring first e =
     sealerOf_loop hmac ring e (first # filter (\<lambda>i. i \<noteq> first) [0..<length ring])"

definition sealingKey :: "mac_fn \<Rightarrow> al_logger \<Rightarrow> event \<Rightarrow> bool \<Rightarrow> al_error + named_key" where
  "sealingKey hmac l hd_ev marker =
     (case keyRing l of (ring, sealing) \<Rightarrow>
        (case (if ev_HMAC hd_ev = [] then Inr None
               else case sealerOf hmac ring sealing hd_ev of
                 Inl err \<Rightarrow> Inl err
               | Inr None \<Rightarrow> Inl ErrChainHeadUnknown
               | Inr (Some i) \<Rightarrow> Inr (Some i)) of
           Inl err \<Rightarrow> Inl err
         | Inr headKey \<Rightarrow>
             (case headKey of
                Some i \<Rightarrow>
                  if i < sealing then (if marker then Inl ErrRotationCurrent else Inr (ring ! i))
                  else if marker \<and> i = sealing then Inl ErrRotationCurrent
                  else if \<not> marker \<and> lg_chainKeyID l \<noteq> [] \<and> i \<noteq> sealing then Inl ErrRotationDue
                  else Inr (ring ! sealing)
              | None \<Rightarrow>
                  if \<not> marker \<and> lg_chainKeyID l \<noteq> [] then Inl ErrRotationDue
                  else Inr (ring ! sealing))))"

definition seal :: "mac_fn \<Rightarrow> al_env \<Rightarrow> al_logger \<Rightarrow> event \<Rightarrow> bool \<Rightarrow> event \<Rightarrow> al_error + event" where
  "seal hmac E l e marker hd_ev =
     (if lg_closed l then Inl ErrLoggerClosed
      else case sealingKey hmac l hd_ev marker of
        Inl err \<Rightarrow> Inl err
      | Inr k \<Rightarrow>
          let e1 = e\<lparr>ev_PrevHMAC := ev_HMAC hd_ev\<rparr> in
          sec_Use (nk_key k) (\<lambda>b.
            if b = [] then Inl ErrLoggerClosed
            else
              let e2 = e1\<lparr>ev_HMAC := computeKeyedHMAC hmac b (nk_id k) e1\<rparr> in
              case ValidateEvent E e2 of Some err \<Rightarrow> Inl err | None \<Rightarrow> Inr e2))"

definition appendSealed ::
    "mac_fn \<Rightarrow> al_env \<Rightarrow> nat \<Rightarrow> al_logger \<Rightarrow> event \<Rightarrow> bool \<Rightarrow> event list \<Rightarrow> al_error option \<times> event list" where
  "appendSealed hmac E n l e marker events =
     AppendChained E (ae_ctx E n) (seal hmac E l e marker) (ae_others E n events)"

definition FormatExactMetadata :: "8 word" where
  "FormatExactMetadata = 2"

definition prepareEvent :: "al_env \<Rightarrow> nat \<Rightarrow> event \<Rightarrow> al_error + event" where
  "prepareEvent E n e =
     (let e1 = (if ev_ID e = [] then e\<lparr>ev_ID := ae_newID E n\<rparr> else e);
          t = (if is_zero (ev_Timestamp e1) then ae_now E n else ev_Timestamp e1);
          e2 = e1\<lparr>ev_Timestamp := t - (t - zero_time) mod 1000\<rparr>
      in case (if ev_Metadata e2 = [] then Some [] else ae_canon E (ev_Metadata e2)) of
           None \<Rightarrow> Inl ErrMetadata
         | Some md \<Rightarrow>
             let e3 = e2\<lparr>ev_Metadata := md, ev_Format := FormatExactMetadata\<rparr>;
                 e4 = (if ev_TraceID e3 = [] then e3\<lparr>ev_TraceID := ae_trace E\<rparr> else e3)
             in Inr (e4\<lparr>ev_PrevHMAC := [], ev_HMAC := []\<rparr>))"

definition rotationMarker :: "al_logger \<Rightarrow> event" where
  "rotationMarker l =
     zero_event\<lparr>ev_Actor := RotationActor, ev_Action := RotationAction,
                ev_Resource := rotationResource @ lg_chainKeyID l, ev_Status := ''success''\<rparr>"

definition recordRotation ::
    "mac_fn \<Rightarrow> al_env \<Rightarrow> nat \<Rightarrow> al_logger \<Rightarrow> event \<Rightarrow> event list \<Rightarrow> al_error option \<times> event list" where
  "recordRotation hmac E n l marker events =
     (case appendSealed hmac E n l marker True events of
        (Some ErrRotationCurrent, events') \<Rightarrow> (None, events')
      | res \<Rightarrow> res)"

definition RecordRotation ::
    "mac_fn \<Rightarrow> al_env \<Rightarrow> al_logger \<Rightarrow> event list \<Rightarrow> al_error option \<times> event list" where
  "RecordRotation hmac E l events =
     (if lg_closed l then (Some ErrLoggerClosed, events)
      else if lg_chainKeyID l = [] then (None, events)
      else case prepareEvent E 0 (rotationMarker l) of
        Inl err \<Rightarrow> (Some err, events)
      | Inr marker \<Rightarrow> recordRotation hmac E 0 l marker events)"

definition maxRotationAttempts :: nat where
  "maxRotationAttempts = 3"

text \<open>The retries of \<^verbatim>\<open>LogE\<close>: \<open>n\<close> rounds are left, \<open>m\<close> numbers the appends.\<close>

fun LogE_loop ::
    "mac_fn \<Rightarrow> al_env \<Rightarrow> al_logger \<Rightarrow> event \<Rightarrow> nat \<Rightarrow> nat \<Rightarrow> al_error option \<times> event list \<Rightarrow> al_error option \<times> event list" where
  "LogE_loop hmac E l e 0 m res = res"
| "LogE_loop hmac E l e (Suc n) m (err, events) =
     (if err \<noteq> Some ErrRotationDue then (err, events)
      else LogE_loop hmac E l e n (m + 2)
        (case prepareEvent E m (rotationMarker l) of
           Inl err' \<Rightarrow> (Some err', events)
         | Inr marker \<Rightarrow>
             (case recordRotation hmac E m l marker events of
                (None, events') \<Rightarrow> appendSealed hmac E (m + 1) l e False events'
              | res \<Rightarrow> res)))"

definition LogE ::
    "mac_fn \<Rightarrow> al_env \<Rightarrow> al_logger \<Rightarrow> event \<Rightarrow> event list \<Rightarrow> al_error option \<times> event list" where
  "LogE hmac E l ev events =
     (if lg_closed l then (Some ErrLoggerClosed, events)
      else if ev_Action ev = RotationAction then (Some ErrInvalidEvent, events)
      else case prepareEvent E 0 ev of
        Inl err \<Rightarrow> (Some err, events)
      | Inr e \<Rightarrow>
          (case LogE_loop hmac E l e (maxRotationAttempts - 1) 1 (appendSealed hmac E 0 l e False events) of
             (Some ErrRotationDue, events') \<Rightarrow> (Some ErrChainBroken, events')
           | res \<Rightarrow> res))"

definition al_Verify :: "mac_fn \<Rightarrow> ctx_error option \<Rightarrow> al_logger \<Rightarrow> verification \<Rightarrow> event list \<Rightarrow> al_error + head" where
  "al_Verify hmac cerr l v events =
     (if lg_closed l then Inl ErrLoggerClosed
      else case revealChainKeys l of (keys, sealing) \<Rightarrow>
        if list_ex (\<lambda>k. ck_Key k = []) keys then Inl ErrLoggerClosed
        else case newChainVerifier keys sealing v of
          Inl err \<Rightarrow> Inl err
        | Inr c \<Rightarrow>
            if cerr \<noteq> None then Inl ErrAuditStore
            else (case vsteps hmac events c of Inl err \<Rightarrow> Inl err | Inr c' \<Rightarrow> finish c'))"

section \<open>Reading in the order of appending\<close>

lemma tail_loop_reads:
  fixes tenant
  defines "P \<equiv> \<lambda>e. tenant = [] \<or> ev_Tenant e = tenant"
  assumes "tail_loop tenant limit i rest acc i = (out, pos)" and "length acc \<le> limit"
  shows "\<exists>n \<le> length rest. pos = i + n \<and> out = acc @ filter P (take n rest) \<and> (length out < limit \<longrightarrow> n = length rest)"
  using assms(2-)
proof (induction rest arbitrary: i acc)
  case (Cons e rest)
  show ?case
  proof (cases "length acc < limit")
    case True
    let ?acc = "if P e then acc @ [e] else acc"
    have "tail_loop tenant limit (Suc i) rest ?acc (Suc i) = (out, pos)"
      using Cons.prems(1) True unfolding P_def tail_loop.simps by (simp only: if_True)
    moreover have "length ?acc \<le> limit" using True by simp
    ultimately have "\<exists>n \<le> length rest. pos = Suc i + n \<and> out = ?acc @ filter P (take n rest)
      \<and> (length out < limit \<longrightarrow> n = length rest)" by (rule Cons.IH)
    then obtain n where n: "n \<le> length rest" "pos = Suc i + n" "out = ?acc @ filter P (take n rest)"
      and short: "length out < limit \<longrightarrow> n = length rest" by (elim exE conjE)
    show ?thesis
    proof (intro exI [of _ "Suc n"] conjI)
      show "Suc n \<le> length (e # rest)" "pos = i + Suc n" using n(1,2) by simp_all
      show "out = acc @ filter P (take (Suc n) (e # rest))" using n(3) by (cases "P e") simp_all
      show "length out < limit \<longrightarrow> Suc n = length (e # rest)" using short by simp
    qed
  next
    case False
    then show ?thesis using Cons.prems by (intro exI [of _ 0]) simp
  qed
qed simp

text \<open>
  A shipper that follows the positions sees every event of its tenant once, oldest first: a batch is what the events
  between the two positions hold for it, and a short batch has reached the end.
\<close>

lemma al_Tail_batch:
  assumes "al_Tail cerr tenant after limit events = (None, out, pos)" and "after \<le> int (length events)"
  shows "0 \<le> after \<and> after \<le> pos \<and> pos \<le> int (length events)
    \<and> out = filter (\<lambda>e. tenant = [] \<or> ev_Tenant e = tenant) (take (nat pos - nat after) (drop (nat after) events))
    \<and> (int (length out) < (if limit = 0 then DefaultTailLimit else limit) \<longrightarrow> pos = int (length events))"
proof -
  define L where "L = (if limit = 0 then DefaultTailLimit else limit)"
  have after: "0 \<le> after" "0 \<le> limit" using assms(1) by (simp_all add: al_Tail_def split: if_splits)
  have L: "0 \<le> L" using after(2) by (simp add: L_def DefaultTailLimit_def)
  obtain out' p where t: "tail_loop tenant (nat L) (nat after) (drop (nat after) events) [] (nat after) = (out', p)" by fastforce
  have out: "out' = out" "pos = int p"
    using assms(1) t after unfolding al_Tail_def mem_Tail_def Let_def L_def [symmetric] by (simp_all split: if_splits)
  obtain n where n: "n \<le> length events - nat after" "p = nat after + n" "length out < nat L \<longrightarrow> n = length events - nat after"
    "out = filter (\<lambda>e. tenant = [] \<or> ev_Tenant e = tenant) (take n (drop (nat after) events))"
    using tail_loop_reads [OF t] unfolding out(1) length_drop append_Nil list.size by blast
  have "nat pos - nat after = n" "after \<le> pos" using n(2) after(1) unfolding out(2) by simp_all
  moreover have "pos \<le> int (length events)" using n(1,2) after(1) assms(2) unfolding out(2) by linarith
  moreover have "int (length out) < L \<longrightarrow> pos = int (length events)"
  proof
    assume "int (length out) < L"
    then have "n = length events - nat after" using n(3) L by simp
    then show "pos = int (length events)" using n(2) after(1) assms(2) unfolding out(2) by linarith
  qed
  ultimately show ?thesis unfolding L_def [symmetric] using after(1) n(4) by (simp only: simp_thms)
qed

end
