(* ===== verification/Audit_Guarantees.thy ===== *)
theory Audit_Guarantees
  imports Audit_Log
begin

text \<open>
  What the audit chain guarantees: a chain that replicas wrote through a rotation of keys verifies, also
  after a retention sweep, and an anchored head commits to everything before it.
\<close>

section \<open>An anchored head\<close>

lemma linked_snoc: "linked (xs @ [e]) \<longleftrightarrow> linked xs \<and> (xs = [] \<or> ev_PrevHMAC e = ev_HMAC (last xs))"
  by (induction xs rule: linked.induct) auto

lemma linked_append: "linked (xs @ ys) \<Longrightarrow> linked xs"
  by (induction ys rule: rev_induct) (auto simp: linked_snoc simp flip: append_assoc)

lemma linked_take: "linked xs \<Longrightarrow> linked (take n xs)"
  using linked_append [of "take n xs" "drop n xs"] by simp

lemma linked_same:
  assumes sep: "mac_separates hmac all E" and keys: "set keys \<subseteq> set all" "set keys' \<subseteq> set all"
    and "length xs = length ys" "set xs \<subseteq> E" "set ys \<subseteq> E" "list_all (sealed hmac keys) xs" "list_all (sealed hmac keys') ys"
      "linked xs" "linked ys" "xs \<noteq> []" "ev_HMAC (last xs) = ev_HMAC (last ys)"
  shows "map stamped xs = map stamped ys"
  using assms(4-)
proof (induction xs arbitrary: ys rule: rev_induct)
  case (snoc x xs)
  then obtain y ys' where ys: "ys = ys' @ [y]" by (metis append_is_Nil_conv length_0_conv rev_exhaust)
  have xy: "stamped x = stamped y"
    using snoc.prems ys same_HMAC_same_event [OF sep _ _ keys, of x y] by (auto simp: sealed_def)
  then have prev: "ev_PrevHMAC x = ev_PrevHMAC y"
    unfolding stamped_def by (cases x; cases y) simp
  have "map stamped xs = map stamped ys'"
  proof (cases "xs = []")
    case False
    then have "ys' \<noteq> []" using snoc.prems(1) ys by auto
    then have "ev_HMAC (last xs) = ev_HMAC (last ys')"
      using snoc.prems ys prev False by (simp add: linked_snoc)
    then show ?thesis using snoc.prems ys False by (intro snoc.IH) (auto simp: linked_snoc)
  qed (use snoc.prems ys in auto)
  then show ?case using ys xy by simp
qed simp

abbreviation plain :: "string \<Rightarrow> verification" where
  "plain w \<equiv> \<lparr> vf_Watermark = w, vf_Anchor = no_anchor \<rparr>"

definition cv_start :: "chain_key list \<Rightarrow> string \<Rightarrow> verifier" where
  "cv_start keys w =
     \<lparr> cv_keys = keys, cv_v = plain w, cv_floor = length keys - 1, cv_rotated = False, cv_anchored = False,
       cv_anchorKey = None, cv_prev = [], cv_last = None, cv_oldest = -1, cv_sealing = 0, cv_index = 0 \<rparr>"

definition usable :: "chain_key list \<Rightarrow> bool" where
  "usable keys \<longleftrightarrow> keys \<noteq> [] \<and> list_all (\<lambda>k. length (ck_Key k) \<ge> MinChainKeyLen) keys"

lemma new_plain:
  "newChainVerifier keys 0 (plain w) = (if usable keys then Inr (cv_start keys w) else Inl ErrNoChainKey)"
  by (simp add: newChainVerifier_def usable_def cv_start_def no_anchor_def Let_def)

lemma VerifyChainKeys_plain:
  "VerifyChainKeys hmac es keys (plain w) = Inr h \<longleftrightarrow>
     usable keys \<and> (\<exists>c. vsteps hmac es (cv_start keys w) = Inr c \<and> finish c = Inr h)"
  by (auto simp: VerifyChainKeys_def verify_def new_plain split: sum.splits)

lemma finish_plain:
  assumes "vsteps hmac es (cv_start keys w) = Inr c"
  shows "\<exists>h. finish c = Inr h \<and> (es \<noteq> [] \<longrightarrow> hd_HMAC h = ev_HMAC (last es) \<and> hd_Events h = length es)"
  using vsteps_state [OF assms] by (auto simp: finish_def cv_start_def)

text \<open>
  Property C9.  A kept head commits to the whole chain before it.  If a chain verified from its genesis and its
  head was kept as the anchor, then whatever chain verifies from its genesis against that anchor later starts with
  the events of the first: whoever can write the store can neither remove nor alter, insert or reorder
  anything up to the anchored event, also with keys added since, except for moving a time by a multiple of
  \<open>2 ^ 64\<close> nanoseconds, which the encoding does not see; as long as all times are ones that \<^verbatim>\<open>UnixNano\<close> can represent
  the events are exactly the same.  Of HMAC only that it separates the inputs at hand is used; every field
  of the events at hand is shorter than two gigabytes.
\<close>

theorem audit_anchor_commits:
  assumes "VerifyChainKeys hmac old keys \<lparr> vf_Watermark = [], vf_Anchor = no_anchor \<rparr> = Inr h"
    and "VerifyChainKeys hmac new keys' \<lparr> vf_Watermark = [], vf_Anchor = h \<rparr> = Inr h'"
    and sep: "mac_separates hmac (keys @ keys') (set old \<union> set new)"
  shows "length old \<le> length new \<and> map stamped (take (length old) new) = map stamped old
    \<and> ((\<forall>e \<in> set old \<union> set new. in_i64 (ev_Timestamp e)) \<longrightarrow> take (length old) new = old)"
proof (cases "old = []")
  case False
  obtain c where c: "vsteps hmac old (cv_start keys []) = Inr c" "finish c = Inr h"
    using assms(1) by (auto simp: VerifyChainKeys_plain)
  have h: "hd_HMAC h = ev_HMAC (last old)" "hd_Events h = length old"
    using finish_plain [OF c(1)] c(2) False by auto
  have old: "list_all (sealed hmac keys) old" "linked old"
    using vsteps_sealed [OF c(1)] by (simp_all add: cv_start_def)
  have "sealed hmac keys (last old)" using old(1) False by (simp add: list_all_iff)
  then obtain i b where "sealer hmac keys (last old) = Some (i, b)" by (auto simp: sealed_def)
  then have ne: "hd_HMAC h \<noteq> []"
    using h(1) sep sealer_Some(2) unfolding mac_separates_def by metis
  obtain d d' where d: "newChainVerifier keys' 0 \<lparr> vf_Watermark = [], vf_Anchor = h \<rparr> = Inr d"
    "vsteps hmac new d = Inr d'" "finish d' = Inr h'"
    using assms(2) by (auto simp: VerifyChainKeys_def verify_def split: sum.splits)
  have st: "cv_keys d = keys'" "cv_v d = \<lparr> vf_Watermark = [], vf_Anchor = h \<rparr>" "cv_index d = 0" "\<not> cv_anchored d"
    "cv_anchorKey d \<noteq> None"
    using d(1) ne by (auto simp: newChainVerifier_def Let_def split: if_splits option.splits)
  then have "cv_anchored d'"
    using d(3) vsteps_state [OF d(2)] by (auto simp: finish_def split: if_splits option.splits bool.splits)
  then obtain n where n: "n < length new" "ev_HMAC (new ! n) = hd_HMAC h" "Suc n = length old"
    using vsteps_anchor [OF d(2)] st h(2) by auto
  have same: "map stamped old = map stamped (take (length old) new)"
  proof (rule linked_same [OF sep, of keys keys'])
    show "list_all (sealed hmac keys') (take (length old) new)" "linked (take (length old) new)"
      using vsteps_sealed [OF d(2)] st(1) by (auto simp: linked_take list_all_iff dest: in_set_takeD)
    show "ev_HMAC (last old) = ev_HMAC (last (take (length old) new))"
      using n(2) h(1) take_Suc_conv_app_nth [OF n(1)] unfolding n(3) by simp
  qed (use old n False in \<open>auto dest: in_set_takeD\<close>)
  have "take (length old) new = old" if "\<forall>e \<in> set old \<union> set new. in_i64 (ev_Timestamp e)"
  proof (rule nth_equalityI)
    fix i assume i: "i < length (take (length old) new)"
    then have "stamped (take (length old) new ! i) = stamped (old ! i)"
      using same n by (metis length_map nth_map)
    then show "take (length old) new ! i = old ! i"
      by (rule stamped_exact) (use i n that in auto)
  qed (use n in simp)
  then show ?thesis using same n by simp
qed simp

section \<open>Which key sealed an event\<close>

text \<open>The keys of a rotation: long enough, with different IDs and different bytes.\<close>

definition good_ring :: "chain_key list \<Rightarrow> bool" where
  "good_ring keys \<longleftrightarrow> usable keys \<and> distinct (map ck_ID keys) \<and> [] \<notin> ck_ID ` set keys \<and> distinct (map ck_Key keys)"

lemma ring_id: "good_ring keys \<Longrightarrow> i < length keys \<Longrightarrow> ck_ID (keys ! i) \<noteq> []"
  by (metis good_ring_def image_eqI nth_mem)

lemma separates:
  assumes sep: "mac_separates hmac keys E" and "e \<in> E" and "i < length keys" "j < length keys"
    and "hmac (ck_Key (keys ! i)) (mac_input e (kid keys i b)) = hmac (ck_Key (keys ! j)) (mac_input e (kid keys j b'))"
  shows "ck_Key (keys ! i) = ck_Key (keys ! j)" and "kid keys i b = kid keys j b'"
proof -
  have in_set: "(ck_Key (keys ! n), mac_input e (kid keys n c)) \<in> chain_inputs keys E" if "n < length keys" for n c
    using assms(2) that by (force simp: chain_inputs_def kid_def)
  have eq: "(ck_Key (keys ! i), mac_input e (kid keys i b)) = (ck_Key (keys ! j), mac_input e (kid keys j b'))"
    using sep inj_onD [OF _ _ in_set [OF assms(3)] in_set [OF assms(4)], of "\<lambda>(k, x). hmac k x"] assms(5)
    by (simp add: mac_separates_def)
  then show "ck_Key (keys ! i) = ck_Key (keys ! j)" by simp
  have "length (kid keys n c) < 2 ^ 31" if "n < length keys" for n c
    using sep that by (simp add: mac_separates_def kid_def)
  then show "kid keys i b = kid keys j b'"
    using mac_input_inj [of e e "kid keys i b" "kid keys j b'"] eq sep assms(2-4) by (simp add: mac_separates_def)
qed

lemma sealed_by_one:
  assumes ring: "good_ring keys" and sep: "mac_separates hmac keys E" and "e \<in> E" and "i < length keys" "j < length keys"
    and "sealedBy hmac (keys ! i) e mac = (True, b)" "sealedBy hmac (keys ! j) e mac = (True, b')"
  shows "i = j"
proof -
  have mac: "mac = hmac (ck_Key (keys ! i)) (mac_input e (kid keys i b))" "mac = hmac (ck_Key (keys ! j)) (mac_input e (kid keys j b'))"
    using assms(6,7) by (auto simp: sealedBy_iff kid_def split: if_splits)
  note eq = separates [OF sep assms(3-5), of b b'] mac
  have "ck_Key (keys ! i) = ck_Key (keys ! j)" using eq by metis
  then show ?thesis using ring assms(4,5) by (simp add: good_ring_def distinct_conv_nth) metis
qed

lemma sealer_loop_None:
  "sealer_loop hmac e mac n ks = None \<longleftrightarrow> (\<forall>k \<in> set ks. \<not> fst (sealedBy hmac k e mac))"
  by (induction ks arbitrary: n) (auto split: prod.splits bool.splits)

lemma sealer_iff:
  assumes "good_ring keys" and "mac_separates hmac keys E" and "e \<in> E"
  shows "sealer hmac keys e = Some (i, b) \<longleftrightarrow> i < length keys \<and> sealedBy hmac (keys ! i) (eventWithoutHMAC e) (ev_HMAC e) = (True, b)"
proof
  assume "sealer hmac keys e = Some (i, b)"
  then show "i < length keys \<and> sealedBy hmac (keys ! i) (eventWithoutHMAC e) (ev_HMAC e) = (True, b)"
    using sealer_loop_Some [of hmac _ _ 0 keys i b] by (simp add: sealer_def)
next
  assume i: "i < length keys \<and> sealedBy hmac (keys ! i) (eventWithoutHMAC e) (ev_HMAC e) = (True, b)"
  then have "sealer hmac keys e \<noteq> None"
    unfolding sealer_def sealer_loop_None by (metis fst_conv nth_mem)
  then obtain j b' where j: "sealer hmac keys e = Some (j, b')" by auto
  then have js: "j < length keys" "sealedBy hmac (keys ! j) (eventWithoutHMAC e) (ev_HMAC e) = (True, b')"
    using sealer_loop_Some [of hmac _ _ 0 keys j b'] by (simp_all add: sealer_def)
  have "sealedBy hmac k (eventWithoutHMAC e) m = sealedBy hmac k e m" for k m
    by (simp add: sealedBy_def computeKeyedHMAC_input computeHMAC_input)
  then have "i = j" using i js sealed_by_one [OF assms, of i j "ev_HMAC e" b b'] by simp
  then show "sealer hmac keys e = Some (i, b)" using j i js(2) by simp
qed

section \<open>Appending keeps the chain verifiable\<close>

text \<open>A replica of a service: it may seal with any of the keys, and knows them all.\<close>

definition replica :: "chain_key list \<Rightarrow> al_logger \<Rightarrow> bool" where
  "replica keys l \<longleftrightarrow> map reveal (fst (keyRing l)) = keys"

text \<open>What a logger hands to \<^verbatim>\<open>appendSealed\<close>: its own marker, or an event with another action.\<close>

definition proper :: "al_logger \<Rightarrow> event \<Rightarrow> bool \<Rightarrow> bool" where
  "proper l e marker \<longleftrightarrow>
     (if marker then isRotation e \<and> ev_Resource e = rotationResource @ lg_chainKeyID l else ev_Action e \<noteq> RotationAction)"

lemma sealerOf_loop_Some:
  "sealerOf_loop hmac ring e is = Inr (Some i) \<Longrightarrow>
     i \<in> set is \<and> fst (sealedBy hmac (reveal (ring ! i)) (eventWithoutHMAC e) (ev_HMAC e))"
  by (induction "is") (auto simp: Let_def split: if_splits)

lemma replica_keys:
  assumes "replica keys l"
  shows "length (fst (keyRing l)) = length keys" and "snd (keyRing l) < length keys"
    and "i < length keys \<Longrightarrow> reveal (fst (keyRing l) ! i) = keys ! i"
    and "ck_ID (keys ! snd (keyRing l)) = lg_chainKeyID l"
proof -
  have keys: "keys = map reveal (fst (keyRing l))" using assms by (simp add: replica_def)
  show "length (fst (keyRing l)) = length keys" "i < length keys \<Longrightarrow> reveal (fst (keyRing l) ! i) = keys ! i"
    by (simp_all add: keys)
  show "snd (keyRing l) < length keys" by (simp add: keys keyRing_def)
  show "ck_ID (keys ! snd (keyRing l)) = lg_chainKeyID l" by (simp add: keys keyRing_def nth_append reveal_def)
qed

text \<open>The key of the head as the logger finds it is the one the verifier finds.\<close>

lemma sealerOf_sealer:
  assumes "good_ring keys" and "mac_separates hmac keys E" and "e \<in> E" and rep: "replica keys l"
    and "sealerOf hmac (fst (keyRing l)) (snd (keyRing l)) e = Inr (Some i)"
  shows "\<exists>b. sealer hmac keys e = Some (i, b)"
proof -
  have "i \<in> set (snd (keyRing l) # filter (\<lambda>i. i \<noteq> snd (keyRing l)) [0..<length (fst (keyRing l))])"
    and s: "fst (sealedBy hmac (reveal (fst (keyRing l) ! i)) (eventWithoutHMAC e) (ev_HMAC e))"
    using sealerOf_loop_Some [OF assms(5) [unfolded sealerOf_def]] by auto
  then have i: "i < length keys" using replica_keys(1,2) [OF rep] by auto
  obtain m b where sb: "sealedBy hmac (keys ! i) (eventWithoutHMAC e) (ev_HMAC e) = (m, b)" by fastforce
  then have m using s replica_keys(3) [OF rep i] by simp
  then show ?thesis using sb i sealer_iff [OF assms(1-3), of i b] by auto
qed

text \<open>Which key a replica seals with: the head's, or, for a marker, a newer one.\<close>

lemma sealingKey_cases:
  assumes ring: "good_ring keys" and "mac_separates hmac keys E" and rep: "replica keys l"
    and hd_in: "ev_HMAC x \<noteq> [] \<Longrightarrow> x \<in> E" and "sealingKey hmac l x marker = Inr k"
  shows "\<exists>u < length keys. reveal k = keys ! u
    \<and> (if ev_HMAC x = [] then marker \<and> u = snd (keyRing l)
       else \<exists>h b. sealer hmac keys x = Some (h, b) \<and> (if marker then u = snd (keyRing l) \<and> u < h else u = h))"
proof -
  obtain r s where kr: "keyRing l = (r, s)" by fastforce
  note rk = replica_keys [OF rep, unfolded kr fst_conv snd_conv]
  have id: "lg_chainKeyID l \<noteq> []" using ring_id [OF ring rk(2)] rk(4) by simp
  show ?thesis
  proof (cases "ev_HMAC x = []")
    case True
    then have "marker" "k = r ! s" using assms(5) kr id by (auto simp: sealingKey_def split: if_splits)
    then show ?thesis using True rk(2,3) kr by auto
  next
    case False
    then obtain h where h: "sealerOf hmac r s x = Inr (Some h)"
      using assms(5) kr by (auto simp: sealingKey_def split: sum.splits option.splits)
    then obtain b where b: "sealer hmac keys x = Some (h, b)"
      using sealerOf_sealer [OF assms(1,2) hd_in [OF False] rep] kr by auto
    have "h < length keys" using b by (rule sealer_Some(1))
    moreover have "k = r ! (if h < s then h else s) \<and> (if marker then s < h else h \<le> s)"
      using assms(5) kr h False id by (auto simp: sealingKey_def split: if_splits)
    ultimately show ?thesis
      using b False rk(2,3) kr by (intro exI [of _ "if h < s then h else s"]) (auto split: if_splits)
  qed
qed

lemma seal_cases:
  assumes "seal hmac E l e marker x = Inr e'"
  obtains k where "sealingKey hmac l x marker = Inr k" "ev_HMAC e' = hmac (ck_Key (reveal k)) (mac_input e' (ck_ID (reveal k)))"
    "ev_PrevHMAC e' = ev_HMAC x" "ev_Actor e' = ev_Actor e" "ev_Action e' = ev_Action e" "ev_Resource e' = ev_Resource e"
proof -
  obtain k where k: "sealingKey hmac l x marker = Inr k"
    "e' = e\<lparr>ev_PrevHMAC := ev_HMAC x, ev_HMAC := hmac (ck_Key (reveal k)) (mac_input (e\<lparr>ev_PrevHMAC := ev_HMAC x\<rparr>) (ck_ID (reveal k)))\<rparr>"
    using assms
    by (auto simp: seal_def Let_def sec_Use_eq reveal_def computeKeyedHMAC_input split: if_splits sum.splits option.splits)
  have "mac_input e' i = mac_input (e\<lparr>ev_PrevHMAC := ev_HMAC x\<rparr>) i" for i
    using mac_input_eventWithoutHMAC [of e' i] mac_input_eventWithoutHMAC [of "e\<lparr>ev_PrevHMAC := ev_HMAC x\<rparr>" i]
    unfolding k(2) eventWithoutHMAC_def by simp
  then show ?thesis using k(2) by (intro that [OF k(1)]) simp_all
qed

lemma vsteps_floor:
  assumes "vsteps hmac es (cv_start keys w) = Inr c" and "es \<noteq> []"
  shows "\<exists>b. sealer hmac keys (last es) = Some (cv_floor c, b)"
proof -
  obtain xs e where es: "es = xs @ [e]" using assms(2) by (metis rev_exhaust)
  then obtain d where d: "vsteps hmac xs (cv_start keys w) = Inr d" "vstep hmac e d = Inr c"
    using assms(1) by (auto simp: vsteps_append split: sum.splits)
  have keys: "cv_keys d = keys" using vsteps_state [OF d(1)] by (simp add: cv_start_def)
  show ?thesis by (rule vstep_cases [OF d(2)]) (use keys es in \<open>auto simp: advance_def\<close>)
qed

text \<open>The verifier accepts an event of a key it expects.\<close>

lemma vstep_accepts:
  assumes "link_ok e c" and "sealer hmac (cv_keys c) e = Some (u, True)" and "cv_anchorKey c = None" "\<not> cv_anchored c"
    and "u \<le> cv_floor c" and "if isRotation e then ev_Resource e = rotationResource @ ck_ID (cv_keys c ! u) else cv_index c = 0 \<or> u = cv_floor c"
  shows "\<exists>c'. vstep hmac e c = Inr c'"
  using assms by (auto simp: vstep_def checkAnchor_def split: if_splits)

lemma append_verifies:
  assumes ring: "good_ring keys" and rep: "replica keys l" and "proper l e marker"
    and c: "vsteps hmac es (cv_start keys []) = Inr c" and s: "seal hmac E l e marker (chain_head es) = Inr e'"
    and sep: "mac_separates hmac keys (set (es @ [e']))"
  shows "\<exists>c'. vsteps hmac (es @ [e']) (cv_start keys []) = Inr c'"
proof -
  let ?x = "chain_head es" and ?s = "snd (keyRing l)"
  obtain k where k: "sealingKey hmac l ?x marker = Inr k"
    and mac: "ev_HMAC e' = hmac (ck_Key (reveal k)) (mac_input e' (ck_ID (reveal k)))" and prev: "ev_PrevHMAC e' = ev_HMAC ?x"
    and same: "ev_Actor e' = ev_Actor e" "ev_Action e' = ev_Action e" "ev_Resource e' = ev_Resource e"
    using s by (rule seal_cases)
  note st = vsteps_state [OF c]
  have nil: "es = [] \<Longrightarrow> ev_HMAC ?x = []" by (simp add: chain_head_def zero_event_def)
  then have "?x \<in> set (es @ [e'])" if "ev_HMAC ?x \<noteq> []" using that by (auto simp: chain_head_def)
  from sealingKey_cases [OF ring sep rep this k] obtain u where u: "u < length keys" "reveal k = keys ! u"
    and hu: "if ev_HMAC ?x = [] then marker \<and> u = ?s
       else \<exists>h b. sealer hmac keys ?x = Some (h, b) \<and> (if marker then u = ?s \<and> u < h else u = h)" by auto
  have "sealedBy hmac (keys ! u) (eventWithoutHMAC e') (ev_HMAC e') = (True, True)"
    using mac u(2) ring_id [OF ring u(1)] unfolding sealedBy_iff by simp
  then have sealed_e': "sealer hmac keys e' = Some (u, True)" using u(1) by (subst sealer_iff [OF ring sep]) simp_all
  have floor: "u \<le> cv_floor c \<and> (marker \<and> u = ?s \<or> \<not> marker \<and> u = cv_floor c)"
  proof (cases "es = []")
    case True
    then show ?thesis using hu nil c u(1) by (auto simp: cv_start_def)
  next
    case False
    then obtain b where b: "sealer hmac keys ?x = Some (cv_floor c, b)"
      using vsteps_floor [OF c] by (auto simp: chain_head_def)
    then have "ev_HMAC ?x \<noteq> []" using sealer_Some(2) [OF b] sep by (simp add: mac_separates_def)
    then show ?thesis using hu b by (auto split: if_splits)
  qed
  have "isRotation e' \<longleftrightarrow> marker" "marker \<Longrightarrow> ev_Resource e' = rotationResource @ lg_chainKeyID l"
    using assms(3) same by (auto simp: proper_def isRotation_def split: if_splits)
  then have kind: "if isRotation e' then ev_Resource e' = rotationResource @ ck_ID (keys ! u) else u = cv_floor c"
    using floor replica_keys(4) [OF rep] by auto
  have "link_ok e' c" using st prev nil by (auto simp: link_ok_def chain_head_def cv_start_def)
  moreover have "\<not> cv_anchored c" using vsteps_anchor [OF c] by (auto simp: cv_start_def no_anchor_def)
  ultimately have "\<exists>c'. vstep hmac e' c = Inr c'"
    using st sealed_e' floor kind by (intro vstep_accepts [of _ _ _ u]) (simp_all add: cv_start_def split: if_splits)
  then show ?thesis using c by (auto simp: vsteps_append)
qed

section \<open>Runs of replicas\<close>

text \<open>What replicas that share a ring of keys append to one store, one atomic append at a time.\<close>

inductive al_reach :: "mac_fn \<Rightarrow> chain_key list \<Rightarrow> event list \<Rightarrow> bool" for hmac keys where
  al_empty: "al_reach hmac keys []"
| al_append: "al_reach hmac keys es \<Longrightarrow> replica keys l \<Longrightarrow> proper l e marker \<Longrightarrow>
    AppendChained E cerr (seal hmac E l e marker) es = (r, es') \<Longrightarrow> al_reach hmac keys es'"

lemma AppendChained_cases:
  assumes "AppendChained E cerr build es = (r, es')"
  obtains (appended) e where "r = None" "build (chain_head es) = Inr e" "es' = es @ [e]"
  | (refused) "r \<noteq> None" "es' = es"
proof (cases "cerr = None")
  case True
  show ?thesis
  proof (cases "build (chain_head es)")
    case (Inl err)
    then show ?thesis using assms True by (intro refused) (auto simp: AppendChained_def)
  next
    case (Inr e)
    then show ?thesis
      using assms True by (cases "ValidateEvent E e") (auto simp: AppendChained_def intro: appended refused)
  qed
next
  case False
  then show ?thesis using assms by (intro refused) (auto simp: AppendChained_def)
qed

lemma mac_separates_mono: "mac_separates hmac keys E \<Longrightarrow> F \<subseteq> E \<Longrightarrow> mac_separates hmac keys F"
proof -
  assume sep: "mac_separates hmac keys E" and sub: "F \<subseteq> E"
  have "chain_inputs keys F \<subseteq> chain_inputs keys E" using sub by (auto simp: chain_inputs_def)
  then show ?thesis using sep sub inj_on_subset unfolding mac_separates_def by blast
qed

lemma reach_verifies:
  assumes "al_reach hmac keys es" and "good_ring keys" and "mac_separates hmac keys (set es)"
  shows "\<exists>c. vsteps hmac es (cv_start keys []) = Inr c"
  using assms
proof (induction rule: al_reach.induct)
  case (al_append es l e marker E cerr r es')
  from al_append.hyps(4) show ?case
  proof (cases rule: AppendChained_cases)
    case (appended e')
    then obtain c where "vsteps hmac es (cv_start keys []) = Inr c"
      using al_append.IH al_append.prems mac_separates_mono [OF al_append.prems(2), of "set es"] by auto
    then show ?thesis
      using append_verifies [OF al_append.prems(1) al_append.hyps(2,3)] appended al_append.prems(2) by blast
  qed (use al_append in simp)
qed simp

lemma proper_prepared:
  assumes "prepareEvent E n ev = Inr e"
  shows "ev_Action e = ev_Action ev \<and> ev_Actor e = ev_Actor ev \<and> ev_Resource e = ev_Resource ev"
  using assms by (auto simp: prepareEvent_def Let_def split: option.splits if_splits)

lemma proper_marker: "prepareEvent E n (rotationMarker l) = Inr e \<Longrightarrow> proper l e True"
  by (drule proper_prepared) (simp add: proper_def isRotation_def rotationMarker_def)

text \<open>Each public call is a sequence of such appends, with those of other replicas between them.\<close>

definition interferes :: "mac_fn \<Rightarrow> chain_key list \<Rightarrow> al_env \<Rightarrow> bool" where
  "interferes hmac keys E \<longleftrightarrow> (\<forall>n es. al_reach hmac keys es \<longrightarrow> al_reach hmac keys (ae_others E n es))"

lemma appendSealed_reach:
  assumes "interferes hmac keys E" and "replica keys l" and "proper l e marker" and "al_reach hmac keys es"
  shows "al_reach hmac keys (snd (appendSealed hmac E n l e marker es))"
  using assms al_append [OF _ assms(2,3) prod.collapse [symmetric]]
  unfolding appendSealed_def interferes_def by blast

lemma recordRotation_reach:
  assumes "interferes hmac keys E" and "replica keys l" and "proper l e True" and "al_reach hmac keys es"
  shows "al_reach hmac keys (snd (recordRotation hmac E n l e es))"
  using appendSealed_reach [OF assms, of n]
  by (cases "appendSealed hmac E n l e True es") (auto simp: recordRotation_def split: option.split al_error.split)

lemma RecordRotation_reach:
  assumes "interferes hmac keys E" and "replica keys l" and "al_reach hmac keys es"
  shows "al_reach hmac keys (snd (RecordRotation hmac E l es))"
  using assms recordRotation_reach [OF assms(1,2) proper_marker]
  by (auto simp: RecordRotation_def split: sum.split)

lemma LogE_loop_reach:
  assumes "interferes hmac keys E" and "replica keys l" and "proper l e False" and "al_reach hmac keys (snd res)"
  shows "al_reach hmac keys (snd (LogE_loop hmac E l e n m res))"
  using assms(4)
proof (induction n arbitrary: m res)
  case (Suc n)
  obtain err es where res: "res = (err, es)" by fastforce
  have "al_reach hmac keys (snd (case prepareEvent E m (rotationMarker l) of
           Inl err' \<Rightarrow> (Some err', es)
         | Inr marker \<Rightarrow>
             (case recordRotation hmac E m l marker es of
                (None, events') \<Rightarrow> appendSealed hmac E (m + 1) l e False events'
              | res \<Rightarrow> res)))"
    using recordRotation_reach [OF assms(1,2) proper_marker] appendSealed_reach [OF assms(1-3)] Suc.prems res
    by (auto split: sum.split prod.split option.split) (metis snd_conv)+
  then show ?case using Suc res by simp
qed simp

lemma LogE_reach:
  assumes "interferes hmac keys E" and "replica keys l" and "al_reach hmac keys es"
  shows "al_reach hmac keys (snd (LogE hmac E l ev es))"
proof (cases "lg_closed l \<or> ev_Action ev = RotationAction")
  case False
  show ?thesis
  proof (cases "prepareEvent E 0 ev")
    case (Inr e)
    then have "proper l e False" using False proper_prepared by (fastforce simp: proper_def)
    then have "al_reach hmac keys (snd (LogE_loop hmac E l e (maxRotationAttempts - 1) 1 (appendSealed hmac E 0 l e False es)))"
      by (intro LogE_loop_reach [OF assms(1,2)] appendSealed_reach [OF assms(1,2)] assms(3))
    then show ?thesis
      using False Inr by (auto simp: LogE_def split: prod.splits option.split al_error.split)
  qed (use False assms(3) in \<open>simp add: LogE_def\<close>)
qed (use assms(3) in \<open>auto simp: LogE_def\<close>)

section \<open>Retention\<close>

text \<open>A verifier that started later, behind a watermark, knows no more than one that saw everything.\<close>

definition behind :: "verifier \<Rightarrow> verifier \<Rightarrow> bool" where
  "behind c d \<longleftrightarrow>
     cv_keys d = cv_keys c \<and> cv_anchorKey d = None \<and> \<not> cv_anchored d \<and> cv_floor c \<le> cv_floor d
     \<and> (cv_rotated d \<longrightarrow> cv_rotated c) \<and> 0 < cv_index c
     \<and> (if cv_index d = 0 then vf_Watermark (cv_v d) = cv_prev c \<and> cv_prev c \<noteq> []
        else cv_floor d = cv_floor c \<and> cv_prev d = cv_prev c)"

lemma behind_step:
  assumes "behind c d" and "vstep hmac e c = Inr c'" and "ev_HMAC e \<noteq> []"
  shows "\<exists>d'. vstep hmac e d = Inr d' \<and> behind c' d'"
proof -
  from assms(2) obtain i keyed c1 rot where *: "link_ok e c" "sealer hmac (cv_keys c) e = Some (i, keyed)"
    "checkAnchor e i c = Inr c1" "i \<le> cv_floor c" "cv_rotated c \<longrightarrow> keyed" "isRotation e \<longrightarrow> rot \<and> keyed"
    "\<not> isRotation e \<longrightarrow> rot = cv_rotated c \<and> (cv_index c = 0 \<or> i = cv_floor c)"
    "c' = advance e i (c1\<lparr>cv_rotated := rot\<rparr>)" by (rule vstep_cases)
  have res: "isRotation e \<longrightarrow> ev_Resource e = rotationResource @ ck_ID (cv_keys c ! i)"
    using assms(2) *(1-3) checkAnchor_cases [OF *(3)] by (auto simp: vstep_def split: if_splits)
  have c1: "cv_keys c1 = cv_keys c" "cv_index c1 = cv_index c" using checkAnchor_cases [OF *(3)] by auto
  let ?d = "advance e i (d\<lparr>cv_rotated := (isRotation e \<or> cv_rotated d)\<rparr>)"
  have "link_ok e d" using *(1) assms(1) by (auto simp: link_ok_def behind_def split: if_splits)
  moreover have "checkAnchor e i d = Inr d" using assms(1) by (simp add: checkAnchor_def behind_def)
  moreover have "isRotation e \<or> (cv_index d = 0 \<or> \<not> i < cv_floor d)" using *(7) assms(1) by (auto simp: behind_def split: if_splits)
  ultimately have "vstep hmac e d = Inr ?d"
    using assms(1) *(2,4-6) res by (auto simp: vstep_def behind_def)
  moreover have "behind c' ?d"
    using assms(1,3) *(6-8) c1 by (auto simp: behind_def advance_def)
  ultimately show ?thesis by blast
qed

lemma behind_steps:
  assumes "behind c d" and "vsteps hmac es c = Inr c'" and "\<forall>e \<in> set es. ev_HMAC e \<noteq> []"
  shows "\<exists>d'. vsteps hmac es d = Inr d'"
  using assms
proof (induction es arbitrary: c d)
  case (Cons e es)
  then obtain c1 where c1: "vstep hmac e c = Inr c1" "vsteps hmac es c1 = Inr c'" by (auto split: sum.splits)
  then obtain d1 where "vstep hmac e d = Inr d1" "behind c1 d1" using behind_step Cons.prems(1,3) by fastforce
  then show ?case using Cons.IH c1(2) Cons.prems(3) by simp
qed simp

lemma sealed_nonempty:
  assumes "vsteps hmac es (cv_start keys w) = Inr c" and "mac_separates hmac keys E" and "e \<in> set es"
  shows "ev_HMAC e \<noteq> []"
proof -
  have "sealed hmac keys e" using vsteps_sealed(1) [OF assms(1)] assms(3) by (simp add: cv_start_def list_all_iff)
  then obtain i b where "sealer hmac keys e = Some (i, b)" by (auto simp: sealed_def)
  then show ?thesis using sealer_Some(2) assms(2) unfolding mac_separates_def by metis
qed

lemma suffix_verifies:
  assumes c: "vsteps hmac (xs @ ys) (cv_start keys []) = Inr c" and "xs \<noteq> []"
    and sep: "mac_separates hmac keys (set (xs @ ys))"
  shows "\<exists>d. vsteps hmac ys (cv_start keys (ev_HMAC (last xs))) = Inr d"
proof -
  obtain b where b: "vsteps hmac xs (cv_start keys []) = Inr b" "vsteps hmac ys b = Inr c"
    using c by (auto simp: vsteps_append split: sum.splits)
  obtain k where "sealer hmac keys (last xs) = Some (cv_floor b, k)" using vsteps_floor [OF b(1) assms(2)] by auto
  then have "cv_floor b < length keys" by (rule sealer_Some(1))
  moreover have "ev_HMAC (last xs) \<noteq> []" using sealed_nonempty [OF b(1) sep] assms(2) by simp
  ultimately have "behind b (cv_start keys (ev_HMAC (last xs)))"
    using vsteps_state [OF b(1)] assms(2) by (auto simp: behind_def cv_start_def)
  then show ?thesis using behind_steps b(2) sealed_nonempty [OF c sep] by auto
qed

lemma prune_verifies:
  assumes "vsteps hmac es (cv_start keys []) = Inr c" and "mac_separates hmac keys (set es)"
    and "DeleteBefore cutoff es = ((n, w), rest)"
  shows "\<exists>d. vsteps hmac rest (cv_start keys w) = Inr d"
proof -
  let ?gone = "takeWhile (\<lambda>e. ev_Timestamp e < cutoff) es"
  have es: "es = ?gone @ rest" and w: "w = (if ?gone = [] then [] else ev_HMAC (last ?gone))"
    using assms(3) by (auto simp: DeleteBefore_def Let_def simp flip: dropWhile_eq_drop)
  show ?thesis
  proof (cases "?gone = []")
    case True
    then show ?thesis using assms(1) es w by auto
  next
    case False
    then show ?thesis using suffix_verifies [of hmac ?gone rest keys c] assms(1,2) es w by simp
  qed
qed

section \<open>What is logged\<close>

definition logged :: "event \<Rightarrow> event list \<Rightarrow> bool" where
  "logged e es \<longleftrightarrow> es \<noteq> [] \<and> (\<exists>p m. last es = e\<lparr>ev_PrevHMAC := p, ev_HMAC := m\<rparr>)"

lemma seal_form: "seal hmac E l e marker x = Inr e' \<Longrightarrow> \<exists>p m. e' = e\<lparr>ev_PrevHMAC := p, ev_HMAC := m\<rparr>"
  by (auto simp: seal_def Let_def sec_Use_eq split: if_splits sum.splits option.splits)

lemma appendSealed_logged:
  assumes "fst (appendSealed hmac E n l e marker es) = None"
  shows "logged e (snd (appendSealed hmac E n l e marker es))"
proof -
  obtain r es' where a: "appendSealed hmac E n l e marker es = (r, es')" by fastforce
  from a [unfolded appendSealed_def] show ?thesis
    using assms a by (cases rule: AppendChained_cases) (auto simp: logged_def dest: seal_form)
qed

lemma LogE_loop_logged:
  assumes "fst res = None \<Longrightarrow> logged e (snd res)" and "fst (LogE_loop hmac E l e n m res) = None"
  shows "logged e (snd (LogE_loop hmac E l e n m res))"
  using assms
proof (induction n arbitrary: m res)
  case (Suc n)
  obtain err es where res: "res = (err, es)" by fastforce
  show ?case
  proof (cases "err = Some ErrRotationDue")
    case True
    let ?next = "case prepareEvent E m (rotationMarker l) of
           Inl err' \<Rightarrow> (Some err', es)
         | Inr marker \<Rightarrow>
             (case recordRotation hmac E m l marker es of
                (None, events') \<Rightarrow> appendSealed hmac E (m + 1) l e False events'
              | res \<Rightarrow> res)"
    have "logged e (snd ?next)" if "fst ?next = None"
      using that appendSealed_logged by (auto split: sum.splits prod.splits option.splits)
    then show ?thesis using Suc.IH [of ?next "m + 2"] Suc.prems(2) res True by simp
  qed (use Suc.prems res in simp)
qed simp

lemma LogE_logged:
  assumes "LogE hmac E l ev es = (None, es')"
  shows "\<exists>e. prepareEvent E 0 ev = Inr e \<and> logged e es'"
proof -
  obtain e where e: "prepareEvent E 0 ev = Inr e"
    using assms by (auto simp: LogE_def split: if_splits sum.splits)
  let ?r = "LogE_loop hmac E l e (maxRotationAttempts - 1) 1 (appendSealed hmac E 0 l e False es)"
  have "?r = (None, es')"
    using assms e by (auto simp: LogE_def split: if_splits prod.splits option.splits al_error.splits)
  then have "logged e (snd ?r)" by (intro LogE_loop_logged appendSealed_logged) simp_all
  then show ?thesis using e \<open>?r = (None, es')\<close> by simp
qed

text \<open>
  Property C10.  Whatever replicas log, each sealing with the key of its own configuration while the
  service rotates through a ring of keys, the chain verifies after every call of LogE, with the appends of
  other replicas anywhere between its own; it still verifies from the watermark after a retention sweep
  with any cutoff; and when LogE returns nil, the newest event is the one that was logged.
\<close>

theorem audit_log_verifies:
  assumes ring: "good_ring keys" and "al_reach hmac keys es" and "replica keys l" and "interferes hmac keys E"
    and call: "LogE hmac E l ev es = (r, es')" and sep: "mac_separates hmac keys (set es')"
  shows "(\<exists>h. VerifyChainKeys hmac es' keys \<lparr> vf_Watermark = [], vf_Anchor = no_anchor \<rparr> = Inr h)
    \<and> (case DeleteBefore cutoff es' of ((n, w), rest) \<Rightarrow>
         \<exists>h. VerifyChainKeys hmac rest keys \<lparr> vf_Watermark = w, vf_Anchor = no_anchor \<rparr> = Inr h)
    \<and> (r = None \<longrightarrow> (\<exists>e. prepareEvent E 0 ev = Inr e \<and> logged e es'))"
proof -
  have us: "usable keys" using ring by (simp add: good_ring_def)
  have "al_reach hmac keys es'" using LogE_reach [OF assms(4,3,2), of ev] call by simp
  then obtain c where c: "vsteps hmac es' (cv_start keys []) = Inr c" using reach_verifies [OF _ ring sep] by blast
  have full: "\<exists>h. VerifyChainKeys hmac es' keys (plain []) = Inr h"
    using c us finish_plain [OF c] unfolding VerifyChainKeys_plain by blast
  obtain n w rest where d: "DeleteBefore cutoff es' = ((n, w), rest)" by (metis prod.exhaust)
  then obtain c' where "vsteps hmac rest (cv_start keys w) = Inr c'" using prune_verifies [OF c sep] by blast
  then have "\<exists>h. VerifyChainKeys hmac rest keys (plain w) = Inr h"
    using us finish_plain unfolding VerifyChainKeys_plain by blast
  then show ?thesis using full d LogE_logged call by auto
qed

section \<open>Pruning everything\<close>

lemma reach_genesis: "al_reach hmac keys es \<Longrightarrow> es \<noteq> [] \<Longrightarrow> ev_PrevHMAC (hd es) = []"
proof (induction rule: al_reach.induct)
  case (al_append es l e marker E cerr r es')
  from al_append.hyps(4) show ?case
  proof (cases rule: AppendChained_cases)
    case (appended e')
    obtain k where "ev_PrevHMAC e' = ev_HMAC (chain_head es)" using appended(2) by (rule seal_cases) blast
    then show ?thesis using appended al_append.IH by (cases "es = []") (simp_all add: chain_head_def zero_event_def)
  qed (use al_append in simp)
qed simp

text \<open>
  Property C39.  A sweep that removes every event hands out the HMAC of the newest one as the watermark,
  but the next append finds an empty store and starts a new chain: what replicas then log, untampered,
  is reported as broken when it is verified from that watermark.
\<close>

theorem audit_prune_all_breaks:
  assumes "VerifyChainKeys hmac es keys \<lparr> vf_Watermark = [], vf_Anchor = no_anchor \<rparr> = Inr h"
    and "mac_separates hmac keys (set es)" and "es \<noteq> []" and "\<forall>e \<in> set es. ev_Timestamp e < cutoff"
    and "al_reach hmac keys new" and "new \<noteq> []"
  shows "\<exists>w. DeleteBefore cutoff es = ((length es, w), [])
    \<and> VerifyChainKeys hmac new keys \<lparr> vf_Watermark = w, vf_Anchor = no_anchor \<rparr> = Inl ErrChainBroken"
proof -
  obtain c where c: "usable keys" "vsteps hmac es (cv_start keys []) = Inr c"
    using assms(1) by (auto simp: VerifyChainKeys_plain)
  have w: "ev_HMAC (last es) \<noteq> []" using sealed_nonempty [OF c(2) assms(2)] assms(3) by simp
  have t: "takeWhile (\<lambda>e. ev_Timestamp e < cutoff) es = es" using assms(4) by (simp add: takeWhile_eq_all_conv)
  have d: "DeleteBefore cutoff es = ((length es, ev_HMAC (last es)), [])"
    using assms(3) unfolding DeleteBefore_def t Let_def by simp
  obtain e rest where new: "new = e # rest" "ev_PrevHMAC e = []"
    using reach_genesis [OF assms(5,6)] assms(6) by (cases new) auto
  then have "vstep hmac e (cv_start keys (ev_HMAC (last es))) = Inl ErrChainBroken"
    using w by (simp add: vstep_def link_ok_def cv_start_def)
  then show ?thesis using d new c(1) by (simp add: VerifyChainKeys_def verify_def new_plain)
qed

section \<open>Logging succeeds\<close>

lemma sealerOf_loop_found:
  assumes "\<forall>j \<in> set js. ck_Key (reveal (ring ! j)) \<noteq> []" and "i \<in> set js"
    and "fst (sealedBy hmac (reveal (ring ! i)) (eventWithoutHMAC e) (ev_HMAC e))"
  shows "\<exists>j \<in> set js. sealerOf_loop hmac ring e js = Inr (Some j)"
  using assms by (induction js) (auto simp: Let_def)

lemma ring_key: "good_ring keys \<Longrightarrow> i < length keys \<Longrightarrow> ck_Key (keys ! i) \<noteq> []"
  by (auto simp: good_ring_def usable_def list_all_length MinChainKeyLen_def)

text \<open>A replica knows the key of every head its ring sealed, its own key first.\<close>

lemma sealerOf_found:
  assumes ring: "good_ring keys" and rep: "replica keys l" and i: "i < length keys"
    and s: "fst (sealedBy hmac (keys ! i) (eventWithoutHMAC e) (ev_HMAC e))"
  shows "\<exists>h < length keys. sealerOf hmac (fst (keyRing l)) (snd (keyRing l)) e = Inr (Some h)"
    and "i = snd (keyRing l) \<Longrightarrow> sealerOf hmac (fst (keyRing l)) (snd (keyRing l)) e = Inr (Some i)"
proof -
  note rk = replica_keys [OF rep]
  let ?js = "snd (keyRing l) # filter (\<lambda>i. i \<noteq> snd (keyRing l)) [0..<length (fst (keyRing l))]"
  have js: "set ?js = {..<length keys}" using rk(1,2) by auto
  then show "\<exists>h < length keys. sealerOf hmac (fst (keyRing l)) (snd (keyRing l)) e = Inr (Some h)"
    using sealerOf_loop_found [of ?js "fst (keyRing l)" i hmac e] ring_key [OF ring] rk(3) i s
    unfolding sealerOf_def by auto
  show "sealerOf hmac (fst (keyRing l)) (snd (keyRing l)) e = Inr (Some i)" if "i = snd (keyRing l)"
    using that s i rk(3) ring_key [OF ring i] by (simp add: sealerOf_def Let_def)
qed

lemma ValidateEvent_chain: "ValidateEvent E (e\<lparr>ev_PrevHMAC := p, ev_HMAC := h\<rparr>) = ValidateEvent E e"
  unfolding ValidateEvent_def by simp

text \<open>An event as a key seals it, after an event with the HMAC \<open>prev\<close>.\<close>

definition sealed_with :: "mac_fn \<Rightarrow> chain_key \<Rightarrow> event \<Rightarrow> string \<Rightarrow> event" where
  "sealed_with hmac k e prev =
     e\<lparr>ev_PrevHMAC := prev, ev_HMAC := computeKeyedHMAC hmac (ck_Key k) (ck_ID k) (e\<lparr>ev_PrevHMAC := prev\<rparr>)\<rparr>"

lemma sealed_with_HMAC: "ev_HMAC (sealed_with hmac k e prev) = hmac (ck_Key k) (mac_input (sealed_with hmac k e prev) (ck_ID k))"
proof -
  have "mac_input (sealed_with hmac k e prev) i = mac_input (e\<lparr>ev_PrevHMAC := prev\<rparr>) i" for i
    by (simp add: mac_input_parts sealed_with_def ev_fields_def ev_tail_def)
  then show ?thesis by (simp add: sealed_with_def computeKeyedHMAC_input)
qed

lemma appendSealed_quiet:
  assumes "sealingKey hmac l (chain_head es) marker = Inr k" and "ck_Key (reveal k) \<noteq> []" and "\<not> lg_closed l"
    and "ValidateEvent E e = None" and "ae_ctx E n = None" "ae_others E n es = es"
  shows "appendSealed hmac E n l e marker es = (None, es @ [sealed_with hmac (reveal k) e (ev_HMAC (chain_head es))])"
proof -
  let ?e = "sealed_with hmac (reveal k) e (ev_HMAC (chain_head es))"
  have v: "ValidateEvent E ?e = None" using assms(4) by (simp add: sealed_with_def ValidateEvent_chain)
  then have "seal hmac E l e marker (chain_head es) = Inr ?e"
    using assms(1-3) by (simp add: seal_def reveal_def sec_Use_eq Let_def sealed_with_def)
  then show ?thesis using assms(5,6) v by (simp add: appendSealed_def AppendChained_def)
qed

text \<open>The logger's own key is \<open>keys ! s\<close>: its rotation is due on an empty chain and after an event of an older key.\<close>

definition rotation_due :: "mac_fn \<Rightarrow> chain_key list \<Rightarrow> nat \<Rightarrow> event list \<Rightarrow> bool" where
  "rotation_due hmac keys s es \<longleftrightarrow> es = [] \<or> (\<exists>h b. sealer hmac keys (last es) = Some (h, b) \<and> s < h)"

lemma sealingKey_total:
  assumes ring: "good_ring keys" and sep: "mac_separates hmac keys (set es)" and rep: "replica keys l"
    and "es \<noteq> [] \<Longrightarrow> sealed hmac keys (last es)"
  shows "if rotation_due hmac keys (snd (keyRing l)) es
    then sealingKey hmac l (chain_head es) False = Inl ErrRotationDue
      \<and> sealingKey hmac l (chain_head es) True = Inr (fst (keyRing l) ! snd (keyRing l))
    else \<exists>h b. sealer hmac keys (last es) = Some (h, b) \<and> h \<le> snd (keyRing l)
      \<and> sealingKey hmac l (chain_head es) False = Inr (fst (keyRing l) ! h)"
proof -
  note rk = replica_keys [OF rep]
  have id: "lg_chainKeyID l \<noteq> []" using ring_id [OF ring rk(2)] rk(4) by simp
  show ?thesis
  proof (cases "es = []")
    case True
    then show ?thesis using id by (simp add: rotation_due_def chain_head_def zero_event_def sealingKey_def split: prod.split)
  next
    case False
    then obtain i b where i: "sealer hmac keys (last es) = Some (i, b)"
      using assms(4) by (auto simp: sealed_def)
    then have ne: "ev_HMAC (last es) \<noteq> []" using sealer_Some(2) [OF i] sep by (simp add: mac_separates_def)
    have "i < length keys" "fst (sealedBy hmac (keys ! i) (eventWithoutHMAC (last es)) (ev_HMAC (last es)))"
      using sealer_loop_Some [of hmac _ _ 0 keys i b] i by (simp_all add: sealer_def)
    then obtain h where h: "sealerOf hmac (fst (keyRing l)) (snd (keyRing l)) (last es) = Inr (Some h)"
      using sealerOf_found(1) [OF ring rep] by blast
    obtain b' where "sealer hmac keys (last es) = Some (h, b')"
      using sealerOf_sealer [OF ring sep _ rep h] last_in_set [OF False] by blast
    then have "h = i" using i by simp
    then show ?thesis
      using h i ne id False by (auto simp: rotation_due_def sealingKey_def chain_head_def not_less split: prod.splits)
  qed
qed

text \<open>The key of the logger's own marker is its own.\<close>

lemma sealingKey_own:
  assumes ring: "good_ring keys" and sep: "mac_separates hmac keys E" and rep: "replica keys l"
    and m: "m = sealed_with hmac (keys ! snd (keyRing l)) e prev"
  shows "sealingKey hmac l (chain_head (es @ [m])) False = Inr (fst (keyRing l) ! snd (keyRing l))"
proof -
  note rk = replica_keys [OF rep]
  have mac: "ev_HMAC m = hmac (ck_Key (keys ! snd (keyRing l))) (mac_input m (ck_ID (keys ! snd (keyRing l))))"
    unfolding m by (rule sealed_with_HMAC)
  have ne: "ev_HMAC m \<noteq> []" using mac sep by (simp add: mac_separates_def)
  have "fst (sealedBy hmac (keys ! snd (keyRing l)) (eventWithoutHMAC m) (ev_HMAC m))"
    using mac ring_id [OF ring rk(2)] by (simp add: sealedBy_def computeKeyedHMAC_input)
  then have "sealerOf hmac (fst (keyRing l)) (snd (keyRing l)) m = Inr (Some (snd (keyRing l)))"
    using sealerOf_found(2) [OF ring rep rk(2)] by blast
  then show ?thesis using ne by (auto simp: sealingKey_def chain_head_def split: prod.splits)
qed

text \<open>
  Property C24.  Logging is never stuck on a rotation.  Take any chain that replicas of the ring wrote, and an open logger
  whose context is live, that nobody interferes with, and whose event and rotation marker are valid.
  Then \<^verbatim>\<open>LogE\<close> returns nil.  When the chain is empty or its head is sealed by an older key than the logger's own, it
  appends exactly its rotation marker and then the event, both sealed by its own key; otherwise exactly the event,
  sealed by the key of the head; each is linked to the event before it.
\<close>

theorem audit_log_succeeds:
  assumes ring: "good_ring keys" and "al_reach hmac keys es" and sep: "mac_separates hmac keys (set es)" and rep: "replica keys l"
    and l: "\<not> lg_closed l" "ev_Action ev \<noteq> RotationAction"
    and quiet: "\<And>n. ae_ctx E n = None" "\<And>n es. ae_others E n es = es"
    and e: "prepareEvent E 0 ev = Inr e" "ValidateEvent E e = None"
    and marker: "prepareEvent E 1 (rotationMarker l) = Inr m" "ValidateEvent E m = None"
    and own: "s = snd (keyRing l)" "m' = sealed_with hmac (keys ! s) m (ev_HMAC (chain_head es))"
  shows "if rotation_due hmac keys s es
    then LogE hmac E l ev es = (None, es @ [m', sealed_with hmac (keys ! s) e (ev_HMAC m')])
    else \<exists>h b. sealer hmac keys (last es) = Some (h, b) \<and> h \<le> s
      \<and> LogE hmac E l ev es = (None, es @ [sealed_with hmac (keys ! h) e (ev_HMAC (last es))])"
proof -
  note rk = replica_keys [OF rep]
  have key: "reveal (fst (keyRing l) ! u) = keys ! u" "ck_Key (keys ! u) \<noteq> []" if "u < length keys" for u
    using rk(3) ring_key [OF ring] that by simp_all
  obtain c where c: "vsteps hmac es (cv_start keys []) = Inr c" using reach_verifies [OF assms(2) ring sep] by blast
  have "es \<noteq> [] \<Longrightarrow> sealed hmac keys (last es)"
    using vsteps_sealed [OF c] by (simp add: cv_start_def list_all_iff)
  note total = sealingKey_total [OF ring sep rep this, folded own(1)]
  note append = appendSealed_quiet [OF _ _ l(1) _ quiet(1) quiet(2)]
  show ?thesis
  proof (cases "rotation_due hmac keys s es")
    case True
    then have due: "sealingKey hmac l (chain_head es) False = Inl ErrRotationDue"
      and rot: "sealingKey hmac l (chain_head es) True = Inr (fst (keyRing l) ! s)"
      using total by simp_all
    have "appendSealed hmac E 0 l e False es = (Some ErrRotationDue, es)"
      using due l(1) quiet by (simp add: appendSealed_def AppendChained_def seal_def)
    moreover have "appendSealed hmac E 1 l m True es = (None, es @ [m'])"
      using append [OF rot] key [OF rk(2)] marker(2) own by simp
    moreover have "appendSealed hmac E 2 l e False (es @ [m']) = (None, (es @ [m']) @ [sealed_with hmac (keys ! s) e (ev_HMAC m')])"
      using append [OF sealingKey_own [OF ring sep rep own(2) [unfolded own(1)]]] key [OF rk(2)] e(2) own(1)
      by (simp add: chain_head_def)
    ultimately show ?thesis
      using True l e(1) marker(1) by (simp add: LogE_def maxRotationAttempts_def numeral_2_eq_2 recordRotation_def)
  next
    case False
    then obtain h b where h: "sealer hmac keys (last es) = Some (h, b)" "h \<le> s"
      and k: "sealingKey hmac l (chain_head es) False = Inr (fst (keyRing l) ! h)"
      using total by auto
    have "es \<noteq> []" using False by (simp add: rotation_due_def)
    then have "appendSealed hmac E 0 l e False es = (None, es @ [sealed_with hmac (keys ! h) e (ev_HMAC (last es))])"
      using append [OF k] key [of h] sealer_Some(1) [OF h(1)] e(2) by (simp add: chain_head_def)
    then show ?thesis using False h l e(1) by (simp add: LogE_def maxRotationAttempts_def numeral_2_eq_2)
  qed
qed

section \<open>A rotation\<close>

text \<open>
  Two replicas of a service that rotates from the key \<^verbatim>\<open>k1\<close> to \<^verbatim>\<open>k2\<close>: the first still seals with the old
  key and already knows the new one, the second was deployed with the new one.  The MAC of the example puts a byte of
  its own for each key before the input.
\<close>

definition demo_hmac :: mac_fn where
  "demo_hmac k x = (if k = replicate 32 1 then CHR ''1'' else CHR ''2'') # x"

definition demo_k1 :: named_key where
  "demo_k1 = \<lparr> nk_id = ''k1'', nk_key = sec_New (replicate 32 1) \<rparr>"

definition demo_k2 :: named_key where
  "demo_k2 = \<lparr> nk_id = ''k2'', nk_key = sec_New (replicate 32 2) \<rparr>"

definition demo_keys :: "chain_key list" where
  "demo_keys = [\<lparr> ck_ID = ''k2'', ck_Key = replicate 32 2 \<rparr>, \<lparr> ck_ID = ''k1'', ck_Key = replicate 32 1 \<rparr>]"

definition demo_first :: al_logger where
  "demo_first = \<lparr> lg_chainKey = nk_key demo_k1, lg_chainKeyID = ''k1'', lg_older = [], lg_next = [demo_k2], lg_closed = False \<rparr>"

definition demo_second :: al_logger where
  "demo_second = \<lparr> lg_chainKey = nk_key demo_k2, lg_chainKeyID = ''k2'', lg_older = [demo_k1], lg_next = [], lg_closed = False \<rparr>"

definition demo_al_env :: al_env where
  "demo_al_env =
     \<lparr> ae_newID = (\<lambda>n. ''id''), ae_now = (\<lambda>n. 5000), ae_canon = Some, ae_trace = [], ae_parseAddr = (\<lambda>_. True),
       ae_jsonValid = (\<lambda>_. True), ae_ctx = (\<lambda>_. None), ae_others = (\<lambda>_ es. es) \<rparr>"

definition demo_update :: event where
  "demo_update = zero_event\<lparr>ev_Actor := ''alice'', ev_Action := ''update'', ev_Resource := ''doc/1'', ev_Status := ''success''\<rparr>"

text \<open>The fields every event of the example has after \<^verbatim>\<open>prepareEvent\<close>, and how a key seals it.\<close>

definition demo_prepared :: "event \<Rightarrow> event" where
  "demo_prepared e = e\<lparr>ev_ID := ''id'', ev_Timestamp := 5000, ev_Format := FormatExactMetadata\<rparr>"

definition demo_sealed :: "chain_key \<Rightarrow> event \<Rightarrow> string \<Rightarrow> event" where
  "demo_sealed k e prev =
     e\<lparr>ev_PrevHMAC := prev, ev_HMAC := demo_hmac (ck_Key k) (mac_input (e\<lparr>ev_PrevHMAC := prev\<rparr>) (ck_ID k))\<rparr>"

lemma isSafeLogToken_ascii:
  assumes "s \<noteq> []" "length s \<le> n" "\<forall>c \<in> set s. 0x21 \<le> (of_char c :: nat) \<and> (of_char c :: nat) < 0x7F"
  shows "isSafeLogToken s n"
proof -
  have "runes s = Some (map of_char s)" by (rule runes_ascii) (use assms(3) in fastforce)
  moreover have "\<not> is_control (of_char c) \<and> \<not> is_space (of_char c)" if "c \<in> set s" for c
    using assms that by (fastforce simp: is_control_def is_space_def)
  ultimately show ?thesis using assms by (auto simp: isSafeLogToken_def list_ex_iff)
qed

lemma demo_prepare:
  "prepareEvent demo_al_env n demo_update = Inr (demo_prepared demo_update)"
  "prepareEvent demo_al_env n (rotationMarker l) = Inr (demo_prepared (rotationMarker l))"
  by (simp_all add: prepareEvent_def demo_al_env_def demo_update_def demo_prepared_def rotationMarker_def zero_event_def zero_time_def)

lemma demo_validate:
  "ValidateEvent demo_al_env (demo_sealed k (demo_prepared demo_update) p) = None"
  "ValidateEvent demo_al_env (demo_sealed k (demo_prepared (rotationMarker demo_first)) p) = None"
  "ValidateEvent demo_al_env (demo_sealed k (demo_prepared (rotationMarker demo_second)) p) = None"
  by (simp_all add: ValidateEvent_def demo_sealed_def demo_prepared_def demo_update_def rotationMarker_def zero_event_def
      zero_time_def demo_first_def demo_second_def RotationActor_def RotationAction_def rotationResource_def validateStatus_def
      isSafeLogToken_ascii MaxEventIDBytes_def MaxActorBytes_def MaxTenantBytes_def MaxActionBytes_def MaxResourceBytes_def
      MaxStatusBytes_def MaxMetadataBytes_def)

abbreviation demo_key1 :: chain_key where
  "demo_key1 \<equiv> \<lparr> ck_ID = ''k1'', ck_Key = replicate 32 1 \<rparr>"

abbreviation demo_key2 :: chain_key where
  "demo_key2 \<equiv> \<lparr> ck_ID = ''k2'', ck_Key = replicate 32 2 \<rparr>"

definition demo_m1 :: event where
  "demo_m1 = demo_sealed demo_key1 (demo_prepared (rotationMarker demo_first)) []"

definition demo_e1 :: event where
  "demo_e1 = demo_sealed demo_key1 (demo_prepared demo_update) (ev_HMAC demo_m1)"

definition demo_m2 :: event where
  "demo_m2 = demo_sealed demo_key2 (demo_prepared (rotationMarker demo_second)) (ev_HMAC demo_e1)"

definition demo_e2 :: event where
  "demo_e2 = demo_sealed demo_key2 (demo_prepared demo_update) (ev_HMAC demo_m2)"

lemma demo_keys_differ [simp]: "replicate 32 (2 :: 8 word) \<noteq> replicate 32 1" "replicate 32 (1 :: 8 word) \<noteq> replicate 32 2"
  by (simp_all add: replicate_eq_replicate)

lemma mac_input_sealed: "mac_input (demo_sealed k e p) i = mac_input (e\<lparr>ev_PrevHMAC := p\<rparr>) i"
  by (simp add: mac_input_parts demo_sealed_def ev_fields_def ev_tail_def)

lemma demo_sealedBy:
  assumes "k \<in> set demo_keys" "k' \<in> set demo_keys"
  shows "sealedBy demo_hmac k' (eventWithoutHMAC (demo_sealed k e p)) (ev_HMAC (demo_sealed k e p)) = (k' = k, k' = k)"
  using assms
  by (auto simp: sealedBy_def computeKeyedHMAC_input computeHMAC_input mac_input_sealed demo_keys_def demo_hmac_def)
    (simp_all add: demo_sealed_def demo_hmac_def)

lemma demo_reveal [simp]: "reveal demo_k1 = demo_key1" "reveal demo_k2 = demo_key2"
  by (simp_all add: reveal_def demo_k1_def demo_k2_def sec_Use_eq sec_Reveal_def sec_New_def)

lemma demo_rings:
  "keyRing demo_first = ([demo_k2, demo_k1], 1)" "keyRing demo_second = ([demo_k2, demo_k1], 0)"
  by (simp_all add: keyRing_def demo_first_def demo_second_def demo_k1_def demo_k2_def)

lemma demo_seal:
  assumes "sealingKey demo_hmac l x marker = Inr k" and "k \<in> {demo_k1, demo_k2}" and "\<not> lg_closed l"
    and "ValidateEvent demo_al_env (demo_sealed (reveal k) e (ev_HMAC x)) = None" and "chain_head es = x"
  shows "AppendChained demo_al_env None (seal demo_hmac demo_al_env l e marker) es =
    (None, es @ [demo_sealed (reveal k) e (ev_HMAC x)])"
  using assms
  by (auto simp: AppendChained_def seal_def demo_sealed_def demo_k1_def demo_k2_def reveal_def sec_Use_eq sec_Reveal_def sec_New_def
      computeKeyedHMAC_input Let_def)

lemma demo_in_ring [simp]: "demo_key1 \<in> set demo_keys" "demo_key2 \<in> set demo_keys"
  by (simp_all add: demo_keys_def)

lemma demo_HMAC [simp]: "ev_HMAC (demo_sealed k e p) \<noteq> []"
  by (simp add: demo_sealed_def demo_hmac_def)

lemma demo_sealingKey:
  "sealingKey demo_hmac demo_first (demo_sealed demo_key1 e p) False = Inr demo_k1"
  "sealingKey demo_hmac demo_second (demo_sealed demo_key2 e p) False = Inr demo_k2"
  "sealingKey demo_hmac demo_second (demo_sealed demo_key1 e p) True = Inr demo_k2"
  "sealingKey demo_hmac demo_second (demo_sealed demo_key1 e p) False = Inl ErrRotationDue"
  "sealingKey demo_hmac demo_first zero_event True = Inr demo_k1"
  "sealingKey demo_hmac demo_first zero_event False = Inl ErrRotationDue"
  by (simp_all add: sealingKey_def demo_rings sealerOf_def Let_def demo_sealedBy)
    (simp_all add: demo_first_def demo_second_def zero_event_def)

lemma demo_append_refused:
  assumes "sealingKey demo_hmac l (chain_head es) marker = Inl err" and "\<not> lg_closed l"
  shows "appendSealed demo_hmac demo_al_env n l e marker es = (Some err, es)"
  using assms by (simp add: appendSealed_def AppendChained_def seal_def demo_al_env_def)

lemma demo_append_sealed:
  assumes "sealingKey demo_hmac l (chain_head es) marker = Inr k" and "k \<in> {demo_k1, demo_k2}" and "\<not> lg_closed l"
    and "ValidateEvent demo_al_env (demo_sealed (reveal k) e (ev_HMAC (chain_head es))) = None"
  shows "appendSealed demo_hmac demo_al_env n l e marker es = (None, es @ [demo_sealed (reveal k) e (ev_HMAC (chain_head es))])"
  using demo_seal [OF assms refl] by (simp add: appendSealed_def) (simp add: demo_al_env_def)

lemma demo_open [simp]: "\<not> lg_closed demo_first" "\<not> lg_closed demo_second"
  by (simp_all add: demo_first_def demo_second_def)

lemma demo_zero_HMAC [simp]: "ev_HMAC zero_event = []"
  by (simp add: zero_event_def)

lemma demo_Action [simp]: "ev_Action demo_update \<noteq> RotationAction"
  by (simp add: demo_update_def RotationAction_def)

lemma demo_LogE_first: "LogE demo_hmac demo_al_env demo_first demo_update [] = (None, [demo_m1, demo_e1])"
  by (simp add: LogE_def demo_prepare maxRotationAttempts_def numeral_2_eq_2 recordRotation_def
      demo_append_refused demo_append_sealed chain_head_def demo_sealingKey demo_validate demo_m1_def demo_e1_def)

lemma demo_LogE_second:
  "LogE demo_hmac demo_al_env demo_second demo_update [demo_m1, demo_e1] = (None, [demo_m1, demo_e1, demo_m2, demo_e2])"
  by (simp add: LogE_def demo_prepare maxRotationAttempts_def numeral_2_eq_2 recordRotation_def
      demo_append_refused demo_append_sealed chain_head_def demo_sealingKey demo_validate demo_m1_def demo_e1_def
      demo_m2_def demo_e2_def)

lemma demo_ring: "good_ring demo_keys"
  by (simp add: good_ring_def usable_def demo_keys_def MinChainKeyLen_def)

lemma demo_replicas: "replica demo_keys demo_first" "replica demo_keys demo_second"
  by (simp_all add: replica_def demo_rings demo_keys_def)

lemma demo_interferes: "interferes demo_hmac demo_keys demo_al_env"
  by (simp add: interferes_def demo_al_env_def)

lemma demo_reach: "al_reach demo_hmac demo_keys [demo_m1, demo_e1]"
  using LogE_reach [OF demo_interferes demo_replicas(1) al_empty, of demo_update] by (simp add: demo_LogE_first)

lemma length_lp: "length (lp x) = 4 + length x" "length (nano t) = 8"
  by (simp_all add: lp_def nano_def)

lemma demo_length:
  "length (ev_HMAC (demo_sealed k e p)) \<le> 100 + length (ev_ID e) + length (ev_Actor e) + length (ev_Action e)
     + length (ev_Resource e) + length (ev_Status e) + length (ev_IPAddress e) + length (ev_TraceID e)
     + length (ev_Metadata e) + length (ev_Tenant e) + length (ck_ID k) + 2 * length p"
  by (simp add: demo_sealed_def demo_hmac_def mac_input_parts ev_fields_def ev_tail_def kid_suffix_def length_lp
      formatHeader_def keyIDTag_def)

lemma demo_small_step:
  assumes "length p < n" and "2 * n + 300 \<le> 10000" and "e \<in> demo_prepared ` {demo_update, rotationMarker demo_first, rotationMarker demo_second}"
    and "k \<in> set demo_keys"
  shows "ev_small (demo_sealed k e p)" and "length (ev_HMAC (demo_sealed k e p)) < 2 * n + 300"
proof -
  show "ev_small (demo_sealed k e p)"
    using assms(1,2,3)
    by (auto simp: ev_small_def demo_sealed_def demo_prepared_def demo_update_def rotationMarker_def zero_event_def
        demo_first_def demo_second_def RotationActor_def RotationAction_def rotationResource_def in_i64_def)
  show "length (ev_HMAC (demo_sealed k e p)) < 2 * n + 300"
    using demo_length [of k e p] assms(1,3,4)
    by (auto simp: demo_prepared_def demo_update_def rotationMarker_def zero_event_def demo_keys_def
        demo_first_def demo_second_def RotationActor_def RotationAction_def rotationResource_def)
qed

lemma demo_separates: "(\<forall>e \<in> E. ev_small e) \<Longrightarrow> mac_separates demo_hmac (demo_keys @ demo_keys) E"
  by (auto simp: mac_separates_def inj_on_def chain_inputs_def demo_hmac_def demo_keys_def split: if_splits)

lemma demo_separates_one: "(\<forall>e \<in> E. ev_small e) \<Longrightarrow> mac_separates demo_hmac demo_keys E"
  by (auto simp: mac_separates_def inj_on_def chain_inputs_def demo_hmac_def demo_keys_def split: if_splits)

lemma demo_small: "ev_small demo_m1" "ev_small demo_e1" "ev_small demo_m2" "ev_small demo_e2"
proof -
  have 1: "ev_small demo_m1 \<and> length (ev_HMAC demo_m1) < 302"
    using demo_small_step [of "[]" 1] unfolding demo_m1_def by simp
  then have 2: "ev_small demo_e1 \<and> length (ev_HMAC demo_e1) < 904"
    using demo_small_step [of "ev_HMAC demo_m1" 302] unfolding demo_e1_def by simp
  then have 3: "ev_small demo_m2 \<and> length (ev_HMAC demo_m2) < 2108"
    using demo_small_step [of "ev_HMAC demo_e1" 904] unfolding demo_m2_def by simp
  then have "ev_small demo_e2"
    using demo_small_step [of "ev_HMAC demo_m2" 2108] unfolding demo_e2_def by simp
  with 1 2 3 show "ev_small demo_m1" "ev_small demo_e1" "ev_small demo_m2" "ev_small demo_e2" by simp_all
qed

lemma demo_HMAC_new: "ev_HMAC (demo_sealed k e p) \<noteq> p"
proof
  assume "ev_HMAC (demo_sealed k e p) = p"
  then have "length (ev_HMAC (demo_sealed k e p)) = length p" by simp
  then show False
    by (simp add: demo_sealed_def demo_hmac_def mac_input_parts ev_fields_def length_lp)
qed

lemma demo_sealer:
  "sealer demo_hmac demo_keys demo_m1 = Some (1, True)" "sealer demo_hmac demo_keys demo_e1 = Some (1, True)"
  "sealer demo_hmac demo_keys demo_m2 = Some (0, True)" "sealer demo_hmac demo_keys demo_e2 = Some (0, True)"
  unfolding sealer_def demo_m1_def demo_e1_def demo_m2_def demo_e2_def
  by (simp_all add: demo_keys_def demo_sealedBy)

lemma demo_fields:
  "ev_PrevHMAC demo_m1 = []" "ev_PrevHMAC demo_e1 = ev_HMAC demo_m1" "ev_PrevHMAC demo_m2 = ev_HMAC demo_e1"
  "ev_PrevHMAC demo_e2 = ev_HMAC demo_m2" "isRotation demo_m1" "\<not> isRotation demo_e1" "isRotation demo_m2" "\<not> isRotation demo_e2"
  "ev_Resource demo_m1 = rotationResource @ ''k1''" "ev_Resource demo_m2 = rotationResource @ ''k2''"
  unfolding demo_m1_def demo_e1_def demo_m2_def demo_e2_def
  by (simp_all add: demo_sealed_def demo_prepared_def demo_update_def rotationMarker_def isRotation_def RotationAction_def
      demo_first_def demo_second_def)

lemma demo_HMACs [simp]: "ev_HMAC demo_m1 \<noteq> ev_HMAC demo_e1" "ev_HMAC demo_e1 \<noteq> []"
  using demo_HMAC_new [of _ _ "ev_HMAC demo_m1"] unfolding demo_e1_def by (metis demo_HMAC)+

definition demo_anchor :: head where
  "demo_anchor = \<lparr> hd_HMAC = ev_HMAC demo_e1, hd_Events = 2, hd_KeyID = ''k1'' \<rparr>"

lemma demo_keys_facts:
  "demo_keys \<noteq> []" "length demo_keys = 2" "list_all (\<lambda>k. MinChainKeyLen \<le> length (ck_Key k)) demo_keys"
  "ck_ID (demo_keys ! 0) = ''k2''" "ck_ID (demo_keys ! Suc 0) = ''k1''" "index_of (\<lambda>k. ck_ID k = ''k1'') demo_keys = Some 1"
  by (simp_all add: demo_keys_def MinChainKeyLen_def)

lemmas demo_verify = VerifyChainKeys_def verify_def newChainVerifier_def vstep_def link_ok_def checkAnchor_def advance_def
  finish_def demo_sealer demo_fields demo_keys_facts

lemma demo_verified:
  "VerifyChainKeys demo_hmac [demo_m1, demo_e1] demo_keys \<lparr> vf_Watermark = [], vf_Anchor = no_anchor \<rparr> = Inr demo_anchor"
  by (simp add: demo_verify no_anchor_def demo_anchor_def)

lemma demo_verified_later:
  "VerifyChainKeys demo_hmac [demo_m1, demo_e1, demo_m2, demo_e2] demo_keys
     \<lparr> vf_Watermark = [], vf_Anchor = demo_anchor \<rparr> = Inr \<lparr> hd_HMAC = ev_HMAC demo_e2, hd_Events = 4, hd_KeyID = ''k2'' \<rparr>"
  by (simp add: demo_verify demo_anchor_def)

theorem audit_anchor_commits_witness:
  "VerifyChainKeys demo_hmac [demo_m1, demo_e1] demo_keys \<lparr> vf_Watermark = [], vf_Anchor = no_anchor \<rparr> = Inr demo_anchor
    \<and> take (length [demo_m1, demo_e1]) [demo_m1, demo_e1, demo_m2, demo_e2] = [demo_m1, demo_e1]"
proof -
  have "mac_separates demo_hmac (demo_keys @ demo_keys) (set [demo_m1, demo_e1] \<union> set [demo_m1, demo_e1, demo_m2, demo_e2])"
    using demo_small by (intro demo_separates) simp
  moreover have "\<forall>e \<in> set [demo_m1, demo_e1] \<union> set [demo_m1, demo_e1, demo_m2, demo_e2]. in_i64 (ev_Timestamp e)"
    by (simp add: demo_m1_def demo_e1_def demo_m2_def demo_e2_def demo_sealed_def demo_prepared_def in_i64_def)
  ultimately show ?thesis
    using audit_anchor_commits [OF demo_verified demo_verified_later] demo_verified by blast
qed

theorem audit_log_verifies_witness:
  "LogE demo_hmac demo_al_env demo_second demo_update [demo_m1, demo_e1] = (None, [demo_m1, demo_e1, demo_m2, demo_e2])
    \<and> (\<exists>h. VerifyChainKeys demo_hmac [demo_m1, demo_e1, demo_m2, demo_e2] demo_keys
             \<lparr> vf_Watermark = [], vf_Anchor = no_anchor \<rparr> = Inr h)
    \<and> (\<exists>e. prepareEvent demo_al_env 0 demo_update = Inr e \<and> logged e [demo_m1, demo_e1, demo_m2, demo_e2])"
proof -
  have "mac_separates demo_hmac demo_keys (set [demo_m1, demo_e1, demo_m2, demo_e2])"
    using demo_small by (intro demo_separates_one) simp
  then show ?thesis
    using audit_log_verifies [OF demo_ring demo_reach demo_replicas(2) demo_interferes demo_LogE_second, of 0] demo_LogE_second
    by blast
qed

theorem audit_prune_all_breaks_witness:
  "\<exists>w. DeleteBefore 6000 [demo_m1, demo_e1] = ((2, w), [])
    \<and> VerifyChainKeys demo_hmac [demo_m1, demo_e1] demo_keys \<lparr> vf_Watermark = w, vf_Anchor = no_anchor \<rparr> = Inl ErrChainBroken"
proof -
  have "mac_separates demo_hmac demo_keys (set [demo_m1, demo_e1])"
    using demo_small by (intro demo_separates_one) simp
  moreover have "ev_Timestamp demo_m1 < 6000" "ev_Timestamp demo_e1 < 6000"
    by (simp_all add: demo_m1_def demo_e1_def demo_sealed_def demo_prepared_def)
  ultimately show ?thesis
    using audit_prune_all_breaks [OF demo_verified, of 6000 "[demo_m1, demo_e1]"] demo_reach by (simp add: numeral_2_eq_2)
qed

theorem audit_log_succeeds_witness:
  "LogE demo_hmac demo_al_env demo_second demo_update [demo_m1, demo_e1] = (None, [demo_m1, demo_e1, demo_m2, demo_e2])
    \<and> rotation_due demo_hmac demo_keys 0 [demo_m1, demo_e1]
    \<and> demo_e2 = sealed_with demo_hmac (demo_keys ! 0) (demo_prepared demo_update) (ev_HMAC demo_m2)"
proof -
  have sep: "mac_separates demo_hmac demo_keys (set [demo_m1, demo_e1])"
    using demo_small by (intro demo_separates_one) simp
  have valid: "ValidateEvent demo_al_env (demo_prepared demo_update) = None"
    "ValidateEvent demo_al_env (demo_prepared (rotationMarker demo_second)) = None"
    using demo_validate(1,3) by (simp_all add: demo_sealed_def ValidateEvent_chain)
  have k: "demo_keys ! 0 = demo_key2" by (simp add: demo_keys_def)
  have w: "sealed_with demo_hmac k e p = demo_sealed k e p" for k e p
    by (simp add: sealed_with_def demo_sealed_def computeKeyedHMAC_input)
  have due: "rotation_due demo_hmac demo_keys 0 [demo_m1, demo_e1]"
    by (auto simp: rotation_due_def demo_sealer)
  have quiet: "ae_ctx demo_al_env n = None" "ae_others demo_al_env n es = es" for n es
    by (simp_all add: demo_al_env_def)
  have s: "0 = snd (keyRing demo_second)" by (simp add: demo_rings)
  have "demo_m2 = sealed_with demo_hmac (demo_keys ! 0) (demo_prepared (rotationMarker demo_second))
      (ev_HMAC (chain_head [demo_m1, demo_e1]))"
    unfolding k w by (simp add: demo_m2_def chain_head_def)
  from audit_log_succeeds [OF demo_ring demo_reach sep demo_replicas(2) demo_open(2) demo_Action quiet
      demo_prepare(1) valid(1) demo_prepare(2) valid(2) s this] show ?thesis
    using due unfolding k w by (simp add: demo_e2_def)
qed

end
