(* ===== verification/Spec2Isabelle.thy ===== *)
theory Spec2Isabelle
  imports Core_Tenant Gcra Budget_Conc Saga_Recovery Approval_Views Idempotency_Tenant
    Retry Timeout_Budget Bulkhead Outbox_Inbox Audit_Guarantees
begin

text \<open>
  \<^bold>\<open>rho-kit: a verification library for a Go service toolkit.\<close>

  The repository is a toolkit of packages for services: multi-tenant keys and contexts, rate
  limits and budgets, sagas, human approvals, idempotent requests, resilience helpers, signed
  pagination cursors, and around them the wiring to HTTP, databases, brokers and clouds.  This
  development models the packages whose behaviour is decided by their own code and proves what
  they promise.  Each theory opens with the files it models; this is the overview.

  \<^bold>\<open>How Go is represented.\<close>
  Theory \<open>Go_Prelude\<close>: an \<^verbatim>\<open>int64\<close> or \<^verbatim>\<open>time.Duration\<close> is an integer and the wrap-around is written out
  (\<open>wrap64\<close>); \<^verbatim>\<open>time.Time\<close> is a number of nanoseconds; unsigned counters are words of their width; a map
  is an association list with distinct keys, and where the code ranges over it the order is an
  argument; a context is what it answers at each poll; a clock is a function of the place in the
  call that reads it.  Theory \<open>Go_Strings\<close>: a string is its bytes, with UTF-8 decoding, white
  space and control characters as the standard library defines them.  Theory \<open>Go_Base64\<close>: the
  unpadded URL alphabet.  An operation that runs under a mutex is one step; where the code takes
  its locks more than once, or uses atomics and channels, the interleavings are modelled
  (\<open>Budget_Conc\<close>, \<open>Bulkhead\<close>, the two looks of \<open>im_Get\<close>).  Errors are values of a datatype per package.
  A panic is a value too where callers can meet it.  Loops that may not end are partial functions
  (\<open>Retry\<close>); no model uses fuel, except \<open>apv_pages\<close>, which follows cursors and for which one call more
  than there are matching requests is shown to be enough.

  \<^bold>\<open>Parts and theories.\<close>

  \<^item> \<^verbatim>\<open>core/tenant\<close>, theory \<open>Core_Tenant\<close>: identifiers (\<open>ValidateID\<close>), the tenant of a context (\<open>WithID\<close>,
    \<open>Required\<close>) and tenant-scoped keys (\<open>KeyFor\<close>).  Keys of different tenants or parts never collide; a
    context never changes its tenant; an identifier with a control code passes validation and is
    then rejected by \<open>KeyFor\<close>.
  \<^item> \<^verbatim>\<open>core/secret\<close>, theory \<open>Secret\<close>: secrets and the constant-time comparison, bit by bit; it decides equality.
  \<^item> \<^verbatim>\<open>httpx/pagination\<close>, \<^verbatim>\<open>data/approval\<close>, \<^verbatim>\<open>data/actionlog\<close>, \<^verbatim>\<open>observability/auditlog\<close>, theory \<open>Cursors\<close>:
    the four cursor signers; accepted cursors carry the MAC of their payload, encoding and decoding
    are inverse up to the cap on the length of a cursor (the pagination signer issues longer ones, which it
    then refuses), and when the framing of the MAC input separates its fields.
  \<^item> \<^verbatim>\<open>data/ratelimit\<close>, theories \<open>Ratelimit\<close> and \<open>Gcra\<close>: the contract of limiters and the limiter with its
    64-bit arithmetic: how many requests pass in any window, as long as no live key is evicted from a full
    shard and the clock does not go back; that \<^verbatim>\<open>RetryAfter\<close> is exact up to the nanosecond added to it; that the
    table of keys is bounded; and that a window of one period can hold nearly two bursts.
  \<^item> \<^verbatim>\<open>data/budget\<close>, theories \<open>Budget\<close> and \<open>Budget_Conc\<close>: the contract (locale \<open>budget_backend\<close>, interpreted
    on the memory backend), no overspending, refunds, and the lock protocol of concurrent calls,
    which refines the sequential model, with the case in which a stale clock reading breaks the
    limit.
  \<^item> \<^verbatim>\<open>runtime/saga\<close>, theories \<open>Saga\<close>, \<open>Saga_Durable\<close> and \<open>Saga_Recovery\<close>: runs with roll-back, the durable
    executor over any store (locale \<open>state_store\<close>, interpreted on the memory store), and crashes at
    any write (locale \<open>reliable_store\<close>).  What a run does is specified apart from its code, by the relations
    \<open>forwarded\<close>, \<open>stopped\<close> and \<open>compensated\<close>.
  \<^item> \<^verbatim>\<open>data/approval\<close>, theories \<open>Approval\<close> and \<open>Approval_Views\<close>: requests only move along their life cycle
    (relation \<open>apv_move\<close>, the edges \<open>apv_edge\<close>), what is executed was approved in time, paging is complete, tenants are
    isolated.
  \<^item> \<^verbatim>\<open>data/idempotency\<close>, theories \<open>Idempotency\<close>, \<open>Idempotency_Safety\<close> and \<open>Idempotency_Tenant\<close>: validation, the
    memory store with its sweeps (relation \<open>idem_move\<close>), replay, exclusion and provenance; the tenant
    wrapper over any store (locale \<open>idem_backend\<close>, interpreted on the memory store).  Keys are scoped
    with \<open>KeyFor\<close> of \<open>Core_Tenant\<close>, whose injectivity gives the isolation.
  \<^item> \<^verbatim>\<open>resilience/retry\<close>, theory \<open>Retry\<close>: policies, options and the two loops over any environment.
  \<^item> \<^verbatim>\<open>resilience/timeoutbudget\<close>, theory \<open>Timeout_Budget\<close>: reservations and their restore functions, against
    a ledger computed from the calls alone (\<open>ledger\<close>, \<open>outstanding\<close>).
  \<^item> \<^verbatim>\<open>resilience/bulkhead\<close>, theory \<open>Bulkhead\<close>: the constructor with its check of the name, and goroutines over a channel and a counter (relation \<open>bh_step\<close>).
  \<^item> \<^verbatim>\<open>infra/messaging\<close> (\<^verbatim>\<open>route.go\<close>, \<^verbatim>\<open>message.go\<close>, \<^verbatim>\<open>size_limit.go\<close>), theory \<open>Messaging\<close>: route names, messages with
    their headers, size limits.
  \<^item> \<^verbatim>\<open>infra/outbox\<close> and \<^verbatim>\<open>infra/outbox/postgres\<close>: the writer, the multiplexer and the adapter to brokers
    (theory \<open>Outbox\<close>), the relay over any store (theory \<open>Outbox_Relay\<close>, locales \<open>relay_store\<close> and
    \<open>resetting_store\<close>), the PostgreSQL store as statements on a list of rows (theory \<open>Outbox_Store\<close>, which
    interprets the locales), and writers and any number of relays over one table with lost
    statements, crashes and stale recovery (theory \<open>Outbox_Delivery\<close>, events \<open>ob_step\<close>, invariant \<open>ob_inv\<close>).
    Theory \<open>Outbox_Guarantees\<close>: nothing written is lost, claims fence off other processes, what
    reaches the broker is what was written; \<open>Outbox_Example\<close> is the concrete run its witnesses use.
  \<^item> \<^verbatim>\<open>infra/outbox/postgres/inbox.go\<close>, theory \<open>Inbox\<close>: deliveries recorded in the transaction of the handler,
    with concurrent workers as the relation \<open>ib_step\<close>; a call of \<open>Process\<close> is a run of it, and every
    acknowledged message has been processed exactly once.  Theory \<open>Outbox_Inbox\<close> joins producer and consumer.
  \<^item> \<^verbatim>\<open>observability/auditlog\<close>: the canonical encoding of events, the HMAC chain and its verifier (theory
    \<open>Audit_Chain\<close>), the logger with its ring of keys over the memory store, and the retention sweep of
    the PostgreSQL store (theory \<open>Audit_Log\<close>).  Theory \<open>Audit_Guarantees\<close>: what replicas log through a
    rotation of keys verifies (relation \<open>al_reach\<close>), also after a sweep; a kept head commits to every
    event before it, up to times moved by a multiple of \<open>2 ^ 64\<close> nanoseconds, which the encoding does not
    see (\<open>stamped\<close>); logging is never stuck on a rotation and appends exactly what it should; and the sweep that removes everything
    leaves a watermark that the next events do not continue.

  \<^bold>\<open>How the theorems are built.\<close>
  Stores are analysed per key or per request: a relation lists the moves one call can make, each
  operation is shown to be one of them, and properties of whole runs follow by induction over the
  calls.  An interface on which a client relies is a locale whose laws the provider discharges by
  an interpretation.  Every property with hypotheses has a witness that applies it to concrete
  data.

  \<^bold>\<open>Parameters.\<close>
  Code outside the repository is an argument: HMAC and SHA-256, formatting and parsing of times,
  JSON validity, random bytes, the exponential backoff, user callbacks.  Where a theorem needs
  something of them (that a cursor's time parses back, that headers in UTF-8 survive JSON, that two digests differ, that HMAC separates
  the inputs of a chain) it is a
  hypothesis of that theorem.

  \<^bold>\<open>Not modelled.\<close>
  Other backends that are SQL, Lua scripts or clients of a service; HTTP, gRPC, command-line,
  metrics and tracing code; cryptographic primitives; the circuit breaker and the token bucket, which
  wrap third-party state machines; goroutine supervision (\<^verbatim>\<open>runtime/lifecycle\<close>, \<^verbatim>\<open>eventbus\<close>, \<^verbatim>\<open>cron\<close>)
  and the in-memory broker, which are left for later.  Of SQL only the statements of the outbox, the
  inbox and the sweep of the audit log are modelled; of the audit log, listing, search and drop hooks are not.  Within the modelled packages:
  logging, metrics, functional options other than those of \<open>Retry\<close>, of the bulkhead and of the outbox, guards against nil receivers,
  and deep copies, which are the identity on values (the copy of a cached response, which is not, is modelled).
\<close>

section \<open>Listing approvals with signed cursors\<close>

text \<open>The requests of a run have identifiers short enough for a cursor.\<close>

lemma apv_cursor_length:
  assumes "length (fmtTime t) \<le> 64" and "\<forall>k s. length (hmac k s) \<le> 64" and "length cid \<le> apv_MaxIDLen"
  shows "length (apc_Encode hmac fmtTime (Some x) t cid) \<le> cursor_max"
proof -
  let ?mac = "sec_Use (cs_key x) (\<lambda>k. hmac k (fmtTime t @ ''|'' @ cid))"
  have "length ?mac \<le> 64" using assms(2) by (simp add: sec_Use_eq)
  then show ?thesis
    using assms(1,3)
    by (auto simp: apc_Encode_def keyset_encode_def signed_form_def length_EncodeToString cursor_max_def apv_MaxIDLen_def Let_def)
qed

lemma signer_ready:
  assumes "apc_NewCursorSigner key = Some x"
  shows "sec_Reveal (cs_key x) \<noteq> []" and "cs_keyLen x \<noteq> 0"
  using assms by (auto simp: apc_NewCursorSigner_def apc_MinKey_def sec_New_def sec_Reveal_def split: if_splits)

text \<open>
  Property C22.  From calls to complete listings.  Whatever calls built up the memory store of
  approvals, paging through \<^verbatim>\<open>List\<close> with the package's own cursor signer, made from any key it
  accepts, returns exactly the matching requests, newest first, each once; no cursor it issues is
  ever rejected.  Of the MAC only its length is used, of the time format that the creation times
  of the requests take at most 64 bytes, contain no bar and parse back.
\<close>

theorem approvals_paged_with_signed_cursors:
  assumes "apc_NewCursorSigner key = Some x" and "s = apv_run jv evs []"
    and "\<forall>k m. length (hmac k m) \<le> 64"
    and "\<forall>t \<in> rqCreatedAt ` snd ` set s. fmtTime t \<noteq> [] \<and> length (fmtTime t) \<le> 64 \<and> CHR ''|'' \<notin> set (fmtTime t) \<and>
      parseTime (fmtTime t) = Some t"
    and "\<forall>i. mset (order i) = mset (map fst s)" and "\<forall>n. ctx_obs ctx n = None"
    and "apv_QueryValidate q = None" and "qCursor q = []"
  shows "concat (apv_pages (apc_Encode hmac fmtTime (Some x)) (apc_Decode hmac parseTime (Some x)) order ctx s (Suc (length s)) q)
    = newest_first q s"
proof -
  have inv: "apv_inv s" using assms(2) by (simp add: apv_inv_run)
  have codec: "apc_Encode hmac fmtTime (Some x) (rqCreatedAt r) (rqID r) \<noteq> [] \<and>
      apc_Decode hmac parseTime (Some x) (apc_Encode hmac fmtTime (Some x) (rqCreatedAt r) (rqID r)) = Some (rqCreatedAt r, rqID r)"
    if r: "r \<in> snd ` set s" for r
  proof -
    obtain k where "(k, r) \<in> set s" using r by auto
    then have "map_of s k = Some r" using inv by (auto simp: apv_inv_def gm_wf_def)
    then have id: "rqID r \<noteq> []" "length (rqID r) \<le> apv_MaxIDLen" using inv by (auto simp: apv_inv_def)
    have "length (apc_Encode hmac fmtTime (Some x) (rqCreatedAt r) (rqID r)) \<le> cursor_max"
      using apv_cursor_length [of fmtTime "rqCreatedAt r" hmac "rqID r" x] assms(3,4) id(2) r by blast
    then have "apc_Decode hmac parseTime (Some x) (apc_Encode hmac fmtTime (Some x) (rqCreatedAt r) (rqID r)) = Some (rqCreatedAt r, rqID r)"
      unfolding apc_Decode_def apc_Encode_def
      using keyset_roundtrip [OF signer_ready [OF assms(1)] id(1), of fmtTime "rqCreatedAt r" parseTime hmac "[]"] assms(4) r by blast
    moreover have "apc_Encode hmac fmtTime (Some x) (rqCreatedAt r) (rqID r) \<noteq> []"
      using id(1) by (simp add: apc_Encode_def keyset_encode_def signed_form_def Let_def)
    ultimately show ?thesis by blast
  qed
  have "apc_Decode hmac parseTime (Some x) (qCursor q) = Some (zero_time, [])"
    using assms(8) by (simp add: apc_Decode_def keyset_decode_def)
  moreover have "length (newest_first q s) \<le> length s"
    using length_filter_le [of "\<lambda>r. apv_match r q" "map snd s"] by (simp add: newest_first_def sort_newest_def)
  moreover have "apv_rest q (zero_time, []) (newest_first q s) = drop 0 (newest_first q s)"
    using assms(8) by (simp add: apv_rest_def)
  ultimately show ?thesis
    using apv_pages_from [of s order ctx "apc_Encode hmac fmtTime (Some x)" "apc_Decode hmac parseTime (Some x)" q "(zero_time, [])" 0
        "Suc (length s)"] inv assms(5-7) codec by simp
qed

theorem approvals_paged_with_signed_cursors_witness:
  "map rqID (concat (apv_pages
     (apc_Encode (\<lambda>_ _. ''m'') (\<lambda>_. ''T10'') (Some \<lparr>cs_key = sec_New (replicate 32 7), cs_keyLen = 32\<rparr>))
     (apc_Decode (\<lambda>_ _. ''m'') (\<lambda>_. Some 10) (Some \<lparr>cs_key = sec_New (replicate 32 7), cs_keyLen = 32\<rparr>))
     (\<lambda>_. [''r1'']) background (apv_run (\<lambda>_. True) apv_ex_events []) 2 apv_ex_query)) = [''r1'']"
proof -
  let ?s = "apv_run (\<lambda>_. True) apv_ex_events []"
  have s: "?s = [(''r1'', apv_ex_approved)]" by (rule apv_ex_run)
  have "apc_NewCursorSigner (replicate 32 7) = Some \<lparr>cs_key = sec_New (replicate 32 7), cs_keyLen = 32\<rparr>"
    by (simp add: apc_NewCursorSigner_def apc_MinKey_def)
  moreover have "apv_QueryValidate apv_ex_query = None" "qCursor apv_ex_query = []"
    by (simp_all add: apv_ex_query_def apv_QueryValidate_def apv_MaxPageLimit_def)
  moreover have "newest_first apv_ex_query ?s = [apv_ex_approved]"
    by (simp add: s newest_first_def sort_newest_def apv_match_def apv_ex_query_def apv_ex_approved_def
        apv_ex_request_def zero_time_def)
  moreover have "rqCreatedAt apv_ex_approved = 10" "rqID apv_ex_approved = ''r1''"
    by (simp_all add: apv_ex_approved_def apv_ex_request_def)
  ultimately show ?thesis
    using approvals_paged_with_signed_cursors [of "replicate 32 7" _ ?s "\<lambda>_. True" apv_ex_events "\<lambda>_ _. ''m''" "\<lambda>_. ''T10''" "\<lambda>_. Some 10"
        "\<lambda>_. [''r1'']" background apv_ex_query]
    by (simp add: s numeral_2_eq_2)
qed

end
